(* ===== verification/Prelude.thy ===== *)
theory Prelude
  imports Main "HOL-Library.Word"
begin

text \<open>
  Shared vocabulary of the development: the machine integers of the Rust sources as words,
  byte strings, panics as values, the state-and-panic combinators in which every effectful
  function of the program is written, and the generic lemmas on lists and words the component
  theories use.

  The model follows the release profile the README builds (\<open>cargo build --release\<close>):
  integer arithmetic wraps around, while an index or slice out of range, \<open>unwrap\<close> of
  \<open>None\<close> and \<open>panic!\<close> stop the thread. A \<open>usize\<close> that counts bytes of
  a \<open>Vec\<close> or slice is a \<open>nat\<close> (Rust bounds such lengths by \<open>isize::MAX\<close>),
  every other integer is a word of its width.
\<close>

unbundle bit_operations_syntax

section \<open>Types\<close>

type_synonym u8 = "8 word"
type_synonym u16 = "16 word"
type_synonym u32 = "32 word"
type_synonym u64 = "64 word"
type_synonym usize = "64 word"
type_synonym i16 = "16 word"
type_synonym i32 = "32 word"
type_synonym i64 = "64 word"
type_synonym isize = "64 word"
type_synonym bytes = "u8 list"

text \<open>Signed words are read with \<^const>\<open>sint\<close>; comparisons of signed values go through it.\<close>

abbreviation neg :: "'a::len word \<Rightarrow> bool" where
  "neg w \<equiv> sint w < 0"

text \<open>A Rust byte-string literal: the bytes of its ASCII characters.\<close>

definition str :: "string \<Rightarrow> bytes" where
  "str s = map of_char s"

abbreviation CR :: u8 where "CR \<equiv> 13"
abbreviation LF :: u8 where "LF \<equiv> 10"
abbreviation SP :: u8 where "SP \<equiv> 32"

section \<open>Panics as values\<close>

text \<open>
  The ways a computation stops short of returning: Rust panics, a failed allocation, a wild memory
  access, the process exit, and \<open>Out_Of_Fuel\<close> for a loop of the code that was cut off
  because its bound was reached.
\<close>

datatype fault =
    Index_Out_Of_Bounds
  | Slice_Out_Of_Range
  | Unwrap_None
  | No_Free_Task_Slots
  | Alloc_Error
  | Wild_Pointer
  | Out_Of_Fuel
  | Exited i32

type_synonym 'a res = "fault + 'a"

definition bind_res :: "'a res \<Rightarrow> ('a \<Rightarrow> 'b res) \<Rightarrow> 'b res" where
  "bind_res m f = (case m of Inl e \<Rightarrow> Inl e | Inr a \<Rightarrow> f a)"

text \<open>\<open>xs[i]\<close>, \<open>xs[i] = v\<close>, \<open>&xs[i..j]\<close> and \<open>xs.swap(i, j)\<close>, with their panics.\<close>

definition index :: "'a list \<Rightarrow> nat \<Rightarrow> 'a res" where
  "index xs i = (if i < length xs then Inr (xs ! i) else Inl Index_Out_Of_Bounds)"

definition set_index :: "'a list \<Rightarrow> nat \<Rightarrow> 'a \<Rightarrow> 'a list res" where
  "set_index xs i v = (if i < length xs then Inr (xs[i := v]) else Inl Index_Out_Of_Bounds)"

definition sub_slice :: "'a list \<Rightarrow> nat \<Rightarrow> nat \<Rightarrow> 'a list res" where
  "sub_slice xs i j =
     (if i \<le> j \<and> j \<le> length xs then Inr (take (j - i) (drop i xs)) else Inl Slice_Out_Of_Range)"

definition swap :: "'a list \<Rightarrow> nat \<Rightarrow> nat \<Rightarrow> 'a list res" where
  "swap xs i j =
     (if i < length xs \<and> j < length xs then Inr (xs[i := xs ! j, j := xs ! i])
      else Inl Index_Out_Of_Bounds)"

section \<open>Polling\<close>

text \<open>
  \<open>core::task::Poll\<close>, for a future polled in place: the output, or the future in its new
  state.
\<close>

datatype ('o, 'f) poll = Ready 'o | Pending 'f

section \<open>Effects: explicit state with panics\<close>

text \<open>
  An effectful function takes the machine state and either panics (keeping the state it had
  reached) or returns a value and the new state.
\<close>

type_synonym ('s, 'a) prog = "'s \<Rightarrow> (fault \<times> 's) + ('a \<times> 's)"

definition return_p :: "'a \<Rightarrow> ('s, 'a) prog" where
  "return_p a s = Inr (a, s)"

definition raise_p :: "fault \<Rightarrow> ('s, 'a) prog" where
  "raise_p e s = Inl (e, s)"

definition bind_p :: "('s, 'a) prog \<Rightarrow> ('a \<Rightarrow> ('s, 'b) prog) \<Rightarrow> ('s, 'b) prog" where
  "bind_p m f s = (case m s of Inl e \<Rightarrow> Inl e | Inr (a, t) \<Rightarrow> f a t)"

definition lift_res :: "'a res \<Rightarrow> ('s, 'a) prog" where
  "lift_res r s = (case r of Inl e \<Rightarrow> Inl (e, s) | Inr a \<Rightarrow> Inr (a, s))"

definition get_p :: "('s \<Rightarrow> 'a) \<Rightarrow> ('s, 'a) prog" where
  "get_p f s = Inr (f s, s)"

definition modify_p :: "('s \<Rightarrow> 's) \<Rightarrow> ('s, unit) prog" where
  "modify_p f s = Inr ((), f s)"

text \<open>Statements in sequence, each for its effect only.\<close>

fun seqs :: "('s, unit) prog list \<Rightarrow> ('s, unit) prog" where
  "seqs [] = return_p ()"
| "seqs (m # ms) = bind_p m (\<lambda>_. seqs ms)"

definition ignore_p :: "('s, 'a) prog \<Rightarrow> ('s, unit) prog" where
  "ignore_p m = bind_p m (\<lambda>_. return_p ())"

named_theorems prog_defs \<open>the combinators, unfolded\<close>

lemmas prog_combinators [prog_defs] =
  return_p_def raise_p_def bind_p_def lift_res_def get_p_def modify_p_def ignore_p_def

lemma bind_p_Inr [simp]: "m s = Inr (a, t) \<Longrightarrow> bind_p m f s = f a t"
  by (simp add: bind_p_def)

lemma bind_p_Inl [simp]: "m s = Inl e \<Longrightarrow> bind_p m f s = Inl e"
  by (simp add: bind_p_def)

lemma bind_p_eq_Inr:
  "bind_p m f s = Inr r \<longleftrightarrow> (\<exists>a t. m s = Inr (a, t) \<and> f a t = Inr r)"
  by (auto simp: bind_p_def split: sum.splits)

lemma return_p_apply [simp]: "return_p a s = Inr (a, s)"
  by (simp add: return_p_def)

lemma get_p_apply [simp]: "get_p f s = Inr (f s, s)"
  by (simp add: get_p_def)

lemma modify_p_apply [simp]: "modify_p f s = Inr ((), f s)"
  by (simp add: modify_p_def)

lemma lift_res_Inr [simp]: "lift_res (Inr a) s = Inr (a, s)"
  by (simp add: lift_res_def)

lemma ignore_p_Inr [simp]: "m s = Inr (a, t) \<Longrightarrow> ignore_p m s = Inr ((), t)"
  by (simp add: ignore_p_def)

lemma bind_res_simps [simp]:
  "bind_res (Inr a) f = f a"
  "bind_res (Inl e) f = Inl e"
  by (simp_all add: bind_res_def)

text \<open>
  A computation that never panics and leaves an observation \<open>f\<close> of the state unchanged:
  the frame rule of the development. Rules for the combinators are in \<open>quiet_intros\<close>.
\<close>

definition quiet :: "('s \<Rightarrow> 'o) \<Rightarrow> ('s, 'a) prog \<Rightarrow> bool" where
  "quiet f m \<longleftrightarrow> (\<forall>s. \<exists>a t. m s = Inr (a, t) \<and> f t = f s)"

named_theorems quiet_intros \<open>introduction rules for quiet computations\<close>

lemma quietI: "(\<And>s. \<exists>a t. m s = Inr (a, t) \<and> f t = f s) \<Longrightarrow> quiet f m"
  by (simp add: quiet_def)

lemma quietE:
  assumes "quiet f m"
  obtains a t where "m s = Inr (a, t)" and "f t = f s"
  using assms unfolding quiet_def by blast

lemma quiet_return [quiet_intros]: "quiet f (return_p a)"
  by (simp add: quiet_def)

lemma quiet_get [quiet_intros]: "quiet f (get_p g)"
  by (simp add: quiet_def)

lemma quiet_modify [quiet_intros]: "(\<And>s. f (g s) = f s) \<Longrightarrow> quiet f (modify_p g)"
  by (simp add: quiet_def)

lemma quiet_bind [quiet_intros]:
  assumes "quiet f m" and "\<And>a. quiet f (g a)"
  shows "quiet f (bind_p m g)"
proof (rule quietI)
  fix s
  from assms(1) obtain a t where "m s = Inr (a, t)" "f t = f s" by (rule quietE)
  moreover from assms(2) obtain b u where "g a t = Inr (b, u)" "f u = f t" by (rule quietE)
  ultimately show "\<exists>b u. bind_p m g s = Inr (b, u) \<and> f u = f s" by simp
qed

lemma quiet_ignore [quiet_intros]: "quiet f m \<Longrightarrow> quiet f (ignore_p m)"
  by (simp add: ignore_p_def quiet_bind quiet_return)

lemma quiet_seqs [quiet_intros]: "(\<And>m. m \<in> set ms \<Longrightarrow> quiet f m) \<Longrightarrow> quiet f (seqs ms)"
  by (induction ms) (auto intro: quiet_intros)

lemma quiet_if [quiet_intros]: "(c \<Longrightarrow> quiet f m) \<Longrightarrow> (\<not> c \<Longrightarrow> quiet f n) \<Longrightarrow> quiet f (if c then m else n)"
  by simp

lemma quiet_case_prod [quiet_intros]: "(\<And>a b. quiet f (m a b)) \<Longrightarrow> quiet f (case p of (a, b) \<Rightarrow> m a b)"
  by (cases p) simp

lemma quiet_case_poll [quiet_intros]:
  "(\<And>a. quiet f (m a)) \<Longrightarrow> (\<And>a. quiet f (n a)) \<Longrightarrow> quiet f (case x of Ready a \<Rightarrow> m a | Pending a \<Rightarrow> n a)"
  by (cases x) simp_all

lemma quiet_case_option [quiet_intros]:
  "quiet f m \<Longrightarrow> (\<And>a. quiet f (n a)) \<Longrightarrow> quiet f (case x of None \<Rightarrow> m | Some a \<Rightarrow> n a)"
  by (cases x) simp_all

text \<open>What follows from an unchanged observation is unchanged too.\<close>

lemma quiet_coarse: "quiet f m \<Longrightarrow> (\<And>s t. f t = f s \<Longrightarrow> g t = g s) \<Longrightarrow> quiet g m"
  unfolding quiet_def by blast

text \<open>The observation is unchanged whether the computation returns or panics.\<close>

definition keeps :: "('s \<Rightarrow> 'o) \<Rightarrow> ('s, 'a) prog \<Rightarrow> bool" where
  "keeps f m \<longleftrightarrow> (\<forall>s. case m s of Inl (e, t) \<Rightarrow> f t = f s | Inr (a, t) \<Rightarrow> f t = f s)"

named_theorems keeps_intros \<open>introduction rules for computations that keep an observation\<close>

lemma keepsD: "keeps f m \<Longrightarrow> m s = Inr (a, t) \<Longrightarrow> f t = f s"
  unfolding keeps_def by (metis (mono_tags, lifting) case_prod_conv sum.simps(6))

lemma keepsD_Inl: "keeps f m \<Longrightarrow> m s = Inl (e, t) \<Longrightarrow> f t = f s"
  unfolding keeps_def by (metis (mono_tags, lifting) case_prod_conv sum.simps(5))

lemma quiet_keeps: "quiet f m \<Longrightarrow> keeps f m"
  unfolding quiet_def keeps_def
  by (metis (mono_tags, lifting) case_prod_conv sum.simps(6))

lemma keeps_coarse:
  assumes "keeps f m" and "\<And>s t. f t = f s \<Longrightarrow> g t = g s"
  shows "keeps g m"
  using assms(1) unfolding keeps_def by (auto split: sum.splits intro: assms(2))

lemma keeps_simple [keeps_intros]:
  "keeps f (return_p a)"
  "keeps f (raise_p e)"
  "keeps f (get_p g)"
  "keeps f (lift_res r)"
  by (simp_all add: keeps_def raise_p_def lift_res_def split: sum.splits)

lemma keeps_modify [keeps_intros]: "(\<And>s. f (g s) = f s) \<Longrightarrow> keeps f (modify_p g)"
  by (simp add: keeps_def)

lemma keeps_bind [keeps_intros]:
  assumes "keeps f m" and "\<And>a. keeps f (g a)"
  shows "keeps f (bind_p m g)"
  unfolding keeps_def
proof
  fix s
  show "case bind_p m g s of Inl (e, t) \<Rightarrow> f t = f s | Inr (a, t) \<Rightarrow> f t = f s"
  proof (cases "m s")
    case (Inl e)
    then show ?thesis using keepsD_Inl[OF assms(1)] by (cases e) simp
  next
    case (Inr r)
    then obtain a t where r: "m s = Inr (a, t)" by (cases r) auto
    have "case g a t of Inl (e, u) \<Rightarrow> f u = f t | Inr (b, u) \<Rightarrow> f u = f t"
      using assms(2)[of a] by (simp add: keeps_def)
    with keepsD[OF assms(1) r] r show ?thesis by (auto split: sum.splits)
  qed
qed

lemma keeps_ignore [keeps_intros]: "keeps f m \<Longrightarrow> keeps f (ignore_p m)"
  by (simp add: ignore_p_def keeps_bind keeps_simple)

lemma keeps_seqs [keeps_intros]: "(\<And>m. m \<in> set ms \<Longrightarrow> keeps f m) \<Longrightarrow> keeps f (seqs ms)"
  by (induction ms) (auto intro: keeps_intros)

lemma keeps_if [keeps_intros]: "(c \<Longrightarrow> keeps f m) \<Longrightarrow> (\<not> c \<Longrightarrow> keeps f n) \<Longrightarrow> keeps f (if c then m else n)"
  by simp

lemma keeps_case_prod [keeps_intros]: "(\<And>a b. keeps f (m a b)) \<Longrightarrow> keeps f (case p of (a, b) \<Rightarrow> m a b)"
  by (cases p) simp

lemma keeps_case_poll [keeps_intros]:
  "(\<And>a. keeps f (m a)) \<Longrightarrow> (\<And>a. keeps f (n a)) \<Longrightarrow> keeps f (case x of Ready a \<Rightarrow> m a | Pending a \<Rightarrow> n a)"
  by (cases x) simp_all

lemma keeps_case_option [keeps_intros]:
  "keeps f m \<Longrightarrow> (\<And>a. keeps f (n a)) \<Longrightarrow> keeps f (case x of None \<Rightarrow> m | Some a \<Rightarrow> n a)"
  by (cases x) simp_all

text \<open>
  A contract with panics: from a state with the invariant \<open>I\<close> a computation returns with the
  invariant and a state related by the guarantee \<open>G\<close>, or stops with one of the faults
  \<open>F\<close>.
\<close>

definition upholds :: "fault set \<Rightarrow> ('s \<Rightarrow> bool) \<Rightarrow> ('s \<Rightarrow> 's \<Rightarrow> bool) \<Rightarrow> ('s, 'a) prog \<Rightarrow> bool" where
  "upholds F I G m \<longleftrightarrow>
     (\<forall>s. I s \<longrightarrow> (case m s of Inl (e, t) \<Rightarrow> e \<in> F | Inr (a, t) \<Rightarrow> I t \<and> G s t))"

named_theorems upholds_intros \<open>introduction rules for contracts\<close>

lemma upholdsI:
  assumes "\<And>s. I s \<Longrightarrow> (\<exists>a t. m s = Inr (a, t) \<and> I t \<and> G s t) \<or> (\<exists>e t. m s = Inl (e, t) \<and> e \<in> F)"
  shows "upholds F I G m"
  unfolding upholds_def
proof (intro allI impI)
  fix s assume "I s"
  from assms[OF this] show "case m s of Inl (e, t) \<Rightarrow> e \<in> F | Inr (a, t) \<Rightarrow> I t \<and> G s t" by auto
qed

lemma upholdsE:
  assumes "upholds F I G m" and "I s"
  obtains (ret) a t where "m s = Inr (a, t)" and "I t" and "G s t"
  | (fault) e t where "m s = Inl (e, t)" and "e \<in> F"
proof -
  from assms have c: "case m s of Inl (e, t) \<Rightarrow> e \<in> F | Inr (a, t) \<Rightarrow> I t \<and> G s t" by (simp add: upholds_def)
  show thesis
  proof (cases "m s")
    case (Inl et)
    then show thesis using c fault by (cases et) auto
  next
    case (Inr at)
    then show thesis using c ret by (cases at) auto
  qed
qed

lemma upholds_faults:
  assumes "upholds F I G m" and "F \<subseteq> F'"
  shows "upholds F' I G m"
proof (rule upholdsI)
  fix s assume "I s"
  with assms(1) show "(\<exists>a t. m s = Inr (a, t) \<and> I t \<and> G s t) \<or> (\<exists>e t. m s = Inl (e, t) \<and> e \<in> F')"
    by (cases rule: upholdsE) (use assms(2) in auto)
qed

lemma upholds_return [upholds_intros]: "reflp G \<Longrightarrow> upholds F I G (return_p a)"
  by (simp add: upholds_def reflp_def)

lemma upholds_get [upholds_intros]: "reflp G \<Longrightarrow> upholds F I G (get_p g)"
  by (simp add: upholds_def reflp_def)

lemma upholds_raise [upholds_intros]: "e \<in> F \<Longrightarrow> upholds F I G (raise_p e)"
  by (simp add: upholds_def raise_p_def)

lemma upholds_lift [upholds_intros]: "reflp G \<Longrightarrow> (\<And>e. r = Inl e \<Longrightarrow> e \<in> F) \<Longrightarrow> upholds F I G (lift_res r)"
  by (cases r) (simp_all add: upholds_def lift_res_def reflp_def)

lemma upholds_quiet:
  assumes "quiet f m" and "\<And>s t. f t = f s \<Longrightarrow> I s \<Longrightarrow> I t \<and> G s t"
  shows "upholds F I G m"
  using assms unfolding quiet_def upholds_def by (metis (mono_tags, lifting) case_prod_conv sum.simps(6))

lemma upholds_bind [upholds_intros]:
  assumes "transp G" and "upholds F I G m" and "\<And>a. upholds F I G (g a)"
  shows "upholds F I G (bind_p m g)"
proof (rule upholdsI)
  fix s assume "I s"
  with assms(2) show "(\<exists>a t. bind_p m g s = Inr (a, t) \<and> I t \<and> G s t) \<or> (\<exists>e t. bind_p m g s = Inl (e, t) \<and> e \<in> F)"
  proof (cases rule: upholdsE)
    case (ret a t)
    from assms(3)[of a] ret(2) show ?thesis
      by (cases rule: upholdsE) (use ret assms(1) in \<open>auto dest: transpD\<close>)
  qed auto
qed

lemma upholds_ignore [upholds_intros]:
  "transp G \<Longrightarrow> reflp G \<Longrightarrow> upholds F I G m \<Longrightarrow> upholds F I G (ignore_p m)"
  unfolding ignore_p_def by (intro upholds_intros)

lemma upholds_seqs [upholds_intros]:
  "transp G \<Longrightarrow> reflp G \<Longrightarrow> (\<And>m. m \<in> set ms \<Longrightarrow> upholds F I G m) \<Longrightarrow> upholds F I G (seqs ms)"
  by (induction ms) (auto intro: upholds_intros)

lemma upholds_if [upholds_intros]:
  "(c \<Longrightarrow> upholds F I G m) \<Longrightarrow> (\<not> c \<Longrightarrow> upholds F I G n) \<Longrightarrow> upholds F I G (if c then m else n)"
  by simp

lemma upholds_case_prod [upholds_intros]:
  "(\<And>a b. upholds F I G (m a b)) \<Longrightarrow> upholds F I G (case p of (a, b) \<Rightarrow> m a b)"
  by (cases p) simp

lemma upholds_case_option [upholds_intros]:
  "upholds F I G m \<Longrightarrow> (\<And>a. upholds F I G (n a)) \<Longrightarrow> upholds F I G (case x of None \<Rightarrow> m | Some a \<Rightarrow> n a)"
  by (cases x) simp_all

lemma upholds_case_poll [upholds_intros]:
  "(\<And>a. upholds F I G (m a)) \<Longrightarrow> (\<And>a. upholds F I G (n a)) \<Longrightarrow>
    upholds F I G (case x of Ready a \<Rightarrow> m a | Pending a \<Rightarrow> n a)"
  by (cases x) simp_all

section \<open>Generic lemmas\<close>

lemma str_simps [simp]:
  "str [] = []"
  "str (c # cs) = of_char c # str cs"
  "length (str cs) = length cs"
  by (simp_all add: str_def)

lemma index_Inr [simp]: "i < length xs \<Longrightarrow> index xs i = Inr (xs ! i)"
  by (simp add: index_def)

lemma set_index_Inr [simp]: "i < length xs \<Longrightarrow> set_index xs i v = Inr (xs[i := v])"
  by (simp add: set_index_def)

lemma sub_slice_Inr [simp]:
  "i \<le> j \<Longrightarrow> j \<le> length xs \<Longrightarrow> sub_slice xs i j = Inr (take (j - i) (drop i xs))"
  by (simp add: sub_slice_def)

lemma unat_div_less: "0 < unat (n :: 'a::len word) \<Longrightarrow> 1 < unat d \<Longrightarrow> unat (n div d) < unat n"
  by (simp add: unat_div_distrib)

lemma ucast_of_nat: "ucast (w :: 'a::len word) = (of_nat (unat w) :: 'b::len word)"
  by simp

lemma neg_range: "- (2 ^ (LENGTH('a) - 1)) \<le> sint (w :: 'a::len word) \<and> sint w < 2 ^ (LENGTH('a) - 1)"
  using sint_ge[of w] sint_lt[of w] by simp

lemma half_le_full: "(2::int) ^ (LENGTH('a::len) - 1) < 2 ^ LENGTH('a)"
  by (rule power_strict_increasing) simp_all

lemma uint_eq_sint: "\<not> neg (w :: 'a::len word) \<Longrightarrow> uint w = sint w"
proof -
  assume "\<not> neg w"
  moreover have "sint w < 2 ^ LENGTH('a)"
    using neg_range[of w] half_le_full[where 'a = 'a] by linarith
  ultimately show ?thesis
    by (simp add: uint_sint take_bit_int_eq_self)
qed

lemma unat_eq_nat_sint: "\<not> neg (w :: 'a::len word) \<Longrightarrow> unat w = nat (sint w)"
  by (simp add: uint_eq_sint flip: nat_uint_eq)

lemma unat_uminus_neg: "neg (w :: 'a::len word) \<Longrightarrow> unat (- w) = nat (- sint w)"
proof -
  assume n: "neg w"
  have "- sint w < 2 ^ LENGTH('a)"
    using neg_range[of w] half_le_full[where 'a = 'a] by linarith
  moreover have "- w = word_of_int (- sint w)" by simp
  ultimately have "uint (- w) = - sint w"
    using n by (metis neg_0_less_iff_less less_imp_le take_bit_int_eq_self uint_word_of_int_eq)
  then show ?thesis by (simp flip: nat_uint_eq)
qed

lemma and_mask_mod: "(w :: 'a::len word) AND mask n = w mod 2 ^ n"
  by (simp add: take_bit_eq_mod flip: take_bit_eq_mask)

lemma unat_of_nat_small: "n < 2 ^ LENGTH('a) \<Longrightarrow> unat (of_nat n :: 'a::len word) = n"
  by (simp add: unat_of_nat)

section \<open>Big-endian byte strings\<close>

text \<open>The value of a byte string read in base 256, most significant byte first.\<close>

definition be_value :: "bytes \<Rightarrow> nat" where
  "be_value bs = foldl (\<lambda>v b. v * 256 + unat b) 0 bs"

text \<open>The big-endian word of four bytes.\<close>

lemma shift_or_value:
  "(push_bit 24 (ucast b0) OR push_bit 16 (ucast b1) OR push_bit 8 (ucast b2) OR ucast b3 :: u32)
    = of_nat (be_value [b0, b1, b2, b3])" for b0 b1 b2 b3 :: u8
proof -
  have d2: "push_bit 8 (ucast b2) AND (ucast b3 :: u32) = 0"
    by (rule bit_word_eqI) (auto simp: bit_simps dest: bit_imp_le_length)
  have d1: "push_bit 16 (ucast b1) AND (push_bit 8 (ucast b2) OR ucast b3 :: u32) = 0"
    by (rule bit_word_eqI) (auto simp: bit_simps dest: bit_imp_le_length)
  have d0: "push_bit 24 (ucast b0) AND
      (push_bit 16 (ucast b1) OR push_bit 8 (ucast b2) OR ucast b3 :: u32) = 0"
    by (rule bit_word_eqI) (auto simp: bit_simps dest: bit_imp_le_length)
  have "push_bit 24 (ucast b0) OR push_bit 16 (ucast b1) OR push_bit 8 (ucast b2) OR (ucast b3 :: u32) =
      push_bit 24 (ucast b0) + (push_bit 16 (ucast b1) + (push_bit 8 (ucast b2) + ucast b3))"
    using d0 d1 d2 by (simp add: disjunctive_add_eq_or)
  also have "\<dots> = of_nat (be_value [b0, b1, b2, b3])"
    by (simp add: be_value_def push_bit_eq_mult algebra_simps)
  finally show ?thesis .
qed

lemma be_value_snoc [simp]: "be_value (bs @ [b]) = be_value bs * 256 + unat b"
  by (simp add: be_value_def)

lemma be_value_Nil [simp]: "be_value [] = 0"
  by (simp add: be_value_def)

lemma be_value_less: "be_value bs < 256 ^ length bs"
proof (induction bs rule: rev_induct)
  case (snoc b bs)
  have "unat b < 256" using unsigned_less[of b, where 'a = nat] by simp
  with snoc show ?case by simp
qed simp

lemma be_value_take: "be_value (take n bs) < 256 ^ n"
proof -
  have "be_value (take n bs) < 256 ^ length (take n bs)" by (rule be_value_less)
  also have "\<dots> \<le> 256 ^ n" by (rule power_increasing) simp_all
  finally show ?thesis .
qed

text \<open>\<open>for i in (0..8).rev() { out.push(((n >> (i * 8)) & 0xff) as u8) }\<close>\<close>

definition push_be64 :: "u64 \<Rightarrow> bytes" where
  "push_be64 n = map (\<lambda>i. ucast (drop_bit (i * 8) n AND 0xff)) (rev [0..<8])"

lemma length_push_be64 [simp]: "length (push_be64 n) = 8"
  by (simp add: push_be64_def)

lemma byte_of_word:
  "unat (ucast (drop_bit k (n :: u64) AND 0xff) :: u8) = unat n div 2 ^ k mod 256"
proof -
  have "drop_bit k n AND 0xff = drop_bit k n mod 256"
    using and_mask_mod[of "drop_bit k n" 8] by (simp add: mask_eq_exp_minus_1)
  then have "unat (ucast (drop_bit k n AND 0xff) :: u8) = unat (drop_bit k n) mod 256"
    by (simp add: unsigned_ucast_eq unat_mod_distrib take_bit_eq_mod)
  also have "unat (drop_bit k n) = unat n div 2 ^ k"
    unfolding unat_drop_bit_eq by (simp add: drop_bit_eq_div)
  finally show ?thesis .
qed

text \<open>The bytes of weight \<open>256 ^ 7\<close> down to \<open>1\<close> make up the word again.\<close>

lemma be_value_digits: "be_value (map (\<lambda>i. of_nat (v div 256 ^ i mod 256)) (rev [0..<k])) = v mod 256 ^ k"
proof (induction k arbitrary: v)
  case (Suc k)
  have up: "rev [0..<Suc k] = map Suc (rev [0..<k]) @ [0]"
    using map_Suc_upt[of 0 k] by (metis rev.simps(2) rev_map upt_conv_Cons zero_less_Suc)
  have "be_value (map (\<lambda>i. of_nat (v div 256 ^ i mod 256)) (rev [0..<Suc k])) =
      be_value (map (\<lambda>i. of_nat (v div 256 div 256 ^ i mod 256)) (rev [0..<k])) * 256 + v mod 256"
    unfolding up by (simp add: comp_def div_mult2_eq unat_of_nat take_bit_eq_mod)
  also have "\<dots> = v mod 256 ^ Suc k"
    by (simp add: Suc.IH mod_mult2_eq add.commute mult.commute)
  finally show ?case .
qed simp

lemma push_be64_digits: "push_be64 n = map (\<lambda>i. of_nat (unat n div 256 ^ i mod 256)) (rev [0..<8])"
proof -
  have "ucast (drop_bit (i * 8) n AND 0xff) = (of_nat (unat n div 256 ^ i mod 256) :: u8)" for i
  proof -
    have "(2::nat) ^ (i * 8) = 256 ^ i" using power_mult[of "2::nat" 8 i] by (simp add: mult.commute)
    then have "unat (ucast (drop_bit (i * 8) n AND 0xff) :: u8) = unat n div 256 ^ i mod 256"
      using byte_of_word[of "i * 8" n] by simp
    then show ?thesis by (metis of_nat_unat ucast_id)
  qed
  then show ?thesis by (simp add: push_be64_def)
qed

lemma be_value_push_be64 [simp]: "be_value (push_be64 n) = unat n"
  using be_value_digits[of "unat n" 8] unsigned_less[of n, where 'a = nat]
  by (simp add: push_be64_digits)

section \<open>Transition systems\<close>

text \<open>
  A system given by its initial states and its steps, and an invariant every step keeps: the
  contract from which safety of all reachable states follows, once for every such system.
\<close>

inductive reachable :: "('s \<Rightarrow> bool) \<Rightarrow> ('s \<Rightarrow> 's \<Rightarrow> bool) \<Rightarrow> 's \<Rightarrow> bool" for init step where
  start: "init s \<Longrightarrow> reachable init step s"
| step: "reachable init step s \<Longrightarrow> step s t \<Longrightarrow> reachable init step t"

locale safe_system =
  fixes init :: "'s \<Rightarrow> bool"
    and step :: "'s \<Rightarrow> 's \<Rightarrow> bool"
    and inv :: "'s \<Rightarrow> bool"
  assumes inv_init: "init s \<Longrightarrow> inv s"
    and inv_step: "inv s \<Longrightarrow> step s t \<Longrightarrow> inv t"
begin

lemma reachable_inv: "reachable init step s \<Longrightarrow> inv s"
  by (induction rule: reachable.induct) (auto intro: inv_init inv_step)

end

end
