(* ===== verification/Syscall.thy ===== *)
theory Syscall
  imports Prelude
begin

text \<open>
  The syscall crate (src/crates/syscall/lib.rs). The Linux kernel is a parameter \<open>K\<close> of
  every definition: given a syscall number, its arguments and the kernel's own state it answers
  with the value of \<open>rax\<close>, what it wrote through the pointer arguments, and its new state.
  A pointer argument is represented by what it points to. The machine state records every call
  with its answer, oldest first, so that theorems can speak of what the program asked for, and
  the words the program stored through raw pointers (\<open>mem\<close>).
\<close>

section \<open>The kernel interface\<close>

record pollfd =
  pf_fd :: i32
  pf_events :: i16
  pf_revents :: i16

datatype sysarg =
    Reg u64
  | PtrBytes bytes
  | PtrBuf nat
  | PtrWords "u64 list"
  | PtrPollFds "pollfd list"
  | PtrNull

datatype sysout =
    OutNone
  | OutBytes bytes
  | OutRevents "i16 list"

record sysevent =
  ev_nr :: u64
  ev_args :: "sysarg list"
  ev_ret :: i64

type_synonym 'w kernel = "u64 \<Rightarrow> sysarg list \<Rightarrow> 'w \<Rightarrow> i64 \<times> sysout \<times> 'w"

record 'w machine =
  kst :: 'w
  calls :: "sysevent list"
  mem :: "u64 \<rightharpoonup> u64"

definition do_syscall ::
    "'w kernel \<Rightarrow> u64 \<Rightarrow> sysarg list \<Rightarrow> (('w, 'z) machine_scheme, i64 \<times> sysout) prog" where
  "do_syscall K n args s =
     (let (r, out, w) = K n args (kst s)
      in Inr ((r, out), s\<lparr>kst := w, calls := calls s @ [\<lparr>ev_nr = n, ev_args = args, ev_ret = r\<rparr>]\<rparr>))"

section \<open>The raw syscalls\<close>

definition syscall1 :: "'w kernel \<Rightarrow> u64 \<Rightarrow> sysarg \<Rightarrow> (('w, 'z) machine_scheme, i64 \<times> sysout) prog" where
  "syscall1 K n a1 = do_syscall K n [a1]"

definition syscall2 ::
    "'w kernel \<Rightarrow> u64 \<Rightarrow> sysarg \<Rightarrow> sysarg \<Rightarrow> (('w, 'z) machine_scheme, i64 \<times> sysout) prog" where
  "syscall2 K n a1 a2 = do_syscall K n [a1, a2]"

definition syscall3 ::
    "'w kernel \<Rightarrow> u64 \<Rightarrow> sysarg \<Rightarrow> sysarg \<Rightarrow> sysarg \<Rightarrow>
      (('w, 'z) machine_scheme, i64 \<times> sysout) prog" where
  "syscall3 K n a1 a2 a3 = do_syscall K n [a1, a2, a3]"

definition syscall4 ::
    "'w kernel \<Rightarrow> u64 \<Rightarrow> sysarg \<Rightarrow> sysarg \<Rightarrow> sysarg \<Rightarrow> sysarg \<Rightarrow>
      (('w, 'z) machine_scheme, i64 \<times> sysout) prog" where
  "syscall4 K n a1 a2 a3 a4 = do_syscall K n [a1, a2, a3, a4]"

definition syscall5 ::
    "'w kernel \<Rightarrow> u64 \<Rightarrow> sysarg \<Rightarrow> sysarg \<Rightarrow> sysarg \<Rightarrow> sysarg \<Rightarrow> sysarg \<Rightarrow>
      (('w, 'z) machine_scheme, i64 \<times> sysout) prog" where
  "syscall5 K n a1 a2 a3 a4 a5 = do_syscall K n [a1, a2, a3, a4, a5]"

definition syscall6 ::
    "'w kernel \<Rightarrow> u64 \<Rightarrow> sysarg \<Rightarrow> sysarg \<Rightarrow> sysarg \<Rightarrow> sysarg \<Rightarrow> sysarg \<Rightarrow> sysarg \<Rightarrow>
      (('w, 'z) machine_scheme, i64 \<times> sysout) prog" where
  "syscall6 K n a1 a2 a3 a4 a5 a6 = do_syscall K n [a1, a2, a3, a4, a5, a6]"

text \<open>Casts of register arguments: an \<open>i32\<close> is sign-extended to 64 bits.\<close>

abbreviation reg_i32 :: "i32 \<Rightarrow> sysarg" where
  "reg_i32 x \<equiv> Reg (scast x)"

abbreviation reg_len :: "nat \<Rightarrow> sysarg" where
  "reg_len n \<equiv> Reg (of_nat n)"

text \<open>The value of a call, without what it wrote.\<close>

definition ret_of :: "('s, i64 \<times> sysout) prog \<Rightarrow> ('s, isize) prog" where
  "ret_of m = bind_p m (\<lambda>(r, _). return_p r)"

text \<open>\<open>if ret < 0 { -1 } else { ret as i32 }\<close>\<close>

definition fd_or_minus1 :: "('s, i64 \<times> sysout) prog \<Rightarrow> ('s, i32) prog" where
  "fd_or_minus1 m = bind_p m (\<lambda>(r, _). return_p (if neg r then -1 else ucast r))"

section \<open>The wrappers\<close>

definition sys_write :: "'w kernel \<Rightarrow> i32 \<Rightarrow> bytes \<Rightarrow> (('w, 'z) machine_scheme, isize) prog" where
  "sys_write K fd buf = ret_of (syscall3 K 1 (reg_i32 fd) (PtrBytes buf) (reg_len (length buf)))"

text \<open>What a call wrote into a buffer of the program; the kernel never writes past its end.\<close>

definition fill_buf :: "bytes \<Rightarrow> sysout \<Rightarrow> bytes" where
  "fill_buf buf out =
     (case out of OutBytes bs \<Rightarrow> take (length buf) (bs @ drop (length bs) buf) | _ \<Rightarrow> buf)"

definition sys_read :: "'w kernel \<Rightarrow> i32 \<Rightarrow> bytes \<Rightarrow> (('w, 'z) machine_scheme, isize \<times> bytes) prog" where
  "sys_read K fd buf =
     bind_p (syscall3 K 0 (reg_i32 fd) (PtrBuf (length buf)) (reg_len (length buf)))
       (\<lambda>(r, out). return_p (r, fill_buf buf out))"

definition sys_exit :: "'w kernel \<Rightarrow> i32 \<Rightarrow> (('w, 'z) machine_scheme, 'a) prog" where
  "sys_exit K code = bind_p (syscall1 K 60 (reg_i32 code)) (\<lambda>_. raise_p (Exited code))"

text \<open>\<open>mmap\<close> returns a pointer; the null pointer (address 0) stands for failure.\<close>

definition mmap :: "'w kernel \<Rightarrow> usize \<Rightarrow> usize \<Rightarrow> i32 \<Rightarrow> i32 \<Rightarrow> (('w, 'z) machine_scheme, usize) prog" where
  "mmap K addr len prot flags =
     bind_p (syscall6 K 9 (Reg addr) (Reg len) (reg_i32 prot) (reg_i32 flags) (Reg (NOT 0)) (Reg 0))
       (\<lambda>(ret, _). return_p (if neg ret then 0 else ret))"

definition eventfd_call :: "'w kernel \<Rightarrow> u32 \<Rightarrow> i32 \<Rightarrow> (('w, 'z) machine_scheme, i32) prog" where
  "eventfd_call K initval flags = fd_or_minus1 (syscall2 K 290 (Reg (ucast initval)) (reg_i32 flags))"

definition close :: "'w kernel \<Rightarrow> i32 \<Rightarrow> (('w, 'z) machine_scheme, i32) prog" where
  "close K fd = fd_or_minus1 (syscall1 K 3 (reg_i32 fd))"

definition ppoll :: "'w kernel \<Rightarrow> pollfd list \<Rightarrow> (('w, 'z) machine_scheme, isize \<times> pollfd list) prog" where
  "ppoll K fds =
     bind_p (syscall5 K 271 (PtrPollFds fds) (reg_len (length fds)) (Reg 0) (Reg 0) (Reg 0))
       (\<lambda>(r, out). return_p (r,
          case out of
            OutRevents evs \<Rightarrow> map2 (\<lambda>f e. f\<lparr>pf_revents := e\<rparr>) fds evs @ drop (length evs) fds
          | _ \<Rightarrow> fds))"

text \<open>\<open>/\<close> and \<open>%\<close> on \<open>i64\<close> truncate towards zero.\<close>

definition trunc_div :: "i64 \<Rightarrow> i64 \<Rightarrow> i64" where
  "trunc_div a b = word_of_int (sgn (sint a) * sgn (sint b) * (\<bar>sint a\<bar> div \<bar>sint b\<bar>))"

definition trunc_rem :: "i64 \<Rightarrow> i64 \<Rightarrow> i64" where
  "trunc_rem a b = a - trunc_div a b * b"

definition ppoll_timeout ::
    "'w kernel \<Rightarrow> pollfd list \<Rightarrow> i64 \<Rightarrow> (('w, 'z) machine_scheme, isize \<times> pollfd list) prog" where
  "ppoll_timeout K fds timeout_ms =
     (let ts = [trunc_div timeout_ms 1000, trunc_rem timeout_ms 1000 * 1000000]
      in bind_p (syscall5 K 271 (PtrPollFds fds) (reg_len (length fds)) (PtrWords ts) (Reg 0) (Reg 0))
       (\<lambda>(r, out). return_p (r,
          case out of
            OutRevents evs \<Rightarrow> map2 (\<lambda>f e. f\<lparr>pf_revents := e\<rparr>) fds evs @ drop (length evs) fds
          | _ \<Rightarrow> fds)))"

definition fcntl :: "'w kernel \<Rightarrow> i32 \<Rightarrow> i32 \<Rightarrow> usize \<Rightarrow> (('w, 'z) machine_scheme, isize) prog" where
  "fcntl K fd cmd arg = ret_of (syscall3 K 72 (reg_i32 fd) (reg_i32 cmd) (Reg arg))"

definition F_GETFL :: i32 where "F_GETFL = 3"
definition F_SETFL :: i32 where "F_SETFL = 4"
definition O_NONBLOCK :: usize where "O_NONBLOCK = 0x800"
definition O_WRONLY :: i32 where "O_WRONLY = 0x1"
definition O_CREAT :: i32 where "O_CREAT = 0x40"
definition O_TRUNC :: i32 where "O_TRUNC = 0x200"

definition open_file :: "'w kernel \<Rightarrow> bytes \<Rightarrow> i32 \<Rightarrow> u32 \<Rightarrow> (('w, 'z) machine_scheme, i32) prog" where
  "open_file K path flags mode =
     fd_or_minus1 (syscall3 K 2 (PtrBytes path) (reg_i32 flags) (Reg (ucast mode)))"

definition socket :: "'w kernel \<Rightarrow> i32 \<Rightarrow> i32 \<Rightarrow> i32 \<Rightarrow> (('w, 'z) machine_scheme, i32) prog" where
  "socket K domain ty protocol =
     fd_or_minus1 (syscall3 K 41 (reg_i32 domain) (reg_i32 ty) (reg_i32 protocol))"

definition setsockopt :: "'w kernel \<Rightarrow> i32 \<Rightarrow> i32 \<Rightarrow> i32 \<Rightarrow> bytes \<Rightarrow> nat \<Rightarrow> (('w, 'z) machine_scheme, i32) prog" where
  "setsockopt K fd level optname optval optlen =
     bind_p (syscall5 K 54 (reg_i32 fd) (reg_i32 level) (reg_i32 optname) (PtrBytes optval) (reg_len optlen))
       (\<lambda>(r, _). return_p (ucast r))"

definition SOL_SOCKET :: i32 where "SOL_SOCKET = 1"
definition SO_REUSEADDR :: i32 where "SO_REUSEADDR = 2"
definition SO_REUSEPORT :: i32 where "SO_REUSEPORT = 15"

definition bind_call :: "'w kernel \<Rightarrow> i32 \<Rightarrow> bytes \<Rightarrow> nat \<Rightarrow> (('w, 'z) machine_scheme, isize) prog" where
  "bind_call K fd addr addrlen = ret_of (syscall3 K 49 (reg_i32 fd) (PtrBytes addr) (reg_len addrlen))"

definition listen :: "'w kernel \<Rightarrow> i32 \<Rightarrow> i32 \<Rightarrow> (('w, 'z) machine_scheme, isize) prog" where
  "listen K fd backlog = ret_of (syscall2 K 50 (reg_i32 fd) (reg_i32 backlog))"

definition accept4 :: "'w kernel \<Rightarrow> i32 \<Rightarrow> nat \<Rightarrow> usize \<Rightarrow> i32 \<Rightarrow> (('w, 'z) machine_scheme, isize) prog" where
  "accept4 K fd addr addrlen flags =
     ret_of (syscall4 K 288 (reg_i32 fd) (PtrBuf addr) (PtrWords [addrlen]) (reg_i32 flags))"

definition connect :: "'w kernel \<Rightarrow> i32 \<Rightarrow> bytes \<Rightarrow> nat \<Rightarrow> (('w, 'z) machine_scheme, isize) prog" where
  "connect K fd addr addrlen = ret_of (syscall3 K 42 (reg_i32 fd) (PtrBytes addr) (reg_len addrlen))"

definition sendto ::
    "'w kernel \<Rightarrow> i32 \<Rightarrow> bytes \<Rightarrow> i32 \<Rightarrow> sysarg \<Rightarrow> usize \<Rightarrow> (('w, 'z) machine_scheme, isize) prog" where
  "sendto K fd buf flags dest addrlen =
     ret_of (syscall6 K 44 (reg_i32 fd) (PtrBytes buf) (reg_len (length buf)) (reg_i32 flags) dest
       (Reg addrlen))"

definition recvfrom ::
    "'w kernel \<Rightarrow> i32 \<Rightarrow> bytes \<Rightarrow> i32 \<Rightarrow> sysarg \<Rightarrow> sysarg \<Rightarrow>
      (('w, 'z) machine_scheme, isize \<times> bytes) prog" where
  "recvfrom K fd buf flags src addrlen =
     bind_p (syscall6 K 45 (reg_i32 fd) (PtrBuf (length buf)) (reg_len (length buf)) (reg_i32 flags)
         src addrlen)
       (\<lambda>(r, out). return_p (r, fill_buf buf out))"

definition getsockname :: "'w kernel \<Rightarrow> i32 \<Rightarrow> nat \<Rightarrow> usize \<Rightarrow> (('w, 'z) machine_scheme, isize) prog" where
  "getsockname K fd addr addrlen = ret_of (syscall3 K 51 (reg_i32 fd) (PtrBuf addr) (PtrWords [addrlen]))"

definition getpeername :: "'w kernel \<Rightarrow> i32 \<Rightarrow> nat \<Rightarrow> usize \<Rightarrow> (('w, 'z) machine_scheme, isize) prog" where
  "getpeername K fd addr addrlen = ret_of (syscall3 K 52 (reg_i32 fd) (PtrBuf addr) (PtrWords [addrlen]))"

text \<open>\<open>to_be\<close> and \<open>from_be\<close> on a little-endian machine swap the two bytes.\<close>

definition htons :: "u16 \<Rightarrow> u16" where
  "htons x = push_bit 8 x OR drop_bit 8 x"

definition ntohs :: "u16 \<Rightarrow> u16" where
  "ntohs x = push_bit 8 x OR drop_bit 8 x"

definition clone ::
    "'w kernel \<Rightarrow> u64 \<Rightarrow> u64 \<Rightarrow> sysarg \<Rightarrow> sysarg \<Rightarrow> u64 \<Rightarrow> (('w, 'z) machine_scheme, isize) prog" where
  "clone K flags stack ptid ctid tls =
     ret_of (syscall5 K 56 (Reg flags) (Reg stack) ptid ctid (Reg tls))"

definition waitpid :: "'w kernel \<Rightarrow> i32 \<Rightarrow> sysarg \<Rightarrow> i32 \<Rightarrow> (('w, 'z) machine_scheme, isize) prog" where
  "waitpid K pid status options = ret_of (syscall3 K 61 (reg_i32 pid) status (reg_i32 options))"

definition rt_sigaction :: "'w kernel \<Rightarrow> i32 \<Rightarrow> u64 list \<Rightarrow> usize \<Rightarrow> (('w, 'z) machine_scheme, isize) prog" where
  "rt_sigaction K signum act sigsetsize =
     ret_of (syscall4 K 13 (reg_i32 signum) (PtrWords act) PtrNull (Reg sigsetsize))"

definition nanosleep :: "'w kernel \<Rightarrow> u64 \<Rightarrow> (('w, 'z) machine_scheme, isize) prog" where
  "nanosleep K seconds = ret_of (syscall2 K 35 (PtrWords [seconds, 0]) (Reg 0))"

definition nanosleep_ns :: "'w kernel \<Rightarrow> u64 \<Rightarrow> (('w, 'z) machine_scheme, isize) prog" where
  "nanosleep_ns K nanos =
     (let sec = nanos div 1000000000; nsec = nanos mod 1000000000
      in ret_of (syscall2 K 35 (PtrWords [sec, nsec]) (Reg 0)))"

section \<open>Threads\<close>

text \<open>
  \<open>spawn_thread\<close> maps a stack and a TLS block, stores the block's address into its own
  first word and clones. The child is the branch in which \<open>clone\<close> returned 0: it runs
  \<open>f\<close> and exits, and never returns to the caller.
\<close>

definition spawn_thread ::
    "'w kernel \<Rightarrow> (('w, 'z) machine_scheme, unit) prog \<Rightarrow> usize \<Rightarrow>
      (('w, 'z) machine_scheme, i32 + unit) prog" where
  "spawn_thread K f stack_size =
     bind_p (mmap K 0 stack_size 3 0x22) (\<lambda>stack.
     if stack = 0 then return_p (Inl (-1))
     else bind_p (mmap K 0 4096 3 0x22) (\<lambda>tls.
     if tls = 0 then return_p (Inl (-1))
     else bind_p (modify_p (\<lambda>s. s\<lparr>mem := (mem s)(tls \<mapsto> tls)\<rparr>)) (\<lambda>_.
     bind_p (clone K (0x100 OR 0x200 OR 0x400 OR 0x800 OR 0x10000 OR 0x80000) (stack + stack_size)
               PtrNull PtrNull tls) (\<lambda>ret.
     bind_p (if ret = 0 then bind_p f (\<lambda>_. sys_exit K 0) else return_p ()) (\<lambda>_.
     return_p (if neg ret then Inl (ucast ret) else Inr ()))))))"

section \<open>Frames\<close>

text \<open>
  A system call never panics and changes nothing but the kernel's state and the recorded calls.
\<close>

abbreviation beyond_kernel :: "('w, 'z) machine_scheme \<Rightarrow> (u64 \<rightharpoonup> u64) \<times> 'z" where
  "beyond_kernel s \<equiv> (mem s, machine.more s)"

lemma quiet_do_syscall [quiet_intros]: "quiet beyond_kernel (do_syscall K n args)"
  by (simp add: quiet_def do_syscall_def split: prod.splits)

lemmas raw_syscalls = syscall1_def syscall2_def syscall3_def syscall4_def syscall5_def syscall6_def

lemma quiet_syscalls [quiet_intros]:
  "quiet beyond_kernel (sys_write K fd buf)"
  "quiet beyond_kernel (sys_read K fd buf)"
  "quiet beyond_kernel (mmap K addr len prot flags)"
  "quiet beyond_kernel (eventfd_call K initval iflags)"
  "quiet beyond_kernel (close K fd)"
  "quiet beyond_kernel (ppoll K fds)"
  "quiet beyond_kernel (ppoll_timeout K fds timeout)"
  "quiet beyond_kernel (fcntl K fd cmd arg)"
  "quiet beyond_kernel (open_file K path flags mode)"
  "quiet beyond_kernel (socket K domain ty protocol)"
  "quiet beyond_kernel (setsockopt K fd level optname optval optlen)"
  "quiet beyond_kernel (bind_call K fd saddr salen)"
  "quiet beyond_kernel (listen K fd backlog)"
  "quiet beyond_kernel (accept4 K fd cap caplen flags)"
  "quiet beyond_kernel (connect K fd saddr salen)"
  "quiet beyond_kernel (sendto K fd buf flags dest destlen)"
  "quiet beyond_kernel (recvfrom K fd buf flags src srclen)"
  "quiet beyond_kernel (waitpid K pid status options)"
  "quiet beyond_kernel (rt_sigaction K signum act sigsetsize)"
  "quiet beyond_kernel (nanosleep_ns K nanos)"
  unfolding sys_write_def sys_read_def mmap_def eventfd_call_def close_def ppoll_def ppoll_timeout_def
    fcntl_def open_file_def socket_def setsockopt_def bind_call_def listen_def accept4_def connect_def
    sendto_def recvfrom_def waitpid_def rt_sigaction_def nanosleep_ns_def ret_of_def fd_or_minus1_def
    raw_syscalls Let_def
  by (intro quiet_intros)+

end
