(* ===== verification/Allocator.thy ===== *)
theory Allocator
  imports Syscall
begin

text \<open>
  The bump allocator of the runtime crate (src/crates/runtime/allocator.rs). The statics
  \<open>HEAP_START\<close>, \<open>HEAP_CUR\<close> and \<open>HEAP_END\<close> are fields of the machine state;
  one attempt of the compare-and-swap loop is \<open>bump\<close>, used by the sequential
  \<open>alloc\<close> and by the step relation in which any number of threads allocate at once.
\<close>

section \<open>The code\<close>

definition HEAP_SIZE :: usize where
  "HEAP_SIZE = 16 * 1024 * 1024"

record 'w heap_machine = "'w machine" +
  heap_start :: usize
  heap_cur :: usize
  heap_end :: usize

record layout =
  l_size :: usize
  l_align :: usize

text \<open>
  What \<open>core::alloc::Layout\<close> guarantees: the alignment is a power of two and the size,
  rounded up to it, does not exceed \<open>isize::MAX\<close>.
\<close>

definition layout_ok :: "layout \<Rightarrow> bool" where
  "layout_ok l \<longleftrightarrow> unat (l_align l) \<in> set (map (\<lambda>k. 2 ^ k) [0..<63]) \<and>
     unat (l_size l) + unat (l_align l) \<le> 2 ^ 63"

definition bump :: "usize \<Rightarrow> usize \<Rightarrow> layout \<Rightarrow> (usize \<times> usize) option" where
  "bump cur hend l =
     (let align = max (l_align l) 1;
          aligned = (cur + align - 1) AND NOT (align - 1)
      in if 2 ^ 64 \<le> unat aligned + unat (l_size l) then None
         else let nxt = aligned + l_size l
              in if hend < nxt then None else Some (aligned, nxt))"

definition init_heap :: "'w kernel \<Rightarrow> (('w, 'z) heap_machine_scheme, unit) prog" where
  "init_heap K =
     bind_p (get_p heap_start) (\<lambda>start.
     if start = 0
     then bind_p (mmap K 0 HEAP_SIZE 3 0x22) (\<lambda>ptr.
          if ptr \<noteq> 0
          then modify_p (\<lambda>s. s\<lparr>heap_start := ptr, heap_cur := ptr, heap_end := ptr + HEAP_SIZE\<rparr>)
          else return_p ())
     else return_p ())"

text \<open>Without interference the first compare-and-swap succeeds. The null pointer is 0.\<close>

definition alloc :: "'w kernel \<Rightarrow> layout \<Rightarrow> (('w, 'z) heap_machine_scheme, usize) prog" where
  "alloc K l =
     bind_p (init_heap K) (\<lambda>_.
     if l_size l = 0 then return_p (max (l_align l) 1)
     else bind_p (get_p heap_cur) (\<lambda>cur.
          bind_p (get_p heap_end) (\<lambda>hend.
          case bump cur hend l of
            None \<Rightarrow> return_p 0
          | Some (aligned, nxt) \<Rightarrow>
              bind_p (modify_p (\<lambda>s. s\<lparr>heap_cur := nxt\<rparr>)) (\<lambda>_. return_p aligned))))"

definition dealloc :: "usize \<Rightarrow> layout \<Rightarrow> (('w, 'z) heap_machine_scheme, unit) prog" where
  "dealloc ptr l = return_p ()"

section \<open>Concurrent allocation\<close>

text \<open>
  Each thread is outside \<open>alloc\<close>, about to load \<open>HEAP_CUR\<close>, has loaded it, or is at
  its compare-and-swap. Every step is one atomic access; the blocks handed out are recorded.
\<close>

datatype alloc_pc =
    Idle
  | Load_Cur layout
  | Load_End layout usize
  | Cas layout usize usize usize

record alloc_sys =
  a_cur :: usize
  a_end :: usize
  a_pcs :: "nat \<Rightarrow> alloc_pc"
  a_blocks :: "(usize \<times> layout) list"

inductive alloc_step :: "alloc_sys \<Rightarrow> alloc_sys \<Rightarrow> bool" where
  call: "a_pcs s t = Idle \<Longrightarrow> layout_ok l \<Longrightarrow> l_size l \<noteq> 0 \<Longrightarrow>
    alloc_step s (s\<lparr>a_pcs := (a_pcs s)(t := Load_Cur l)\<rparr>)"
| load_cur: "a_pcs s t = Load_Cur l \<Longrightarrow>
    alloc_step s (s\<lparr>a_pcs := (a_pcs s)(t := Load_End l (a_cur s))\<rparr>)"
| fail: "a_pcs s t = Load_End l cur \<Longrightarrow> bump cur (a_end s) l = None \<Longrightarrow>
    alloc_step s (s\<lparr>a_pcs := (a_pcs s)(t := Idle)\<rparr>)"
| compute: "a_pcs s t = Load_End l cur \<Longrightarrow> bump cur (a_end s) l = Some (aligned, nxt) \<Longrightarrow>
    alloc_step s (s\<lparr>a_pcs := (a_pcs s)(t := Cas l cur aligned nxt)\<rparr>)"
| cas_ok: "a_pcs s t = Cas l cur aligned nxt \<Longrightarrow> a_cur s = cur \<Longrightarrow>
    alloc_step s (s\<lparr>a_cur := nxt, a_pcs := (a_pcs s)(t := Idle),
      a_blocks := (aligned, l) # a_blocks s\<rparr>)"
| cas_fail: "a_pcs s t = Cas l cur aligned nxt \<Longrightarrow> a_cur s \<noteq> cur \<Longrightarrow>
    alloc_step s (s\<lparr>a_pcs := (a_pcs s)(t := Load_Cur l)\<rparr>)"

text \<open>The heap was mapped at \<open>base\<close> before the threads start.\<close>

definition alloc_init :: "usize \<Rightarrow> alloc_sys \<Rightarrow> bool" where
  "alloc_init base s \<longleftrightarrow>
     s = \<lparr>a_cur = base, a_end = base + HEAP_SIZE, a_pcs = (\<lambda>_. Idle), a_blocks = []\<rparr> \<and>
     unat base + unat HEAP_SIZE < 2 ^ 63"

section \<open>Alignment\<close>

lemma and_not_mask: "w AND NOT (mask k) = push_bit k (drop_bit k (w :: 'a::len word))"
  by (rule bit_word_eqI) (auto simp: bit_simps)

lemma unat_and_not_mask: "unat (w AND NOT (mask k) :: 'a::len word) = unat w div 2 ^ k * 2 ^ k"
proof -
  have lt: "unat w div 2 ^ k * 2 ^ k < 2 ^ LENGTH('a)"
    using unsigned_less[of w, where 'a = nat] le_less_trans[OF div_times_less_eq_dividend] by blast
  have "unat (push_bit k (drop_bit k w)) = take_bit LENGTH('a) (push_bit k (drop_bit k (unat w)))"
    by (simp add: unsigned_push_bit_eq unat_drop_bit_eq)
  also have "\<dots> = unat w div 2 ^ k * 2 ^ k"
    using lt by (simp add: push_bit_eq_mult drop_bit_eq_div take_bit_nat_eq_self)
  finally show ?thesis by (simp add: and_not_mask)
qed

lemma layout_alignE:
  assumes "layout_ok l"
  obtains k where "k < 63" and "l_align l = 2 ^ k" and "unat (l_align l) = 2 ^ k" and "max (l_align l) 1 = l_align l"
proof -
  from assms obtain k where k: "k < 63" "unat (l_align l) = 2 ^ k"
    by (auto simp: layout_ok_def)
  then have "l_align l = 2 ^ k"
    by (metis of_nat_numeral of_nat_power of_nat_unat ucast_id)
  moreover have "max (l_align l) 1 = l_align l"
    using k by (intro max_absorb1) (simp add: word_le_nat_alt)
  ultimately show thesis using k that by blast
qed

text \<open>One attempt: the block is aligned, starts at or above the loaded cursor and ends below the heap's end.\<close>

lemma bump_Some:
  assumes ok: "layout_ok l" and cur: "unat cur < 2 ^ 63" and b: "bump cur hend l = Some (aligned, nxt)"
  shows "unat cur \<le> unat aligned" and "unat aligned < unat cur + unat (l_align l)"
    and "unat (l_align l) dvd unat aligned" and "unat nxt = unat aligned + unat (l_size l)"
    and "unat nxt \<le> unat hend"
proof -
  from ok obtain k where k: "k < 63" "l_align l = 2 ^ k" "unat (l_align l) = 2 ^ k"
    and m: "max (l_align l) 1 = l_align l" by (rule layout_alignE)
  let ?a = "2 ^ k :: nat"
  have a: "?a \<le> 2 ^ 62" using k(1) by (intro power_increasing) auto
  have mask: "l_align l - 1 = mask k" by (simp add: k(2) mask_eq_exp_minus_1)
  have "unat (cur + l_align l - 1) = unat cur + ?a - 1"
  proof -
    have one: "unat (l_align l - 1) = ?a - 1"
      using k(3) unat_minus_one[of "l_align l"] by (metis power_not_zero unat_0 zero_neq_numeral)
    moreover have "unat (cur + (l_align l - 1)) = unat cur + unat (l_align l - 1)"
      using cur a by (intro unat_add_lem[THEN iffD1]) (simp add: one)
    ultimately show ?thesis by (simp add: add_diff_eq)
  qed
  moreover from b m have al: "aligned = (cur + l_align l - 1) AND NOT (l_align l - 1)"
    and nn: "nxt = aligned + l_size l" "unat aligned + unat (l_size l) < 2 ^ 64" "nxt \<le> hend"
    by (auto simp: bump_def Let_def split: if_splits)
  ultimately have u: "unat aligned = (unat cur + ?a - 1) div ?a * ?a"
    by (simp add: mask unat_and_not_mask)
  have "(unat cur + ?a - 1) div ?a * ?a + (unat cur + ?a - 1) mod ?a = unat cur + ?a - 1"
    by (rule div_mult_mod_eq)
  moreover have "(unat cur + ?a - 1) mod ?a < ?a" by simp
  ultimately show "unat cur \<le> unat aligned" "unat aligned < unat cur + unat (l_align l)"
    using k(3) u by linarith+
  show "unat (l_align l) dvd unat aligned" by (simp add: u k(3))
  show "unat nxt = unat aligned + unat (l_size l)"
    using nn(1,2) by (simp add: unat_add_lem[THEN iffD1])
  show "unat nxt \<le> unat hend" using nn(3) by (simp add: word_le_nat_alt)
qed

section \<open>Sequential correctness\<close>

text \<open>
  What the code relies on of \<open>mmap\<close>: a mapping lies in the user half of the address space.
\<close>

definition mmap_ok :: "'w kernel \<Rightarrow> bool" where
  "mmap_ok K \<longleftrightarrow> (\<forall>a len rest w. \<not> neg (fst (K 9 (Reg a # Reg len # rest) w)) \<longrightarrow>
     unat (fst (K 9 (Reg a # Reg len # rest) w)) + unat len < 2 ^ 63)"

definition heap_ok :: "('w, 'z) heap_machine_scheme \<Rightarrow> bool" where
  "heap_ok s \<longleftrightarrow>
     (if heap_start s = 0 then heap_cur s = 0 \<and> heap_end s = 0
      else unat (heap_start s) \<le> unat (heap_cur s) \<and> unat (heap_cur s) \<le> unat (heap_end s) \<and>
           unat (heap_end s) = unat (heap_start s) + unat HEAP_SIZE \<and> unat (heap_end s) < 2 ^ 63)"

lemma unat_HEAP_SIZE: "unat HEAP_SIZE = 2 ^ 24"
  by (simp add: HEAP_SIZE_def)

lemma mmap_apply:
  obtains r out w where "K 9 [Reg a, Reg len, reg_i32 prot, reg_i32 flags, Reg (NOT 0), Reg 0] (kst s) = (r, out, w)"
    and "mmap K a len prot flags s = Inr (if neg r then 0 else r,
      s\<lparr>kst := w, calls := calls s @ [\<lparr>ev_nr = 9, ev_args = [Reg a, Reg len, reg_i32 prot, reg_i32 flags,
        Reg (NOT 0), Reg 0], ev_ret = r\<rparr>]\<rparr>)"
  by (cases "K 9 [Reg a, Reg len, reg_i32 prot, reg_i32 flags, Reg (NOT 0), Reg 0] (kst s)")
    (auto simp: mmap_def syscall6_def do_syscall_def bind_p_def)

lemma init_heap_ok:
  assumes "heap_ok s" and "mmap_ok K"
  obtains t where "init_heap K s = Inr ((), t)" and "heap_ok t"
    and "unat (heap_cur s) \<le> unat (heap_cur t)"
    and "heap_machine.more t = heap_machine.more s" and "mem t = mem s"
proof (cases "heap_start s = 0")
  case False
  then show thesis using assms(1) that[of s] by (simp add: init_heap_def)
next
  case True
  obtain r out w where K: "K 9 [Reg 0, Reg HEAP_SIZE, reg_i32 3, reg_i32 0x22, Reg (NOT 0), Reg 0] (kst s) = (r, out, w)"
    and m: "mmap K 0 HEAP_SIZE 3 0x22 s = Inr (if neg r then 0 else r,
      s\<lparr>kst := w, calls := calls s @ [\<lparr>ev_nr = 9, ev_args = [Reg 0, Reg HEAP_SIZE, reg_i32 3, reg_i32 0x22,
        Reg (NOT 0), Reg 0], ev_ret = r\<rparr>]\<rparr>)"
    by (rule mmap_apply)
  have fit: "unat r + unat HEAP_SIZE < 2 ^ 63" if "\<not> neg r"
    using assms(2) that K unfolding mmap_ok_def by (metis fst_conv)
  have plus: "unat (r + HEAP_SIZE) = unat r + unat HEAP_SIZE" if "\<not> neg r"
    using fit[OF that] by (intro unat_add_lem[THEN iffD1]) simp
  have "heap_cur s = 0" using assms(1) True by (simp add: heap_ok_def)
  then show thesis
    using True assms(1) m fit plus unat_HEAP_SIZE
    by (cases "neg r \<or> r = 0") (auto intro!: that simp: init_heap_def heap_ok_def)
qed

text \<open>The contract of \<open>GlobalAlloc::alloc\<close> for one call.\<close>

lemma alloc_spec:
  assumes "heap_ok s" and "mmap_ok K" and "layout_ok l" and "l_size l \<noteq> 0"
  obtains p t where "alloc K l s = Inr (p, t)" and "heap_ok t"
    and "heap_machine.more t = heap_machine.more s" and "mem t = mem s"
    and "unat (heap_cur s) \<le> unat (heap_cur t)"
    and "p = 0 \<or> unat (heap_cur s) \<le> unat p \<and> unat (l_align l) dvd unat p \<and>
          unat p + unat (l_size l) = unat (heap_cur t) \<and> unat (heap_cur t) \<le> unat (heap_end t)"
proof -
  obtain u where u: "init_heap K s = Inr ((), u)" "heap_ok u" "unat (heap_cur s) \<le> unat (heap_cur u)"
    "heap_machine.more u = heap_machine.more s" "mem u = mem s"
    using assms(1,2) by (rule init_heap_ok)
  have cur: "unat (heap_cur u) < 2 ^ 63"
    using u(2) by (auto simp: heap_ok_def split: if_splits)
  show thesis
  proof (cases "bump (heap_cur u) (heap_end u) l")
    case None
    then show thesis using u assms(4) by (intro that[of 0 u]) (simp_all add: alloc_def)
  next
    case (Some r)
    then obtain aligned nxt where b: "bump (heap_cur u) (heap_end u) l = Some (aligned, nxt)"
      by (cases r) auto
    note f = bump_Some[OF assms(3) cur b]
    have "0 < unat (l_size l)" using assms(4) by (simp add: unat_gt_0)
    then have init: "heap_start u \<noteq> 0"
      using f u(2) by (auto simp: heap_ok_def)
    let ?t = "u\<lparr>heap_cur := nxt\<rparr>"
    have ok: "heap_ok ?t" using u(2) f init by (auto simp: heap_ok_def)
    show thesis
      using u b f ok assms(4) by (intro that[of aligned ?t]) (simp_all add: alloc_def)
  qed
qed

section \<open>Concurrent correctness\<close>

text \<open>
  Blocks lie between the base and the cursor, one above the other; a thread at its
  compare-and-swap holds a block computed from the cursor value it loaded.
\<close>

definition block_size :: "usize \<times> layout \<Rightarrow> nat" where
  "block_size b = unat (l_size (snd b))"

definition pc_ok :: "alloc_sys \<Rightarrow> alloc_pc \<Rightarrow> bool" where
  "pc_ok s pc =
     (case pc of
        Idle \<Rightarrow> True
      | Load_Cur l \<Rightarrow> layout_ok l \<and> l_size l \<noteq> 0
      | Load_End l cur \<Rightarrow> layout_ok l \<and> l_size l \<noteq> 0 \<and> unat cur \<le> unat (a_end s)
      | Cas l cur aligned nxt \<Rightarrow> layout_ok l \<and> l_size l \<noteq> 0 \<and> unat cur \<le> unat (a_end s) \<and>
          bump cur (a_end s) l = Some (aligned, nxt))"

definition alloc_inv :: "usize \<Rightarrow> alloc_sys \<Rightarrow> bool" where
  "alloc_inv base s \<longleftrightarrow>
     unat (a_end s) = unat base + unat HEAP_SIZE \<and> unat (a_end s) < 2 ^ 63 \<and>
     unat base \<le> unat (a_cur s) \<and> unat (a_cur s) \<le> unat (a_end s) \<and>
     (\<forall>t. pc_ok s (a_pcs s t)) \<and>
     (\<forall>b \<in> set (a_blocks s). unat base \<le> unat (fst b) \<and> unat (fst b) + block_size b \<le> unat (a_cur s) \<and>
        unat (l_align (snd b)) dvd unat (fst b) \<and> 0 < block_size b) \<and>
     sorted_wrt (\<lambda>b c. unat (fst c) + block_size c \<le> unat (fst b)) (a_blocks s) \<and>
     sum_list (map block_size (a_blocks s)) \<le> unat (a_cur s) - unat base"

lemma alloc_inv_step:
  assumes "alloc_inv base s" and "alloc_step s t"
  shows "alloc_inv base t"
  using assms(2,1)
proof (cases rule: alloc_step.cases)
  case (cas_ok t l cur aligned nxt)
  have "pc_ok s (a_pcs s t)" using assms(1) by (simp add: alloc_inv_def)
  with cas_ok have pc: "layout_ok l" "l_size l \<noteq> 0" "unat cur \<le> unat (a_end s)"
    "bump cur (a_end s) l = Some (aligned, nxt)"
    by (simp_all add: pc_ok_def)
  have "unat cur < 2 ^ 63" using pc(3) assms(1) by (simp add: alloc_inv_def)
  note f = bump_Some[OF pc(1) this pc(4)]
  have "0 < unat (l_size l)" using pc(2) by (simp add: unat_gt_0)
  with f cas_ok assms(1) show ?thesis
    by (auto simp: alloc_inv_def pc_ok_def block_size_def split: alloc_pc.splits)
qed (auto simp: alloc_inv_def pc_ok_def split: alloc_pc.splits)

interpretation heap_threads: safe_system "alloc_init base" alloc_step "alloc_inv base" for base
proof
  fix s assume "alloc_init base s"
  then show "alloc_inv base s"
    by (auto simp: alloc_init_def alloc_inv_def pc_ok_def unat_add_lem[THEN iffD1])
qed (rule alloc_inv_step)

section \<open>Properties\<close>

text \<open>
  A kernel for concrete runs: small mappings succeed at one address, everything else is refused
  with \<open>-ENOMEM\<close>.
\<close>

definition one_map_kernel :: "u64 \<Rightarrow> unit kernel" where
  "one_map_kernel base nr args w =
     (case args of
        Reg _ # Reg len # _ \<Rightarrow> (if nr = 9 \<and> len \<le> HEAP_SIZE then base else -12, OutNone, w)
      | _ \<Rightarrow> (-12, OutNone, w))"

lemma one_map_kernel_ok: "unat base < 2 ^ 62 \<Longrightarrow> mmap_ok (one_map_kernel base)"
proof (unfold mmap_ok_def, intro allI impI)
  fix a len rest w
  assume "unat base < 2 ^ 62" and "\<not> neg (fst (one_map_kernel base 9 (Reg a # Reg len # rest) w))"
  then have "fst (one_map_kernel base 9 (Reg a # Reg len # rest) w) = base" "unat len \<le> 2 ^ 24"
    by (auto simp: one_map_kernel_def word_le_nat_alt unat_HEAP_SIZE split: if_splits)
  with \<open>unat base < 2 ^ 62\<close>
  show "unat (fst (one_map_kernel base 9 (Reg a # Reg len # rest) w)) + unat len < 2 ^ 63"
    by simp
qed

definition fresh_heap :: "unit heap_machine" where
  "fresh_heap = \<lparr>kst = (), calls = [], mem = Map.empty, heap_start = 0, heap_cur = 0, heap_end = 0\<rparr>"

text \<open>
  C34: The contract of \<open>alloc\<close>. For a layout \<open>Layout\<close> can hold and a kernel whose
  mappings lie in the user half of the address space, a call never panics, keeps the heap
  well-formed and returns the null pointer or an aligned block that starts at or above the old
  cursor, ends at the new cursor and lies within the heap.
\<close>

theorem alloc_contract:
  assumes "heap_ok s" and "mmap_ok K" and "layout_ok l" and "l_size l \<noteq> 0"
  shows "\<exists>p t. alloc K l s = Inr (p, t) \<and> heap_ok t \<and> unat (heap_cur s) \<le> unat (heap_cur t) \<and>
    (p = 0 \<or> unat (heap_cur s) \<le> unat p \<and> unat (l_align l) dvd unat p \<and>
       unat p + unat (l_size l) = unat (heap_cur t) \<and> unat (heap_cur t) \<le> unat (heap_end t))"
proof -
  obtain p t where "alloc K l s = Inr (p, t)" "heap_ok t" "unat (heap_cur s) \<le> unat (heap_cur t)"
    "p = 0 \<or> unat (heap_cur s) \<le> unat p \<and> unat (l_align l) dvd unat p \<and>
       unat p + unat (l_size l) = unat (heap_cur t) \<and> unat (heap_cur t) \<le> unat (heap_end t)"
    by (rule alloc_spec[OF assms])
  then show ?thesis by blast
qed

theorem alloc_contract_witness:
  "\<exists>t. alloc (one_map_kernel 0x10000) \<lparr>l_size = 16, l_align = 8\<rparr> fresh_heap = Inr (0x10000, t) \<and>
     heap_ok t \<and> heap_cur t = 0x10010"
proof -
  let ?K = "one_map_kernel 0x10000" and ?l = "\<lparr>l_size = 16, l_align = 8\<rparr>"
  have "heap_ok fresh_heap" by (simp add: heap_ok_def fresh_heap_def)
  moreover have "mmap_ok ?K" by (rule one_map_kernel_ok) simp
  moreover have "layout_ok ?l" by (simp add: layout_ok_def upt_rec)
  moreover have "bump 0x10000 (0x10000 + HEAP_SIZE) ?l = Some (0x10000, 0x10010)"
    by (simp add: bump_def HEAP_SIZE_def Let_def)
  then have "\<exists>t. alloc ?K ?l fresh_heap = Inr (0x10000, t) \<and> heap_cur t = 0x10010"
    by (simp add: alloc_def init_heap_def fresh_heap_def mmap_def syscall6_def do_syscall_def
        one_map_kernel_def bind_p_def)
  ultimately show ?thesis using alloc_contract[of fresh_heap ?K ?l] by fastforce
qed

text \<open>
  C3: In every interleaving of any number of threads inside \<open>alloc\<close>, the blocks handed out
  are aligned as requested, lie within the mapped heap, and no two of them overlap; their sizes
  together never exceed the heap.
\<close>

theorem concurrent_blocks_disjoint:
  assumes "reachable (alloc_init base) alloc_step s"
  shows "sum_list (map block_size (a_blocks s)) \<le> unat HEAP_SIZE \<and>
    (\<forall>i < length (a_blocks s). \<forall>p l. a_blocks s ! i = (p, l) \<longrightarrow>
       unat (l_align l) dvd unat p \<and> unat base \<le> unat p \<and>
       unat p + unat (l_size l) \<le> unat base + unat HEAP_SIZE \<and>
       (\<forall>j < i. \<forall>q m. a_blocks s ! j = (q, m) \<longrightarrow> unat p + unat (l_size l) \<le> unat q))"
proof -
  have inv: "alloc_inv base s" using assms by (rule heap_threads.reachable_inv)
  have in_heap: "unat (l_align l) dvd unat p \<and> unat base \<le> unat p \<and>
      unat p + unat (l_size l) \<le> unat base + unat HEAP_SIZE"
    if "i < length (a_blocks s)" "a_blocks s ! i = (p, l)" for i p l
  proof -
    have "(p, l) \<in> set (a_blocks s)" using that by (metis nth_mem)
    with inv show ?thesis by (fastforce simp: alloc_inv_def block_size_def)
  qed
  moreover have "unat p + unat (l_size l) \<le> unat q"
    if "i < length (a_blocks s)" "j < i" "a_blocks s ! i = (p, l)" "a_blocks s ! j = (q, m)" for i j p l q m
    using inv that by (auto simp: alloc_inv_def sorted_wrt_iff_nth_less block_size_def) (metis fst_conv snd_conv)
  moreover have "sum_list (map block_size (a_blocks s)) \<le> unat HEAP_SIZE"
    using inv unfolding alloc_inv_def by linarith
  ultimately show ?thesis by simp
qed

theorem concurrent_blocks_disjoint_witness:
  "\<exists>s. reachable (alloc_init 0x10000) alloc_step s \<and>
     a_blocks s = [(0x10000, \<lparr>l_size = 16, l_align = 8\<rparr>)] \<and>
     sum_list (map block_size (a_blocks s)) \<le> unat HEAP_SIZE"
proof -
  let ?l = "\<lparr>l_size = 16, l_align = 8\<rparr>"
  let ?e = "0x10000 + HEAP_SIZE"
  let ?s = "\<lambda>pc c bs. \<lparr>a_cur = c, a_end = ?e, a_pcs = (\<lambda>_. Idle)(0 := pc), a_blocks = bs\<rparr>"
  let ?R = "reachable (alloc_init 0x10000) alloc_step"
  have b: "bump 0x10000 ?e ?l = Some (0x10000, 0x10010)"
    by (simp add: bump_def HEAP_SIZE_def Let_def)
  have "?R (?s Idle 0x10000 [])"
    by (rule reachable.start) (simp add: alloc_init_def unat_HEAP_SIZE fun_upd_idem)
  then have "?R (?s (Load_Cur ?l) 0x10000 [])"
    by (rule reachable.step) (use alloc_step.call[of "?s Idle 0x10000 []" 0 ?l] in
        \<open>simp add: layout_ok_def upt_rec\<close>)
  then have "?R (?s (Load_End ?l 0x10000) 0x10000 [])"
    by (rule reachable.step) (use alloc_step.load_cur[of "?s (Load_Cur ?l) 0x10000 []" 0 ?l] in simp)
  then have "?R (?s (Cas ?l 0x10000 0x10000 0x10010) 0x10000 [])"
    by (rule reachable.step)
      (use alloc_step.compute[of "?s (Load_End ?l 0x10000) 0x10000 []" 0 ?l "0x10000" "0x10000" "0x10010"] b in simp)
  then have r: "?R (?s Idle 0x10010 [(0x10000, ?l)])"
    by (rule reachable.step)
      (use alloc_step.cas_ok[of "?s (Cas ?l 0x10000 0x10000 0x10010) 0x10000 []" 0 ?l "0x10000" "0x10000" "0x10010"] in simp)
  with concurrent_blocks_disjoint[OF r] show ?thesis by (intro exI conjI) auto
qed

end
