(* ===== verification/Format.thy ===== *)
theory Format
  imports Syscall
begin

text \<open>
  Number formatting of the syscall crate (\<open>format_usize\<close>, \<open>write_usize\<close>,
  \<open>write_isize\<close>, \<open>write_hex\<close>; src/crates/syscall/lib.rs). The digit loops run over
  fixed-size byte arrays with checked indices; the lemmas show that no index is ever out of range
  and that the bytes are the decimal or hexadecimal numeral of the argument.
\<close>

section \<open>The loops\<close>

text \<open>\<open>while num > 0 { buf[i] = b'0' + (num % 10) as u8; num /= 10; i += 1 }\<close>\<close>

function digits_loop :: "bytes \<Rightarrow> nat \<Rightarrow> usize \<Rightarrow> (bytes \<times> nat) res" where
  "digits_loop buf i num =
     (if 0 < num
      then bind_res (set_index buf i (48 + ucast (num mod 10)))
             (\<lambda>buf'. digits_loop buf' (i + 1) (num div 10))
      else Inr (buf, i))"
  by pat_completeness auto
termination
  by (relation "measure (\<lambda>(buf, i, num). unat num)") (auto simp: unat_div_less word_gt_0 unat_gt_0)

declare digits_loop.simps [simp del]

text \<open>\<open>while j < i / 2 { buf.swap(j, i - 1 - j); j += 1 }\<close>\<close>

function reverse_loop :: "bytes \<Rightarrow> nat \<Rightarrow> nat \<Rightarrow> bytes res" where
  "reverse_loop buf j i =
     (if j < i div 2 then bind_res (swap buf j (i - 1 - j)) (\<lambda>buf'. reverse_loop buf' (j + 1) i)
      else Inr buf)"
  by pat_completeness auto
termination
  by (relation "measure (\<lambda>(buf, j, i). i div 2 - j)") auto

declare reverse_loop.simps [simp del]

definition format_usize :: "usize \<Rightarrow> (bytes \<times> nat) res" where
  "format_usize n =
     (let buf = replicate 20 0
      in if n = 0 then bind_res (set_index buf 0 48) (\<lambda>buf. Inr (buf, 1))
         else bind_res (digits_loop buf 0 n) (\<lambda>(buf, i).
              bind_res (reverse_loop buf 0 i) (\<lambda>buf. Inr (buf, i))))"

definition write_usize :: "'w kernel \<Rightarrow> i32 \<Rightarrow> usize \<Rightarrow> (('w, 'z) machine_scheme, unit) prog" where
  "write_usize K fd n =
     bind_p (lift_res (format_usize n)) (\<lambda>(buf, len).
     bind_p (lift_res (sub_slice buf 0 len)) (\<lambda>out.
     ignore_p (sys_write K fd out)))"

definition write_isize :: "'w kernel \<Rightarrow> i32 \<Rightarrow> i64 \<Rightarrow> (('w, 'z) machine_scheme, unit) prog" where
  "write_isize K fd n =
     bind_p (if neg n then bind_p (sys_write K fd (str ''-'')) (\<lambda>_. return_p (- n)) else return_p n)
       (\<lambda>n. bind_p (lift_res (format_usize n)) (\<lambda>(buf, len).
            bind_p (lift_res (sub_slice buf 0 len)) (\<lambda>out.
            ignore_p (sys_write K fd out))))"

text \<open>
  The hexadecimal loop counts its index down; after sixteen digits \<open>idx -= 1\<close> wraps around
  and \<open>idx + 1\<close> wraps back to 0.
\<close>

definition hex_digit :: "u8 \<Rightarrow> u8" where
  "hex_digit digit = (if digit < 10 then 48 + digit else 97 + (digit - 10))"

function hex_loop :: "bytes \<Rightarrow> usize \<Rightarrow> usize \<Rightarrow> (bytes \<times> usize) res" where
  "hex_loop buf idx val =
     (if 0 < val
      then bind_res (set_index buf (unat idx) (hex_digit (ucast (val AND 0xF))))
             (\<lambda>buf'. hex_loop buf' (idx - 1) (drop_bit 4 val))
      else Inr (buf, idx))"
  by pat_completeness auto
termination
  by (relation "measure (\<lambda>(buf, idx, val). unat val)")
    (auto simp: word_gt_0 unat_gt_0 drop_bit_eq_div unat_div_less)

declare hex_loop.simps [simp del]

definition write_hex :: "'w kernel \<Rightarrow> i32 \<Rightarrow> usize \<Rightarrow> (('w, 'z) machine_scheme, unit) prog" where
  "write_hex K fd n =
     (if n = 0 then ignore_p (sys_write K fd (str ''0''))
      else bind_p (lift_res (hex_loop (replicate 16 0) 15 n)) (\<lambda>(buf, idx).
           bind_p (lift_res (sub_slice buf (unat (idx + 1)) (length buf))) (\<lambda>out.
           ignore_p (sys_write K fd out))))"

section \<open>Reference numerals\<close>

text \<open>The numeral of \<open>n\<close> in base \<open>b\<close>, most significant digit first.\<close>

function numeral_of :: "nat \<Rightarrow> (nat \<Rightarrow> u8) \<Rightarrow> nat \<Rightarrow> bytes" where
  "numeral_of b d n =
     (if n < b \<or> b < 2 then [d n] else numeral_of b d (n div b) @ [d (n mod b)])"
  by pat_completeness auto
termination
  by (relation "measure (\<lambda>(b, d, n). n)") auto

declare numeral_of.simps [simp del]

definition dec_digit :: "nat \<Rightarrow> u8" where
  "dec_digit k = 48 + of_nat k"

definition hex_digit_of :: "nat \<Rightarrow> u8" where
  "hex_digit_of k = (if k < 10 then 48 + of_nat k else 87 + of_nat k)"

definition decimal :: "nat \<Rightarrow> bytes" where
  "decimal n = numeral_of 10 dec_digit n"

definition hexadecimal :: "nat \<Rightarrow> bytes" where
  "hexadecimal n = numeral_of 16 hex_digit_of n"

lemma numeral_of_small: "n < b \<Longrightarrow> numeral_of b d n = [d n]"
  by (simp add: numeral_of.simps)

lemma numeral_of_step: "b \<le> n \<Longrightarrow> 2 \<le> b \<Longrightarrow>
    numeral_of b d n = numeral_of b d (n div b) @ [d (n mod b)]"
  by (subst numeral_of.simps) simp

lemma numeral_of_nonempty [simp]: "numeral_of b d n \<noteq> []"
  by (subst numeral_of.simps) simp

lemma length_numeral_of:
  assumes "2 \<le> b" and "n < b ^ Suc k"
  shows "length (numeral_of b d n) \<le> Suc k"
  using assms(2)
proof (induction k arbitrary: n)
  case 0
  then show ?case by (simp add: numeral_of_small)
next
  case (Suc k)
  show ?case
  proof (cases "n < b")
    case True
    then show ?thesis by (simp add: numeral_of_small)
  next
    case False
    from Suc.prems have "n div b < b ^ Suc k"
      by (simp add: less_mult_imp_div_less mult.commute)
    then have "length (numeral_of b d (n div b)) \<le> Suc k" by (rule Suc.IH)
    with False assms(1) show ?thesis by (simp add: numeral_of_step)
  qed
qed

lemma length_decimal: "n < 2 ^ 64 \<Longrightarrow> length (decimal n) \<le> 20"
  unfolding decimal_def using length_numeral_of[of 10 n 19 dec_digit] by simp

lemma length_hexadecimal: "n < 2 ^ 64 \<Longrightarrow> length (hexadecimal n) \<le> 16"
  unfolding hexadecimal_def using length_numeral_of[of 16 n 15 hex_digit_of] by simp

section \<open>The loops compute the numerals\<close>

lemma dec_digit_word: "48 + ucast (num mod 10 :: usize) = dec_digit (unat num mod 10)"
  by (simp add: dec_digit_def ucast_of_nat unat_mod_distrib)

lemma hex_digit_word: "hex_digit (ucast (val AND 0xF :: usize)) = hex_digit_of (unat val mod 16)"
proof -
  have m: "val AND 0xF = val mod 16"
    using and_mask_mod[of val 4] by (simp add: mask_eq_exp_minus_1)
  have k: "unat val mod 16 < 16" by simp
  have u: "ucast (val mod 16) = (of_nat (unat val mod 16) :: u8)"
    by (simp add: ucast_of_nat unat_mod_distrib)
  have "unat (of_nat (unat val mod 16) :: u8) = unat val mod 16"
    using k by (simp add: unat_of_nat)
  then show ?thesis
    unfolding m u hex_digit_def hex_digit_of_def
    by (simp add: word_less_nat_alt)
qed

lemma take_update_drop: "i < length xs \<Longrightarrow> xs[i := v] = take i xs @ v # drop (Suc i) xs"
  by (rule upd_conv_take_nth_drop)

lemma digits_loop_eq:
  assumes "0 < num" and "i + length (decimal (unat num)) \<le> length buf"
  shows "digits_loop buf i num =
    Inr (take i buf @ rev (decimal (unat num)) @ drop (i + length (decimal (unat num))) buf,
         i + length (decimal (unat num)))"
  using assms
proof (induction buf i num rule: digits_loop.induct)
  case (1 buf i num)
  let ?v = "dec_digit (unat num mod 10)"
  have i: "i < length buf"
    using "1.prems"(2) by (cases "decimal (unat num)") (auto simp: decimal_def)
  have unf: "digits_loop buf i num = digits_loop (buf[i := ?v]) (i + 1) (num div 10)"
    using "1.prems"(1) i by (subst digits_loop.simps) (simp add: dec_digit_word)
  show ?case
  proof (cases "unat num < 10")
    case True
    then have "num div 10 = 0" by (simp add: word_eq_iff_unsigned unat_div_distrib flip: unat_eq_zero)
    moreover have "decimal (unat num) = [?v]" using True by (simp add: decimal_def numeral_of_small)
    ultimately show ?thesis
      using i by (simp only: unf) (subst digits_loop.simps, simp add: take_update_drop)
  next
    case False
    have d: "unat (num div 10) = unat num div 10" by (simp add: unat_div_distrib)
    have dec: "decimal (unat num) = decimal (unat (num div 10)) @ [?v]"
      using False by (simp add: decimal_def numeral_of_step d)
    have pos: "0 < num div 10"
      using False by (simp add: word_gt_0 d flip: unat_eq_zero)
    have "digits_loop (buf[i := ?v]) (i + 1) (num div 10) =
      Inr (take (i + 1) (buf[i := ?v]) @ rev (decimal (unat (num div 10))) @
           drop (i + 1 + length (decimal (unat (num div 10)))) (buf[i := ?v]),
           i + 1 + length (decimal (unat (num div 10))))"
      using "1.IH"[of "buf[i := ?v]"] "1.prems" pos by (simp add: dec)
    then show ?thesis
      using i by (simp add: unf dec take_Suc_conv_app_nth)
  qed
qed

lemma swap_ends: "swap (p @ x # m @ y # q) (length p) (length p + length m + 1) = Inr (p @ y # m @ x # q)"
  by (simp add: swap_def list_update_append nth_append)

lemma reverse_loop_segment:
  "reverse_loop (p @ m @ q) (length p) (2 * length p + length m) = Inr (p @ rev m @ q)"
proof (induction "length m" arbitrary: p m q rule: less_induct)
  case less
  show ?case
  proof (cases "length m < 2")
    case True
    then have "rev m = m" by (cases m) auto
    moreover have "\<not> length p < (2 * length p + length m) div 2" using True by simp
    ultimately show ?thesis by (subst reverse_loop.simps) simp
  next
    case False
    then obtain x m' y where m: "m = x # m' @ [y]"
      by (cases m; cases "tl m" rule: rev_cases) auto
    have i: "2 * length p + length m - 1 - length p = length p + length m' + 1" by (simp add: m)
    have "reverse_loop (p @ m @ q) (length p) (2 * length p + length m) =
        reverse_loop ((p @ [y]) @ m' @ (x # q)) (length (p @ [y])) (2 * length (p @ [y]) + length m')"
      by (subst reverse_loop.simps) (use False swap_ends[of p x m' y q] in \<open>simp add: m i\<close>)
    also have "\<dots> = Inr ((p @ [y]) @ rev m' @ (x # q))"
      by (rule less) (simp add: m)
    finally show ?thesis by (simp add: m)
  qed
qed

lemma reverse_loop_eq:
  "i \<le> length buf \<Longrightarrow> reverse_loop buf 0 i = Inr (rev (take i buf) @ drop i buf)"
  using reverse_loop_segment[of "[]" "take i buf" "drop i buf"] by simp

lemma format_usize_eq:
  "format_usize n =
     Inr (decimal (unat n) @ replicate (20 - length (decimal (unat n))) 0, length (decimal (unat n)))"
proof (cases "n = 0")
  case True
  then show ?thesis
    by (simp add: format_usize_def decimal_def numeral_of_small dec_digit_def numeral_eq_Suc)
next
  case False
  let ?d = "decimal (unat n)"
  have len: "length ?d \<le> 20" using length_decimal[of "unat n"] unsigned_less[of n, where 'a = nat] by simp
  have "digits_loop (replicate 20 0) 0 n = Inr (rev ?d @ replicate (20 - length ?d) 0, length ?d)"
    using digits_loop_eq[of n 0 "replicate 20 0"] False len by (simp add: word_gt_0)
  with False len show ?thesis
    by (simp add: format_usize_def reverse_loop_eq)
qed

lemma write_usize_eq: "write_usize K fd n = ignore_p (sys_write K fd (decimal (unat n)))"
  by (simp add: fun_eq_iff write_usize_def format_usize_eq)

lemma write_isize_eq:
  "write_isize K fd n =
     (if neg n then seqs [ignore_p (sys_write K fd (str ''-'')),
                          ignore_p (sys_write K fd (decimal (nat \<bar>sint n\<bar>)))]
      else ignore_p (sys_write K fd (decimal (nat (sint n)))))"
proof -
  show ?thesis
    by (auto simp: fun_eq_iff write_isize_def format_usize_eq unat_eq_nat_sint unat_uminus_neg
        bind_p_def ignore_p_def split: sum.splits)
qed

lemma hex_loop_eq:
  assumes "0 < val" and "length (hexadecimal (unat val)) \<le> length p" and "length p \<le> 16"
  shows "hex_loop (p @ q) (of_nat (length p) - 1) val =
    Inr (take (length p - length (hexadecimal (unat val))) p @ hexadecimal (unat val) @ q,
         of_nat (length p - length (hexadecimal (unat val))) - 1)"
  using assms
proof (induction "unat val" arbitrary: val p q rule: less_induct)
  case less
  let ?v = "hex_digit_of (unat val mod 16)"
  obtain p' z where p: "p = p' @ [z]"
    using less.prems(2) by (cases p rule: rev_cases) (auto simp: hexadecimal_def)
  have idx: "(of_nat (length p) - 1 :: usize) = of_nat (length p')" by (simp add: p)
  have un: "unat (of_nat (length p') :: usize) = length p'"
    using less.prems(3) by (simp add: p unat_of_nat)
  have step: "hex_loop (p @ q) (of_nat (length p) - 1) val =
      hex_loop (p' @ ?v # q) (of_nat (length p') - 1) (drop_bit 4 val)"
    by (subst hex_loop.simps) (simp add: idx un less.prems(1) hex_digit_word p)
  have d: "unat (drop_bit 4 val) = unat val div 16"
    by (simp add: drop_bit_eq_div unat_div_distrib)
  show ?case
  proof (cases "unat val < 16")
    case True
    then have "drop_bit 4 val = 0" by (simp add: d flip: unat_eq_zero)
    moreover have "hexadecimal (unat val) = [?v]" using True by (simp add: hexadecimal_def numeral_of_small)
    ultimately show ?thesis
      unfolding step by (subst hex_loop.simps) (simp add: p)
  next
    case False
    have hex: "hexadecimal (unat val) = hexadecimal (unat (drop_bit 4 val)) @ [?v]"
      using False by (simp add: hexadecimal_def numeral_of_step d)
    have pos: "0 < drop_bit 4 val"
      using False by (simp add: word_gt_0 d flip: unat_eq_zero)
    have lt: "unat (drop_bit 4 val) < unat val"
      using False by (simp add: d)
    from less.prems(2,3) have "length (hexadecimal (unat (drop_bit 4 val))) \<le> length p'" "length p' \<le> 16"
      by (simp_all add: hex p)
    from less.hyps[OF lt pos this, of "?v # q"] show ?thesis
      unfolding step by (simp add: hex p)
  qed
qed

lemma write_hex_eq: "write_hex K fd n = ignore_p (sys_write K fd (hexadecimal (unat n)))"
proof (cases "n = 0")
  case True
  then show ?thesis
    by (simp add: write_hex_def hexadecimal_def numeral_of_small hex_digit_of_def)
next
  case False
  let ?h = "hexadecimal (unat n)"
  have len: "length ?h \<le> 16"
    using length_hexadecimal[of "unat n"] unsigned_less[of n, where 'a = nat] by simp
  have loop: "hex_loop (replicate 16 0) 15 n =
      Inr (replicate (16 - length ?h) 0 @ ?h, of_nat (16 - length ?h) - 1)"
    using hex_loop_eq[of n "replicate 16 0" "[]"] False len by (simp add: word_gt_0)
  have "unat (of_nat (16 - length ?h) :: usize) = 16 - length ?h"
    by (rule unat_of_nat_small) simp
  with False len show ?thesis
    by (simp add: fun_eq_iff write_hex_def loop)
qed

lemma quiet_write_usize [quiet_intros]: "quiet beyond_kernel (write_usize K fd n)"
  unfolding write_usize_eq by (intro quiet_intros)

lemma quiet_write_hex [quiet_intros]: "quiet beyond_kernel (write_hex K fd n)"
  unfolding write_hex_eq by (intro quiet_intros)

lemma quiet_write_isize [quiet_intros]: "quiet beyond_kernel (write_isize K fd n)"
  unfolding write_isize_eq seqs.simps by (intro quiet_intros)

section \<open>Properties\<close>

text \<open>
  C40: The number writers never panic and issue exactly the documented writes: \<open>write_usize\<close>
  one write of the decimal numeral, \<open>write_hex\<close> one write of the hexadecimal numeral, and
  \<open>write_isize\<close> a minus sign first for negative numbers, \<open>i64::MIN\<close> included.
\<close>

theorem number_writers_correct:
  "write_usize K fd n = ignore_p (sys_write K fd (decimal (unat n))) \<and>
   write_hex K fd n = ignore_p (sys_write K fd (hexadecimal (unat n))) \<and>
   write_isize K fd i =
     (if neg i then seqs [ignore_p (sys_write K fd (str ''-'')),
                          ignore_p (sys_write K fd (decimal (nat \<bar>sint i\<bar>)))]
      else ignore_p (sys_write K fd (decimal (nat (sint i)))))"
  by (intro conjI write_usize_eq write_hex_eq write_isize_eq)

end
