(* ===== verification/IoRegistry.thy ===== *)
theory IoRegistry
  imports Allocator Format
begin

text \<open>
  The IO registry and event descriptor of the runtime crate (src/crates/runtime/io_registry.rs)
  and its log output (\<open>LOG_FD\<close>, \<open>log_write\<close> of src/crates/runtime/lib.rs). The
  registry is a vector of entries, searched linearly; the interface \<open>fd_registry\<close> states
  it as a finite map from descriptors to the events and wakers waiting on them. A waker carries
  the handle of its task and nothing else.
\<close>

section \<open>State\<close>

type_synonym waker = usize

record io_entry =
  e_fd :: i32
  e_events :: i16
  e_waiters :: "waker list"

record 'w io_machine = "'w heap_machine" +
  log_fd :: i32
  io_reg :: "io_entry list"
  eventfd :: i32
  event_pending :: usize

section \<open>The code\<close>

definition log_write :: "'w kernel \<Rightarrow> bytes \<Rightarrow> (('w, 'z) io_machine_scheme, unit) prog" where
  "log_write K s = bind_p (get_p log_fd) (\<lambda>fd. ignore_p (sys_write K fd s))"

text \<open>Without interference the exchange of \<open>-1\<close> for the new descriptor succeeds exactly when the static still holds \<open>-1\<close>.\<close>

definition ensure_eventfd :: "'w kernel \<Rightarrow> (('w, 'z) io_machine_scheme, i32) prog" where
  "ensure_eventfd K =
     bind_p (get_p eventfd) (\<lambda>cur.
     if \<not> neg cur then return_p cur
     else bind_p (eventfd_call K 0 0) (\<lambda>fd.
          if \<not> neg fd
          then bind_p (get_p eventfd) (\<lambda>old.
               bind_p (if old = -1 then modify_p (\<lambda>s. s\<lparr>eventfd := fd\<rparr>) else ignore_p (close K fd)) (\<lambda>_.
               get_p eventfd))
          else return_p (-1)))"

definition signal_eventfd :: "'w kernel \<Rightarrow> (('w, 'z) io_machine_scheme, unit) prog" where
  "signal_eventfd K =
     bind_p (ensure_eventfd K) (\<lambda>fd.
     if neg fd then return_p ()
     else ignore_p (sys_write K fd [1, 0, 0, 0, 0, 0, 0, 0]))"

definition close_eventfd :: "'w kernel \<Rightarrow> (('w, 'z) io_machine_scheme, unit) prog" where
  "close_eventfd K =
     bind_p (get_p eventfd) (\<lambda>fd.
     bind_p (modify_p (\<lambda>s. s\<lparr>eventfd := -1\<rparr>)) (\<lambda>_.
     if \<not> neg fd then ignore_p (close K fd) else return_p ()))"

text \<open>\<open>for e in reg.iter_mut()\<close>: the first entry of the descriptor, or a new entry at the end.\<close>

fun reg_add :: "i32 \<Rightarrow> i16 \<Rightarrow> waker \<Rightarrow> io_entry list \<Rightarrow> io_entry list" where
  "reg_add fd events waker [] = [\<lparr>e_fd = fd, e_events = events, e_waiters = [waker]\<rparr>]"
| "reg_add fd events waker (e # es) =
     (if e_fd e = fd then e\<lparr>e_waiters := e_waiters e @ [waker]\<rparr> # es
      else e # reg_add fd events waker es)"

definition register_fd_waker :: "i32 \<Rightarrow> i16 \<Rightarrow> waker \<Rightarrow> (('w, 'z) io_machine_scheme, unit) prog" where
  "register_fd_waker fd events waker = modify_p (\<lambda>s. s\<lparr>io_reg := reg_add fd events waker (io_reg s)\<rparr>)"

definition reg_remove :: "i32 \<Rightarrow> io_entry list \<Rightarrow> io_entry list" where
  "reg_remove fd es = filter (\<lambda>e. e_fd e \<noteq> fd) es"

definition unregister_fd :: "'w kernel \<Rightarrow> i32 \<Rightarrow> (('w, 'z) io_machine_scheme, unit) prog" where
  "unregister_fd K fd =
     bind_p (modify_p (\<lambda>s. s\<lparr>io_reg := reg_remove fd (io_reg s)\<rparr>)) (\<lambda>_. signal_eventfd K)"

text \<open>
  The critical section of \<open>ppoll_and_schedule\<close> for one ready descriptor: take the wakers of
  its first entry and \<open>swap_remove\<close> the entry.
\<close>

definition swap_remove :: "nat \<Rightarrow> 'a list \<Rightarrow> 'a list" where
  "swap_remove i xs = (if i + 1 < length xs then butlast (xs[i := last xs]) else butlast xs)"

fun find_fd :: "i32 \<Rightarrow> io_entry list \<Rightarrow> nat option" where
  "find_fd fd [] = None"
| "find_fd fd (e # es) = (if e_fd e = fd then Some 0 else map_option Suc (find_fd fd es))"

definition reg_take :: "i32 \<Rightarrow> io_entry list \<Rightarrow> waker list \<times> io_entry list" where
  "reg_take fd es =
     (case find_fd fd es of
        None \<Rightarrow> ([], es)
      | Some i \<Rightarrow> (e_waiters (es ! i), swap_remove i es))"

text \<open>Logging is a system call; the event descriptor's operations change only its number.\<close>

lemma quiet_log_write [quiet_intros]: "quiet beyond_kernel (log_write K s)"
  unfolding log_write_def by (intro quiet_intros)

definition beyond_eventfd ::
    "('w, 'z) io_machine_scheme \<Rightarrow> (u64 \<rightharpoonup> u64) \<times> usize \<times> usize \<times> usize \<times> i32 \<times> io_entry list \<times> usize \<times> 'z" where
  "beyond_eventfd s =
     (mem s, heap_start s, heap_cur s, heap_end s, log_fd s, io_reg s, event_pending s, io_machine.more s)"

lemma quiet_beyond_eventfd: "quiet beyond_kernel m \<Longrightarrow> quiet beyond_eventfd m"
proof (erule quiet_coarse)
  fix s t :: "('w, 'z) io_machine_scheme" assume "beyond_kernel t = beyond_kernel s"
  then show "beyond_eventfd t = beyond_eventfd s" by (cases s; cases t) (simp add: beyond_eventfd_def)
qed

lemma quiet_ensure_eventfd: "quiet beyond_eventfd (ensure_eventfd K)"
  unfolding ensure_eventfd_def
  by (intro quiet_intros quiet_syscalls[THEN quiet_beyond_eventfd]) (simp add: beyond_eventfd_def)

lemma quiet_signal_eventfd: "quiet beyond_eventfd (signal_eventfd K)"
  unfolding signal_eventfd_def
  by (intro quiet_intros quiet_ensure_eventfd quiet_syscalls[THEN quiet_beyond_eventfd])

section \<open>The registry as a finite map\<close>

text \<open>
  The operations on a registry, and what they mean for a map from descriptors to the events and
  the wakers waiting in order.
\<close>

datatype reg_op = Register i32 i16 waker | Unregister i32 | Take i32

fun map_apply :: "reg_op \<Rightarrow> (i32 \<rightharpoonup> i16 \<times> waker list) \<Rightarrow> (i32 \<rightharpoonup> i16 \<times> waker list)" where
  "map_apply (Register fd ev w) m =
     m(fd \<mapsto> (case m fd of None \<Rightarrow> (ev, [w]) | Some (ev', ws) \<Rightarrow> (ev', ws @ [w])))"
| "map_apply (Unregister fd) m = m(fd := None)"
| "map_apply (Take fd) m = m(fd := None)"

definition waiting :: "(i32 \<rightharpoonup> i16 \<times> waker list) \<Rightarrow> i32 \<Rightarrow> waker list" where
  "waiting m fd = (case m fd of None \<Rightarrow> [] | Some (_, ws) \<Rightarrow> ws)"

fun reg_apply :: "reg_op \<Rightarrow> io_entry list \<Rightarrow> io_entry list" where
  "reg_apply (Register fd ev w) es = reg_add fd ev w es"
| "reg_apply (Unregister fd) es = reg_remove fd es"
| "reg_apply (Take fd) es = snd (reg_take fd es)"

locale fd_registry =
  fixes lookup :: "'r \<Rightarrow> i32 \<Rightarrow> (i16 \<times> waker list) option"
    and add :: "i32 \<Rightarrow> i16 \<Rightarrow> waker \<Rightarrow> 'r \<Rightarrow> 'r"
    and remove :: "i32 \<Rightarrow> 'r \<Rightarrow> 'r"
    and take_fd :: "i32 \<Rightarrow> 'r \<Rightarrow> waker list \<times> 'r"
    and invar :: "'r \<Rightarrow> bool"
  assumes lookup_add: "invar r \<Longrightarrow> lookup (add fd ev w r) =
      (lookup r)(fd \<mapsto> (case lookup r fd of None \<Rightarrow> (ev, [w]) | Some (ev', ws) \<Rightarrow> (ev', ws @ [w])))"
    and lookup_remove: "invar r \<Longrightarrow> lookup (remove fd r) = (lookup r)(fd := None)"
    and take_waiters: "invar r \<Longrightarrow> fst (take_fd fd r) = waiting (lookup r) fd"
    and lookup_take: "invar r \<Longrightarrow> lookup (snd (take_fd fd r)) = (lookup r)(fd := None)"
    and invar_add: "invar r \<Longrightarrow> invar (add fd ev w r)"
    and invar_remove: "invar r \<Longrightarrow> invar (remove fd r)"
    and invar_take: "invar r \<Longrightarrow> invar (snd (take_fd fd r))"
begin

text \<open>A registered waker is handed out by the next take of its descriptor, after those before it.\<close>

lemma add_then_take:
  "invar r \<Longrightarrow> fst (take_fd fd (add fd ev w r)) = fst (take_fd fd r) @ [w]"
  by (simp add: take_waiters waiting_def invar_add lookup_add split: option.splits)

lemma add_keeps_others:
  "invar r \<Longrightarrow> fd' \<noteq> fd \<Longrightarrow> fst (take_fd fd' (add fd ev w r)) = fst (take_fd fd' r)"
  by (simp add: take_waiters waiting_def invar_add lookup_add)

text \<open>A descriptor that already has an entry keeps that entry's events.\<close>

lemma add_keeps_events:
  "invar r \<Longrightarrow> lookup r fd = Some (ev', ws) \<Longrightarrow> lookup (add fd ev w r) fd = Some (ev', ws @ [w])"
  by (simp add: lookup_add)

lemma take_once: "invar r \<Longrightarrow> fst (take_fd fd (snd (take_fd fd r))) = []"
  by (simp add: take_waiters waiting_def invar_take lookup_take)

lemma remove_forgets: "invar r \<Longrightarrow> fst (take_fd fd (remove fd r)) = []"
  by (simp add: take_waiters waiting_def invar_remove lookup_remove)

end

definition reg_lookup :: "io_entry list \<Rightarrow> i32 \<Rightarrow> (i16 \<times> waker list) option" where
  "reg_lookup es = map_of (map (\<lambda>e. (e_fd e, (e_events e, e_waiters e))) es)"

definition reg_ok :: "io_entry list \<Rightarrow> bool" where
  "reg_ok es \<longleftrightarrow> distinct (map e_fd es)"

lemma reg_lookup_simps [simp]:
  "reg_lookup [] fd = None"
  "reg_lookup (e # es) fd = (if e_fd e = fd then Some (e_events e, e_waiters e) else reg_lookup es fd)"
  by (simp_all add: reg_lookup_def)

lemma reg_lookup_append:
  "reg_lookup (as @ bs) fd = (case reg_lookup as fd of None \<Rightarrow> reg_lookup bs fd | Some v \<Rightarrow> Some v)"
  by (induction as) auto

lemma reg_lookup_None: "reg_lookup es fd = None \<longleftrightarrow> fd \<notin> e_fd ` set es"
  by (induction es) auto

lemma fds_reg_add: "set (map e_fd (reg_add fd ev w es)) = insert fd (set (map e_fd es))"
  by (induction es) auto

lemma reg_ok_add: "reg_ok es \<Longrightarrow> reg_ok (reg_add fd ev w es)"
proof (induction es)
  case (Cons e es)
  then show ?case using fds_reg_add[of fd ev w es] by (auto simp: reg_ok_def)
qed (simp add: reg_ok_def)

lemma reg_lookup_add:
  "reg_lookup (reg_add fd ev w es) =
     (reg_lookup es)(fd \<mapsto> (case reg_lookup es fd of None \<Rightarrow> (ev, [w]) | Some (ev', ws) \<Rightarrow> (ev', ws @ [w])))"
  by (induction es) (auto simp: fun_eq_iff split: option.splits)

lemma reg_lookup_remove: "reg_lookup (reg_remove fd es) = (reg_lookup es)(fd := None)"
  by (induction es) (auto simp: fun_eq_iff reg_remove_def)

lemma find_fd_split:
  "find_fd fd es = Some i \<Longrightarrow>
    \<exists>as e bs. es = as @ e # bs \<and> i = length as \<and> e_fd e = fd \<and> (\<forall>a \<in> set as. e_fd a \<noteq> fd)"
proof (induction es arbitrary: i)
  case (Cons e es)
  show ?case
  proof (cases "e_fd e = fd")
    case True
    with Cons.prems show ?thesis by (intro exI[of _ "[]"]) auto
  next
    case False
    with Cons obtain as e' bs where "es = as @ e' # bs" "i = Suc (length as)" "e_fd e' = fd"
      "\<forall>a \<in> set as. e_fd a \<noteq> fd" by auto
    with False show ?thesis by (intro exI[of _ "e # as"] exI[of _ e'] exI[of _ bs]) auto
  qed
qed simp

lemma find_fd_None: "find_fd fd es = None \<longleftrightarrow> fd \<notin> set (map e_fd es)"
  by (induction es) auto

lemma swap_remove_split:
  "swap_remove (length as) (as @ e # bs) = (if bs = [] then as else as @ last bs # butlast bs)"
  by (cases bs rule: rev_cases) (auto simp: swap_remove_def butlast_append list_update_append)

lemma map_of_distinct_eq:
  assumes "distinct (map fst xs)" and "distinct (map fst ys)" and "set xs = set ys"
  shows "map_of xs = map_of ys"
  using assms by (metis map_of_eqI set_map map_of_is_SomeI map_of_SomeD option.exhaust ext)

lemma reg_take_split:
  assumes "reg_ok es"
  shows "fst (reg_take fd es) = waiting (reg_lookup es) fd"
    and "reg_lookup (snd (reg_take fd es)) = (reg_lookup es)(fd := None)"
    and "reg_ok (snd (reg_take fd es))"
proof -
  have "fst (reg_take fd es) = waiting (reg_lookup es) fd \<and>
    reg_lookup (snd (reg_take fd es)) = (reg_lookup es)(fd := None) \<and> reg_ok (snd (reg_take fd es))"
  proof (cases "find_fd fd es")
    case None
    then have "reg_lookup es fd = None"
      by (auto simp: find_fd_None reg_lookup_def map_of_eq_None_iff image_image)
    with None assms show ?thesis by (auto simp: reg_take_def fun_eq_iff waiting_def)
  next
    case (Some i)
    from find_fd_split[OF this] obtain as e bs where es: "es = as @ e # bs" and i: "i = length as"
      and e: "e_fd e = fd" "\<forall>a \<in> set as. e_fd a \<noteq> fd" by blast
    let ?rest = "if bs = [] then as else as @ last bs # butlast bs"
    let ?f = "\<lambda>e. (e_fd e, (e_events e, e_waiters e))"
    have look: "reg_lookup es fd = Some (e_events e, e_waiters e)"
      using e(2) by (auto simp: es reg_lookup_def map_add_Some_iff e(1) map_of_eq_None_iff)
    have perm: "set ?rest = set (as @ bs)" "distinct (map e_fd ?rest)"
      using assms by (cases bs rule: rev_cases; auto simp: es reg_ok_def)+
    have "reg_lookup ?rest = reg_lookup (as @ bs)"
      unfolding reg_lookup_def
      by (rule map_of_distinct_eq) (use perm assms in \<open>auto simp: comp_def es reg_ok_def\<close>)
    also have "\<dots> = (reg_lookup es)(fd := None)"
    proof
      fix x
      have "reg_lookup as fd = None" "reg_lookup bs fd = None"
        unfolding reg_lookup_None using assms e by (auto simp: es reg_ok_def)
      then show "reg_lookup (as @ bs) x = ((reg_lookup es)(fd := None)) x"
        by (simp add: es e(1) reg_lookup_append split: option.splits)
    qed
    finally show ?thesis
      using Some look perm by (simp add: reg_take_def waiting_def i es swap_remove_split reg_ok_def)
  qed
  then show "fst (reg_take fd es) = waiting (reg_lookup es) fd"
    "reg_lookup (snd (reg_take fd es)) = (reg_lookup es)(fd := None)" "reg_ok (snd (reg_take fd es))"
    by blast+
qed

interpretation reg: fd_registry reg_lookup reg_add reg_remove reg_take reg_ok
proof
  show "reg_ok r \<Longrightarrow> reg_ok (reg_remove fd r)" for fd r
    by (auto simp: reg_ok_def reg_remove_def distinct_map_filter)
qed (auto simp: reg_lookup_add reg_lookup_remove reg_take_split reg_ok_add)

text \<open>Every operation on the vector is the operation on the map.\<close>

lemma reg_apply_refines:
  "reg_ok es \<Longrightarrow> reg_ok (reg_apply op es) \<and> reg_lookup (reg_apply op es) = map_apply op (reg_lookup es)"
  by (cases op) (simp_all add: reg.lookup_add reg.lookup_remove reg.lookup_take
      reg.invar_add reg.invar_remove reg.invar_take)

lemma reg_run_refines:
  "reg_ok es \<Longrightarrow> reg_ok (foldl (\<lambda>r op. reg_apply op r) es ops) \<and>
     reg_lookup (foldl (\<lambda>r op. reg_apply op r) es ops) = foldl (\<lambda>m op. map_apply op m) (reg_lookup es) ops"
  by (induction ops arbitrary: es) (simp_all add: reg_apply_refines)

section \<open>Properties\<close>

text \<open>
  C4: The registry vector implements a finite map from descriptors to their wakers. After any
  sequence of registrations, removals and takes, starting from the empty vector, it holds at most
  one entry per descriptor, its content is the map the sequence describes, and taking any
  descriptor hands out exactly the wakers registered for it since it was last taken or removed,
  in order, and none a second time.
\<close>

theorem registry_refines_map:
  "let es = foldl (\<lambda>r op. reg_apply op r) [] ops; m = foldl (\<lambda>m op. map_apply op m) Map.empty ops
   in distinct (map e_fd es) \<and> reg_lookup es = m \<and>
      fst (reg_take fd es) = waiting m fd \<and> fst (reg_take fd (snd (reg_take fd es))) = []"
proof -
  let ?es = "foldl (\<lambda>r op. reg_apply op r) [] ops"
  have ok: "reg_ok ?es" and look: "reg_lookup ?es = foldl (\<lambda>m op. map_apply op m) Map.empty ops"
    using reg_run_refines[of "[]" ops] by (auto simp: reg_ok_def reg_lookup_def)
  show ?thesis
    using reg.take_waiters[OF ok, of fd] reg.take_once[OF ok, of fd] ok look by (simp add: reg_ok_def)
qed

end
