(* ===== verification/Treiber.thy ===== *)
theory Treiber
  imports IoRegistry
begin

text \<open>
  The scheduled-task stack of the runtime crate (src/crates/runtime/scheduler.rs): a linked stack
  of heap nodes with a bounded freelist. Nodes live in an explicit store from addresses to nodes;
  reading or writing through an address that holds no node is the fault \<open>Wild_Pointer\<close>. Every operation
  here runs without interference, so each compare-and-swap succeeds the first time. The interface
  \<open>lifo_schedule\<close> is what the executor relies on.
\<close>

section \<open>State\<close>

record node =
  n_handle :: usize
  n_next :: usize

record 'w sched_machine = "'w io_machine" +
  nodes :: "usize \<rightharpoonup> node"
  sched_head :: usize
  free_head :: usize
  free_count :: usize

section \<open>The code\<close>

definition FREELIST_MAX :: usize where
  "FREELIST_MAX = 256"

definition load_node :: "usize \<Rightarrow> (('w, 'z) sched_machine_scheme, node) prog" where
  "load_node p = bind_p (get_p nodes) (\<lambda>h.
     case h p of None \<Rightarrow> raise_p Wild_Pointer | Some n \<Rightarrow> return_p n)"

definition store_node :: "usize \<Rightarrow> (node \<Rightarrow> node) \<Rightarrow> (('w, 'z) sched_machine_scheme, unit) prog" where
  "store_node p f = bind_p (load_node p) (\<lambda>n. modify_p (\<lambda>s. s\<lparr>nodes := (nodes s)(p \<mapsto> f n)\<rparr>))"

text \<open>\<open>Box::new\<close> of a node of 16 bytes; \<open>alloc\<close> returning null is \<open>handle_alloc_error\<close>.\<close>

definition NODE_LAYOUT :: layout where
  "NODE_LAYOUT = \<lparr>l_size = 16, l_align = 8\<rparr>"

definition box_node :: "'w kernel \<Rightarrow> node \<Rightarrow> (('w, 'z) sched_machine_scheme, usize) prog" where
  "box_node K n =
     bind_p (alloc K NODE_LAYOUT) (\<lambda>p.
     if p = 0 then raise_p Alloc_Error
     else bind_p (modify_p (\<lambda>s. s\<lparr>nodes := (nodes s)(p \<mapsto> n)\<rparr>)) (\<lambda>_. return_p p))"

definition alloc_node :: "'w kernel \<Rightarrow> usize \<Rightarrow> (('w, 'z) sched_machine_scheme, usize) prog" where
  "alloc_node K handle =
     bind_p (get_p free_head) (\<lambda>head.
     if head = 0 then box_node K \<lparr>n_handle = handle, n_next = 0\<rparr>
     else bind_p (load_node head) (\<lambda>n.
          bind_p (modify_p (\<lambda>s. s\<lparr>free_head := n_next n\<rparr>)) (\<lambda>_.
          bind_p (modify_p (\<lambda>s. s\<lparr>free_count := free_count s - 1\<rparr>)) (\<lambda>_.
          bind_p (store_node head (\<lambda>n. n\<lparr>n_handle := handle\<rparr>)) (\<lambda>_.
          bind_p (store_node head (\<lambda>n. n\<lparr>n_next := 0\<rparr>)) (\<lambda>_.
          return_p head))))))"

definition free_node :: "usize \<Rightarrow> (('w, 'z) sched_machine_scheme, unit) prog" where
  "free_node p =
     bind_p (get_p free_count) (\<lambda>count.
     if count < FREELIST_MAX
     then bind_p (get_p free_head) (\<lambda>head.
          bind_p (store_node p (\<lambda>n. n\<lparr>n_next := head\<rparr>)) (\<lambda>_.
          bind_p (modify_p (\<lambda>s. s\<lparr>free_head := p\<rparr>)) (\<lambda>_.
          modify_p (\<lambda>s. s\<lparr>free_count := free_count s + 1\<rparr>))))
     else bind_p (modify_p (\<lambda>s. s\<lparr>nodes := (nodes s)(p := None)\<rparr>)) (\<lambda>_.
          dealloc p NODE_LAYOUT))"

definition wake_handle :: "'w kernel \<Rightarrow> usize \<Rightarrow> (('w, 'z) sched_machine_scheme, unit) prog" where
  "wake_handle K handle =
     bind_p (alloc_node K handle) (\<lambda>p.
     bind_p (get_p sched_head) (\<lambda>head.
     bind_p (store_node p (\<lambda>n. n\<lparr>n_next := head\<rparr>)) (\<lambda>_.
     bind_p (modify_p (\<lambda>s. s\<lparr>sched_head := p\<rparr>)) (\<lambda>_.
     signal_eventfd K))))"

definition take_scheduled_task :: "(('w, 'z) sched_machine_scheme, usize option) prog" where
  "take_scheduled_task =
     bind_p (get_p sched_head) (\<lambda>head.
     if head = 0 then return_p None
     else bind_p (load_node head) (\<lambda>n.
          bind_p (modify_p (\<lambda>s. s\<lparr>sched_head := n_next n\<rparr>)) (\<lambda>_.
          bind_p (load_node head) (\<lambda>n.
          bind_p (free_node head) (\<lambda>_.
          return_p (Some (n_handle n)))))))"

text \<open>\<open>while !cur.is_null() && steps < 4096\<close>; \<open>n\<close> counts the steps left.\<close>

fun scheduled_loop :: "nat \<Rightarrow> usize \<Rightarrow> usize \<Rightarrow> (('w, 'z) sched_machine_scheme, bool) prog" where
  "scheduled_loop 0 target cur = return_p False"
| "scheduled_loop (Suc n) target cur =
     (if cur = 0 then return_p False
      else bind_p (load_node cur) (\<lambda>nd.
           if n_handle nd = target then return_p True
           else scheduled_loop n target (n_next nd)))"

definition is_handle_scheduled :: "usize \<Rightarrow> (('w, 'z) sched_machine_scheme, bool) prog" where
  "is_handle_scheduled target = bind_p (get_p sched_head) (scheduled_loop 4096 target)"

fun dump_loop :: "'w kernel \<Rightarrow> nat \<Rightarrow> usize \<Rightarrow> (('w, 'z) sched_machine_scheme, unit) prog" where
  "dump_loop K 0 cur = return_p ()"
| "dump_loop K (Suc n) cur =
     (if cur = 0 then return_p ()
      else bind_p (load_node cur) (\<lambda>nd.
           bind_p (ignore_p (sys_write K 1 (str ''handle: ''))) (\<lambda>_.
           bind_p (write_usize K 1 (n_handle nd)) (\<lambda>_.
           bind_p (ignore_p (sys_write K 1 (str ''\<newline>''))) (\<lambda>_.
           bind_p (load_node cur) (\<lambda>nd.
           dump_loop K n (n_next nd)))))))"

definition dump_scheduled :: "'w kernel \<Rightarrow> usize \<Rightarrow> (('w, 'z) sched_machine_scheme, unit) prog" where
  "dump_scheduled K limit = bind_p (get_p sched_head) (dump_loop K (unat limit))"

text \<open>
  A waker is the raw pointer made of its task's handle; its virtual table clones by copying,
  wakes by \<open>wake_handle\<close> and drops by doing nothing.
\<close>

definition create_waker :: "usize \<Rightarrow> waker" where
  "create_waker handle = handle"

definition clone_waker :: "waker \<Rightarrow> waker" where
  "clone_waker data = data"

definition wake_by_ref :: "'w kernel \<Rightarrow> waker \<Rightarrow> (('w, 'z) sched_machine_scheme, unit) prog" where
  "wake_by_ref K data = wake_handle K data"

definition wake_waker :: "'w kernel \<Rightarrow> waker \<Rightarrow> (('w, 'z) sched_machine_scheme, unit) prog" where
  "wake_waker K data = wake_by_ref K data"

definition drop_waker :: "waker \<Rightarrow> (('w, 'z) sched_machine_scheme, unit) prog" where
  "drop_waker data = return_p ()"

section \<open>The stack interface\<close>

text \<open>Taking until nothing is scheduled, at most \<open>n\<close> times.\<close>

fun pops :: "('s, usize option) prog \<Rightarrow> nat \<Rightarrow> ('s, usize list) prog" where
  "pops pop 0 = return_p []"
| "pops pop (Suc n) = bind_p pop (\<lambda>r. case r of None \<Rightarrow> return_p [] | Some h \<Rightarrow>
     bind_p (pops pop n) (\<lambda>hs. return_p (h # hs)))"

text \<open>
  What the executor relies on: a state represents the list of scheduled handles, top first; waking
  pushes or fails for lack of memory, taking pops, asking tells membership among the first \<open>n\<close>.
\<close>

locale lifo_schedule =
  fixes rep :: "'s \<Rightarrow> usize list \<Rightarrow> bool"
    and push :: "usize \<Rightarrow> ('s, unit) prog"
    and pop :: "('s, usize option) prog"
    and scheduled :: "usize \<Rightarrow> ('s, bool) prog"
    and horizon :: nat
  assumes push: "rep s hs \<Longrightarrow> (\<exists>t. push h s = Inr ((), t) \<and> rep t (h # hs)) \<or> (\<exists>t. push h s = Inl (Alloc_Error, t))"
    and pop_Nil: "rep s [] \<Longrightarrow> pop s = Inr (None, s)"
    and pop_Cons: "rep s (h # hs) \<Longrightarrow> \<exists>t. pop s = Inr (Some h, t) \<and> rep t hs"
    and scheduled: "rep s hs \<Longrightarrow> scheduled h s = Inr (h \<in> set (take horizon hs), s)"
begin

text \<open>Taking repeatedly gives every scheduled handle once, the last pushed first, and then nothing.\<close>

lemma pops_all: "rep s hs \<Longrightarrow> length hs < n \<Longrightarrow> \<exists>t. pops pop n s = Inr (hs, t) \<and> rep t []"
proof (induction hs arbitrary: n s)
  case Nil
  then obtain m where "n = Suc m" by (cases n) auto
  with Nil show ?case by (simp add: pop_Nil)
next
  case (Cons h hs)
  then obtain m where n: "n = Suc m" by (cases n) auto
  from pop_Cons[OF Cons.prems(1)] obtain t where t: "pop s = Inr (Some h, t)" "rep t hs" by blast
  with Cons.IH[of t m] Cons.prems n obtain u where "pops pop m t = Inr (hs, u)" "rep u []" by auto
  with t n show ?case by simp
qed

lemma push_pop:
  assumes "rep s hs" and "push h s = Inr ((), t)"
  shows "\<exists>u. pop t = Inr (Some h, u) \<and> rep u hs"
  using push[OF assms(1), of h] pop_Cons assms(2) by auto

end

section \<open>Representation\<close>

fun chain :: "(usize \<rightharpoonup> node) \<Rightarrow> usize \<Rightarrow> usize list \<Rightarrow> bool" where
  "chain h p [] \<longleftrightarrow> p = 0"
| "chain h p (a # as) \<longleftrightarrow> p = a \<and> a \<noteq> 0 \<and> (case h a of None \<Rightarrow> False | Some n \<Rightarrow> chain h (n_next n) as)"

definition handle_at :: "(usize \<rightharpoonup> node) \<Rightarrow> usize \<Rightarrow> usize" where
  "handle_at h p = (case h p of None \<Rightarrow> 0 | Some n \<Rightarrow> n_handle n)"

text \<open>
  The stack and the freelist are disjoint chains of nodes below the allocator's cursor; the
  counter is the freelist's length and stays within its bound.
\<close>

definition sched_shape ::
    "('w, 'z) sched_machine_scheme \<Rightarrow> usize list \<Rightarrow> usize list \<Rightarrow> bool" where
  "sched_shape s xs ys \<longleftrightarrow>
     heap_ok s \<and> (\<forall>p \<in> dom (nodes s). unat p + 16 \<le> unat (heap_cur s)) \<and>
     chain (nodes s) (sched_head s) xs \<and> chain (nodes s) (free_head s) ys \<and> distinct (xs @ ys) \<and>
     unat (free_count s) = length ys \<and> length ys \<le> unat FREELIST_MAX"

definition sched_rep :: "('w, 'z) sched_machine_scheme \<Rightarrow> usize list \<Rightarrow> bool" where
  "sched_rep s hs \<longleftrightarrow> (\<exists>xs ys. sched_shape s xs ys \<and> map (handle_at (nodes s)) xs = hs)"

lemma chain_upd [simp]: "a \<notin> set xs \<Longrightarrow> chain (h(a := v)) p xs = chain h p xs"
  by (induction xs arbitrary: p) (auto split: option.splits)

lemma chain_null [simp]: "chain h 0 xs \<longleftrightarrow> xs = []"
  by (cases xs) auto

lemma chain_dom: "chain h p xs \<Longrightarrow> set xs \<subseteq> dom h \<and> 0 \<notin> set xs"
  by (induction xs arbitrary: p) (auto split: option.splits)

lemma chain_headE:
  assumes "chain h p xs" and "p \<noteq> 0"
  obtains n as where "xs = p # as" and "h p = Some n" and "chain h (n_next n) as"
  using assms by (cases xs) (auto split: option.splits)

lemma handle_at_upd [simp]:
  "a \<notin> set xs \<Longrightarrow> map (handle_at (h(a := v))) xs = map (handle_at h) xs"
  by (auto simp: handle_at_def)

lemma heap_ok_sched [simp]:
  "heap_ok (s\<lparr>nodes := N\<rparr>) = heap_ok s" "heap_ok (s\<lparr>sched_head := p\<rparr>) = heap_ok s"
  "heap_ok (s\<lparr>free_head := p\<rparr>) = heap_ok s" "heap_ok (s\<lparr>free_count := c\<rparr>) = heap_ok s"
  by (simp_all add: heap_ok_def)

lemma load_node_Some [simp]: "nodes s p = Some n \<Longrightarrow> load_node p s = Inr (n, s)"
  by (simp add: load_node_def)

lemma load_node_None [simp]: "nodes s p = None \<Longrightarrow> load_node p s = Inl (Wild_Pointer, s)"
  by (simp add: load_node_def raise_p_def)

lemma store_node_Some [simp]:
  "nodes s p = Some n \<Longrightarrow> store_node p f s = Inr ((), s\<lparr>nodes := (nodes s)(p \<mapsto> f n)\<rparr>)"
  by (simp add: store_node_def)

lemma unat_FREELIST_MAX: "unat FREELIST_MAX = 256"
  by (simp add: FREELIST_MAX_def)

lemma NODE_LAYOUT_ok: "layout_ok NODE_LAYOUT" "l_size NODE_LAYOUT \<noteq> 0" "unat (l_size NODE_LAYOUT) = 16"
  by (simp_all add: layout_ok_def NODE_LAYOUT_def upt_rec)

text \<open>What a step that leaves the nodes alone keeps.\<close>

lemma sched_shape_frame:
  assumes "sched_shape s xs ys"
    and "nodes t = nodes s" "sched_head t = sched_head s" "free_head t = free_head s"
      "free_count t = free_count s"
    and "heap_ok t" and "unat (heap_cur s) \<le> unat (heap_cur t)"
  shows "sched_shape t xs ys"
proof -
  have "unat p + 16 \<le> unat (heap_cur t)" if "p \<in> dom (nodes s)" for p
    using that assms(1,7) by (auto simp: sched_shape_def intro: le_trans)
  with assms show ?thesis by (simp add: sched_shape_def)
qed

lemma beyond_eventfd_sched:
  assumes "beyond_eventfd t = beyond_eventfd s"
  shows "nodes t = nodes s" "sched_head t = sched_head s" "free_head t = free_head s"
    "free_count t = free_count s" "heap_cur t = heap_cur s" "heap_ok t = heap_ok s"
    "sched_machine.more t = sched_machine.more s"
  using assms by (cases s; cases t; simp add: beyond_eventfd_def heap_ok_def)+

lemma more_heap_sched:
  assumes "heap_machine.more t = heap_machine.more s"
  shows "nodes t = nodes s" "sched_head t = sched_head s" "free_head t = free_head s"
    "free_count t = free_count s"
  using assms by (cases s; cases t; simp)+

lemma alloc_node_recycles:
  assumes shape: "sched_shape s xs (y # as)"
  obtains t where "alloc_node K h s = Inr (y, t)" and "sched_shape t xs as" and "y \<noteq> 0"
    and "y \<notin> set (xs @ as)" and "nodes t = (nodes s)(y \<mapsto> \<lparr>n_handle = h, n_next = 0\<rparr>)"
    and "sched_head t = sched_head s" and "heap_cur t = heap_cur s"
proof -
  from shape obtain n where y: "free_head s = y" "y \<noteq> 0" "nodes s y = Some n" "chain (nodes s) (n_next n) as"
    by (auto simp: sched_shape_def split: option.splits)
  let ?t = "s\<lparr>free_head := n_next n, free_count := free_count s - 1,
    nodes := (nodes s)(y \<mapsto> \<lparr>n_handle = h, n_next = 0\<rparr>)\<rparr>"
  have "free_count s \<noteq> 0" using shape by (auto simp: sched_shape_def)
  then have "unat (free_count s - 1) = unat (free_count s) - 1" by (simp add: unat_minus_one)
  then have "sched_shape ?t xs as" "y \<notin> set (xs @ as)"
    using shape y by (auto simp: sched_shape_def heap_ok_def)
  moreover have "alloc_node K h s = Inr (y, ?t)"
    using y by (cases n) (simp add: alloc_node_def)
  ultimately show thesis using y(2) by (intro that[of ?t]) simp_all
qed

lemma box_node_spec:
  assumes heap: "heap_ok s" "\<forall>p \<in> dom (nodes s). unat p + 16 \<le> unat (heap_cur s)" and K: "mmap_ok K"
  shows "(\<exists>p t. box_node K n s = Inr (p, t) \<and> p \<noteq> 0 \<and> p \<notin> dom (nodes s) \<and> nodes t = (nodes s)(p \<mapsto> n) \<and>
      sched_head t = sched_head s \<and> free_head t = free_head s \<and> free_count t = free_count s \<and>
      heap_ok t \<and> (\<forall>q \<in> dom (nodes t). unat q + 16 \<le> unat (heap_cur t))) \<or>
    (\<exists>t. box_node K n s = Inl (Alloc_Error, t))"
proof -
  obtain p u where a: "alloc K NODE_LAYOUT s = Inr (p, u)" "heap_ok u"
      "heap_machine.more u = heap_machine.more s" "unat (heap_cur s) \<le> unat (heap_cur u)"
      "p = 0 \<or> unat (heap_cur s) \<le> unat p \<and> unat (l_align NODE_LAYOUT) dvd unat p \<and>
        unat p + unat (l_size NODE_LAYOUT) = unat (heap_cur u) \<and> unat (heap_cur u) \<le> unat (heap_end u)"
    by (rule alloc_spec[OF heap(1) K NODE_LAYOUT_ok(1,2)])
  note m = more_heap_sched[OF a(3)]
  show ?thesis
  proof (cases "p = 0")
    case True
    with a(1) show ?thesis by (simp add: box_node_def raise_p_def)
  next
    case False
    have above: "unat (heap_cur s) \<le> unat p" "unat p + 16 = unat (heap_cur u)"
      using a(5) False NODE_LAYOUT_ok(3) by auto
    have fresh: "p \<notin> dom (nodes s)" using heap(2) above(1) by force
    have below: "unat q + 16 \<le> unat (heap_cur u)" if "q \<in> dom (nodes s)" for q
      using heap(2) a(4) that by (auto intro: le_trans)
    let ?t = "u\<lparr>nodes := (nodes u)(p \<mapsto> n)\<rparr>"
    have "box_node K n s = Inr (p, ?t)" using a(1) False by (simp add: box_node_def)
    moreover have "heap_ok ?t" using a(2) by simp
    moreover have "\<forall>q \<in> dom (nodes ?t). unat q + 16 \<le> unat (heap_cur ?t)"
      using below above(2) m(1) by auto
    ultimately show ?thesis using fresh m False by (intro disjI1 exI[of _ p] exI[of _ ?t]) simp
  qed
qed

lemma alloc_node_spec:
  assumes shape: "sched_shape s xs ys" and K: "mmap_ok K"
  shows "(\<exists>p t ys'. alloc_node K h s = Inr (p, t) \<and> sched_shape t xs ys' \<and> p \<noteq> 0 \<and>
      p \<notin> set (xs @ ys') \<and> nodes t = (nodes s)(p \<mapsto> \<lparr>n_handle = h, n_next = 0\<rparr>) \<and>
      sched_head t = sched_head s) \<or>
    (\<exists>t. alloc_node K h s = Inl (Alloc_Error, t))"
proof (cases "free_head s = 0")
  case True
  let ?n = "\<lparr>n_handle = h, n_next = 0\<rparr>"
  have heap: "heap_ok s" "\<forall>p \<in> dom (nodes s). unat p + 16 \<le> unat (heap_cur s)"
    and fresh: "\<And>p. p \<notin> dom (nodes s) \<Longrightarrow> p \<notin> set (xs @ ys)"
    using shape chain_dom[of "nodes s"] by (fastforce simp: sched_shape_def)+
  have "alloc_node K h s = box_node K ?n s" using True by (simp add: alloc_node_def)
  with box_node_spec[OF heap K, of ?n] show ?thesis
  proof (elim disjE exE conjE)
    fix p t assume t: "box_node K ?n s = Inr (p, t)" "p \<noteq> 0" "p \<notin> dom (nodes s)" "nodes t = (nodes s)(p \<mapsto> ?n)"
      "sched_head t = sched_head s" "free_head t = free_head s" "free_count t = free_count s"
      "heap_ok t" "\<forall>q \<in> dom (nodes t). unat q + 16 \<le> unat (heap_cur t)"
    with shape fresh[OF t(3)] have "sched_shape t xs ys" by (simp add: sched_shape_def)
    with t fresh[OF t(3)] \<open>alloc_node K h s = box_node K ?n s\<close> show ?thesis by auto
  qed simp
next
  case False
  with shape obtain y as where "ys = y # as" by (cases ys) (auto simp: sched_shape_def)
  with shape have "sched_shape s xs (y # as)" by simp
  then show ?thesis by (rule alloc_node_recycles) (intro disjI1 exI conjI)
qed

text \<open>The push itself, once a node is at hand.\<close>

lemma push_node_spec:
  assumes a: "alloc_node K h s = Inr (p, t)" and sh: "sched_shape t xs ys" and p: "p \<noteq> 0" "p \<notin> set (xs @ ys)"
    and n: "nodes t = (nodes s)(p \<mapsto> \<lparr>n_handle = h, n_next = 0\<rparr>)" and hd: "sched_head t = sched_head s"
  obtains v where "wake_handle K h s = Inr ((), v)" and "sched_shape v (p # xs) ys"
    and "map (handle_at (nodes v)) (p # xs) = h # map (handle_at (nodes s)) xs"
    and "heap_cur v = heap_cur t"
proof -
  let ?u = "t\<lparr>nodes := (nodes t)(p \<mapsto> \<lparr>n_handle = h, n_next = sched_head t\<rparr>), sched_head := p\<rparr>"
  have "sched_shape ?u (p # xs) ys" using sh p n by (auto simp: sched_shape_def heap_ok_def)
  moreover obtain v where v: "signal_eventfd K ?u = Inr ((), v)" "beyond_eventfd v = beyond_eventfd ?u"
    using quiet_signal_eventfd by (rule quietE) auto
  note f = beyond_eventfd_sched[OF v(2)]
  ultimately have "sched_shape v (p # xs) ys"
    by (intro sched_shape_frame[OF _ f(1-4)]) (auto simp: f sched_shape_def)
  moreover have "wake_handle K h s = Inr ((), v)"
    using a n v(1) by (simp add: wake_handle_def)
  moreover have "map (handle_at (nodes v)) (p # xs) = h # map (handle_at (nodes s)) xs"
    using f(1) n p by (simp add: handle_at_def)
  ultimately show thesis using f(5) by (intro that[of v]) simp_all
qed

lemma wake_handle_spec:
  assumes shape: "sched_shape s xs ys" and K: "mmap_ok K"
  shows "(\<exists>p t ys'. wake_handle K h s = Inr ((), t) \<and> sched_shape t (p # xs) ys' \<and>
      map (handle_at (nodes t)) (p # xs) = h # map (handle_at (nodes s)) xs) \<or>
    (\<exists>t. wake_handle K h s = Inl (Alloc_Error, t))"
  using alloc_node_spec[OF assms, of h]
proof (elim disjE exE conjE)
  fix p t ys'
  assume "alloc_node K h s = Inr (p, t)" "sched_shape t xs ys'" "p \<noteq> 0" "p \<notin> set (xs @ ys')"
    "nodes t = (nodes s)(p \<mapsto> \<lparr>n_handle = h, n_next = 0\<rparr>)" "sched_head t = sched_head s"
  from push_node_spec[OF this] show ?thesis by (metis (no_types))
qed (auto simp: wake_handle_def)

lemma free_node_spec:
  assumes shape: "sched_shape s xs ys" and p: "p \<notin> set (xs @ ys)" "p \<noteq> 0" "nodes s p = Some n"
  obtains t ys' where "free_node p s = Inr ((), t)" and "sched_shape t xs ys'"
    and "map (handle_at (nodes t)) xs = map (handle_at (nodes s)) xs"
    and "ys' = (if length ys < 256 then p # ys else ys)"
proof (cases "length ys < 256")
  case True
  let ?t = "s\<lparr>nodes := (nodes s)(p \<mapsto> n\<lparr>n_next := free_head s\<rparr>), free_head := p,
    free_count := free_count s + 1\<rparr>"
  have lt: "free_count s < FREELIST_MAX"
    using True shape by (simp add: sched_shape_def word_less_nat_alt unat_FREELIST_MAX)
  then have "unat (free_count s + 1) = Suc (length ys)"
    using shape True by (simp add: sched_shape_def unat_word_ariths)
  with shape p True have "sched_shape ?t xs (p # ys)"
    by (auto simp: sched_shape_def heap_ok_def unat_FREELIST_MAX)
  moreover have "free_node p s = Inr ((), ?t)" using lt p by (simp add: free_node_def)
  ultimately show thesis using p(1) True by (intro that[of ?t "p # ys"]) simp_all
next
  case False
  let ?t = "s\<lparr>nodes := (nodes s)(p := None)\<rparr>"
  have "\<not> free_count s < FREELIST_MAX"
    using False shape by (simp add: sched_shape_def word_less_nat_alt unat_FREELIST_MAX)
  then have "free_node p s = Inr ((), ?t)" by (simp add: free_node_def dealloc_def)
  moreover have "sched_shape ?t xs ys" using shape p by (auto simp: sched_shape_def heap_ok_def)
  ultimately show thesis using p(1) False by (intro that[of ?t ys]) simp_all
qed

lemma take_spec:
  assumes shape: "sched_shape s (p # xs) ys"
  obtains t ys' where "take_scheduled_task s = Inr (Some (handle_at (nodes s) p), t)"
    and "sched_shape t xs ys'" and "map (handle_at (nodes t)) xs = map (handle_at (nodes s)) xs"
    and "ys' = (if length ys < 256 then p # ys else ys)"
proof -
  from shape obtain n where p: "sched_head s = p" "p \<noteq> 0" "nodes s p = Some n" "chain (nodes s) (n_next n) xs"
    by (auto simp: sched_shape_def split: option.splits)
  let ?u = "s\<lparr>sched_head := n_next n\<rparr>"
  have u: "sched_shape ?u xs ys" "p \<notin> set (xs @ ys)" "nodes ?u p = Some n"
    using shape p by (auto simp: sched_shape_def heap_ok_def)
  obtain t ys' where t: "free_node p ?u = Inr ((), t)" "sched_shape t xs ys'"
      "map (handle_at (nodes t)) xs = map (handle_at (nodes ?u)) xs" "ys' = (if length ys < 256 then p # ys else ys)"
    by (rule free_node_spec[OF u(1,2) p(2) u(3)])
  show thesis
    using p t by (intro that[of t ys']) (simp_all add: take_scheduled_task_def handle_at_def)
qed

lemma scheduled_loop_spec:
  "chain (nodes s) cur xs \<Longrightarrow>
    scheduled_loop n target cur s = Inr (target \<in> set (take n (map (handle_at (nodes s)) xs)), s)"
proof (induction n arbitrary: cur xs)
  case (Suc n)
  show ?case
  proof (cases "cur = 0")
    case True
    with Suc.prems show ?thesis by simp
  next
    case False
    obtain nd as where nd: "xs = cur # as" "nodes s cur = Some nd" "chain (nodes s) (n_next nd) as"
      by (rule chain_headE[OF Suc.prems False])
    from False nd(1,2) Suc.IH[OF nd(3)] show ?thesis by (auto simp: handle_at_def)
  qed
qed simp

interpretation lifo: lifo_schedule "\<lambda>s hs. mmap_ok K \<and> sched_rep s hs" "wake_handle K" take_scheduled_task
    is_handle_scheduled 4096 for K :: "'w kernel"
proof
  fix s :: "('w, 'z) sched_machine_scheme" and hs h assume "mmap_ok K \<and> sched_rep s hs"
  then obtain xs ys where "mmap_ok K" "sched_shape s xs ys" "map (handle_at (nodes s)) xs = hs"
    by (auto simp: sched_rep_def)
  with wake_handle_spec[of s xs ys K h]
  have "(\<exists>p t ys'. wake_handle K h s = Inr ((), t) \<and> sched_shape t (p # xs) ys' \<and>
      map (handle_at (nodes t)) (p # xs) = h # hs) \<or> (\<exists>t. wake_handle K h s = Inl (Alloc_Error, t))"
    by simp
  with \<open>mmap_ok K\<close> show "(\<exists>t. wake_handle K h s = Inr ((), t) \<and> mmap_ok K \<and> sched_rep t (h # hs)) \<or>
      (\<exists>t. wake_handle K h s = Inl (Alloc_Error, t))"
    unfolding sched_rep_def by (elim disjE exE conjE) (intro disjI1 exI conjI, assumption+, intro disjI2 exI)
next
  fix s :: "('w, 'z) sched_machine_scheme" assume "mmap_ok K \<and> sched_rep s []"
  then show "take_scheduled_task s = Inr (None, s)"
    by (auto simp: sched_rep_def sched_shape_def take_scheduled_task_def)
next
  fix s :: "('w, 'z) sched_machine_scheme" and h hs assume "mmap_ok K \<and> sched_rep s (h # hs)"
  then obtain p xs ys where "mmap_ok K" "sched_shape s (p # xs) ys"
      "handle_at (nodes s) p = h" "map (handle_at (nodes s)) xs = hs"
    unfolding sched_rep_def by (auto simp: Cons_eq_map_conv map_eq_Cons_conv)
  then show "\<exists>t. take_scheduled_task s = Inr (Some h, t) \<and> mmap_ok K \<and> sched_rep t hs"
    unfolding sched_rep_def by (metis take_spec)
next
  fix s :: "('w, 'z) sched_machine_scheme" and hs h assume "mmap_ok K \<and> sched_rep s hs"
  then show "is_handle_scheduled h s = Inr (h \<in> set (take 4096 hs), s)"
    by (auto simp: sched_rep_def sched_shape_def is_handle_scheduled_def scheduled_loop_spec)
qed

section \<open>Frame\<close>

text \<open>Waking leaves the registry, the log descriptor and whatever extends the state alone, even when it fails.\<close>

definition beyond_sched :: "('w, 'z) sched_machine_scheme \<Rightarrow> i32 \<times> io_entry list \<times> usize \<times> 'z" where
  "beyond_sched s = (log_fd s, io_reg s, event_pending s, sched_machine.more s)"

lemma keeps_beyond_sched: "quiet beyond_eventfd m \<Longrightarrow> keeps beyond_sched m"
proof (rule keeps_coarse[OF quiet_keeps])
  fix s t :: "('w, 'z) sched_machine_scheme" assume "beyond_eventfd t = beyond_eventfd s"
  then show "beyond_sched t = beyond_sched s"
    by (cases s; cases t) (simp add: beyond_eventfd_def beyond_sched_def)
qed

lemmas keeps_syscalls = quiet_syscalls[THEN quiet_beyond_eventfd, THEN keeps_beyond_sched]

lemma keeps_load_node [keeps_intros]: "keeps f (load_node p)"
  unfolding load_node_def by (intro keeps_intros)

lemma keeps_store_node [keeps_intros]: "keeps beyond_sched (store_node p f)"
  unfolding store_node_def by (intro keeps_intros) (simp add: beyond_sched_def)

lemma keeps_alloc: "keeps beyond_sched (alloc K l)"
  unfolding alloc_def init_heap_def
  by (intro keeps_intros keeps_syscalls; simp add: beyond_sched_def)

lemma keeps_alloc_node: "keeps beyond_sched (alloc_node K h)"
  unfolding alloc_node_def box_node_def
  by (intro keeps_intros keeps_alloc; simp add: beyond_sched_def)

lemma keeps_wake_handle [keeps_intros]: "keeps beyond_sched (wake_handle K h)"
  unfolding wake_handle_def
  by (intro keeps_intros keeps_alloc_node quiet_signal_eventfd[THEN keeps_beyond_sched])
    (simp add: beyond_sched_def)

lemma keeps_take [keeps_intros]: "keeps beyond_sched take_scheduled_task"
  unfolding take_scheduled_task_def free_node_def dealloc_def
  by (intro keeps_intros; simp add: beyond_sched_def)

section \<open>Properties\<close>

lemma wakes_spec:
  "mmap_ok K \<Longrightarrow> sched_rep s hs \<Longrightarrow>
    (\<exists>t. seqs (map (wake_handle K) ws) s = Inr ((), t) \<and> sched_rep t (rev ws @ hs)) \<or>
    (\<exists>t. seqs (map (wake_handle K) ws) s = Inl (Alloc_Error, t))"
proof (induction ws arbitrary: s hs)
  case (Cons w ws)
  from lifo.push[of K s hs w] Cons.prems consider
    (ok) u where "wake_handle K w s = Inr ((), u)" "sched_rep u (w # hs)"
    | (err) u where "wake_handle K w s = Inl (Alloc_Error, u)" by auto
  then show ?case
  proof cases
    case ok
    with Cons.IH[OF Cons.prems(1) ok(2)] show ?thesis by simp
  qed simp
qed simp

definition fresh_sched :: "unit sched_machine" where
  "fresh_sched = \<lparr>kst = (), calls = [], mem = Map.empty, heap_start = 0, heap_cur = 0, heap_end = 0,
     log_fd = 1, io_reg = [], eventfd = -1, event_pending = 0,
     nodes = Map.empty, sched_head = 0, free_head = 0, free_count = 0\<rparr>"

lemma fresh_sched_rep: "sched_rep fresh_sched []"
  by (simp add: sched_rep_def sched_shape_def fresh_sched_def heap_ok_def exI[of _ "[]"])

text \<open>
  C12: The task schedule is a stack that loses and duplicates nothing. From any well-formed state
  whose schedule is \<open>hs\<close>, waking a list of handles and then taking until nothing is left
  returns exactly the woken handles, last first, followed by \<open>hs\<close>; the only way out is an
  allocation failure of the node allocator. No access ever goes through an address that holds no
  node.
\<close>

theorem wake_take_lifo:
  assumes "mmap_ok K" and "sched_rep s hs" and "length ws + length hs < n"
  shows "(\<exists>t. bind_p (seqs (map (wake_handle K) ws)) (\<lambda>_. pops take_scheduled_task n) s =
        Inr (rev ws @ hs, t) \<and> sched_rep t []) \<or>
    (\<exists>t. bind_p (seqs (map (wake_handle K) ws)) (\<lambda>_. pops take_scheduled_task n) s = Inl (Alloc_Error, t))"
  using wakes_spec[OF assms(1,2), of ws]
proof (elim disjE exE conjE)
  fix t assume "seqs (map (wake_handle K) ws) s = Inr ((), t)" "sched_rep t (rev ws @ hs)"
  with lifo.pops_all[of K t "rev ws @ hs" n] assms(1,3) show ?thesis by auto
qed simp

text \<open>Three wakes on a concrete kernel: three nodes are allocated and nothing fails.\<close>

lemma three_wakes:
  "\<exists>t. seqs (map (wake_handle (one_map_kernel 0x10000)) [5, 6, 7]) fresh_sched = Inr ((), t)"
proof -
  let ?K = "one_map_kernel 0x10000" and ?e = "0x10000 + HEAP_SIZE"
  have "bump 0x10000 ?e NODE_LAYOUT = Some (0x10000, 0x10010)" "bump 0x10010 ?e NODE_LAYOUT = Some (0x10010, 0x10020)"
    "bump 0x10020 ?e NODE_LAYOUT = Some (0x10020, 0x10030)"
    by (simp_all add: bump_def HEAP_SIZE_def NODE_LAYOUT_def Let_def)
  moreover have "l_size NODE_LAYOUT \<noteq> 0" by (rule NODE_LAYOUT_ok)
  ultimately show ?thesis
    by (simp add: wake_handle_def alloc_node_def box_node_def alloc_def init_heap_def mmap_def
        signal_eventfd_def ensure_eventfd_def eventfd_call_def fd_or_minus1_def raw_syscalls do_syscall_def
        one_map_kernel_def fresh_sched_def bind_p_def load_node_def store_node_def)
qed

theorem wake_take_lifo_witness:
  "\<exists>t. bind_p (seqs (map (wake_handle (one_map_kernel 0x10000)) [5, 6, 7])) (\<lambda>_. pops take_scheduled_task 4)
     fresh_sched = Inr ([7, 6, 5], t) \<and> sched_rep t []"
proof -
  obtain u where u: "seqs (map (wake_handle (one_map_kernel 0x10000)) [5, 6, 7]) fresh_sched = Inr ((), u)"
    using three_wakes by blast
  have "sched_rep u [7, 6, 5]"
    using wakes_spec[of "one_map_kernel 0x10000" fresh_sched "[]" "[5, 6, 7]"] u
      one_map_kernel_ok[of "0x10000"] fresh_sched_rep by simp
  with lifo.pops_all[of "one_map_kernel 0x10000" u "[7, 6, 5]" 4] one_map_kernel_ok[of "0x10000"] u
  have "\<not> (\<exists>t. bind_p (seqs (map (wake_handle (one_map_kernel 0x10000)) [5, 6, 7]))
      (\<lambda>_. pops take_scheduled_task 4) fresh_sched = Inl (Alloc_Error, t))"
    by auto
  with wake_take_lifo[of "one_map_kernel 0x10000" fresh_sched "[]" "[5, 6, 7]" 4]
    one_map_kernel_ok[of "0x10000"] fresh_sched_rep show ?thesis by simp
qed

text \<open>
  C35: In the steady state scheduling allocates nothing. After a task has been taken, waking any
  handle succeeds, whatever the kernel answers: its node comes from the freelist, and the
  allocator's cursor does not move.
\<close>

theorem wake_after_take_recycles:
  assumes "sched_rep s (h # hs)"
  shows "\<exists>t u. take_scheduled_task s = Inr (Some h, t) \<and> wake_handle K h' t = Inr ((), u) \<and>
    sched_rep u (h' # hs) \<and> heap_cur u = heap_cur t"
proof -
  from assms obtain p xs ys where s: "sched_shape s (p # xs) ys" "handle_at (nodes s) p = h"
      "map (handle_at (nodes s)) xs = hs"
    unfolding sched_rep_def by (auto simp: map_eq_Cons_conv)
  obtain t ys' where t: "take_scheduled_task s = Inr (Some (handle_at (nodes s) p), t)" "sched_shape t xs ys'"
      "map (handle_at (nodes t)) xs = map (handle_at (nodes s)) xs" "ys' = (if length ys < 256 then p # ys else ys)"
    by (rule take_spec[OF s(1)])
  from t(4) obtain y as where "ys' = y # as" by (cases ys') (auto split: if_splits)
  with t(2) have sh: "sched_shape t xs (y # as)" by simp
  obtain v where v: "alloc_node K h' t = Inr (y, v)" "sched_shape v xs as" "y \<noteq> 0" "y \<notin> set (xs @ as)"
      "nodes v = (nodes t)(y \<mapsto> \<lparr>n_handle = h', n_next = 0\<rparr>)" "sched_head v = sched_head t" "heap_cur v = heap_cur t"
    by (rule alloc_node_recycles[OF sh])
  obtain u where "wake_handle K h' t = Inr ((), u)" "sched_shape u (y # xs) as"
      "map (handle_at (nodes u)) (y # xs) = h' # map (handle_at (nodes t)) xs" "heap_cur u = heap_cur v"
    by (rule push_node_spec[OF v(1-6)])
  with t(1,3) s(2,3) v(7) show ?thesis unfolding sched_rep_def by auto
qed

definition one_task_sched :: "unit sched_machine" where
  "one_task_sched = fresh_sched\<lparr>heap_start := 0x10000, heap_cur := 0x10010, heap_end := 0x10000 + HEAP_SIZE,
     nodes := [0x10000 \<mapsto> \<lparr>n_handle = 5, n_next = 0\<rparr>], sched_head := 0x10000\<rparr>"

theorem wake_after_take_recycles_witness:
  "\<exists>t u. take_scheduled_task one_task_sched = Inr (Some 5, t) \<and>
     wake_handle (one_map_kernel 0) 9 t = Inr ((), u) \<and> sched_rep u [9] \<and> heap_cur u = heap_cur t"
proof -
  have "sched_shape one_task_sched [0x10000] []"
    by (simp add: sched_shape_def one_task_sched_def fresh_sched_def heap_ok_def HEAP_SIZE_def)
  moreover have "map (handle_at (nodes one_task_sched)) [0x10000] = [5]"
    by (simp add: one_task_sched_def handle_at_def)
  ultimately have "sched_rep one_task_sched [5]" unfolding sched_rep_def by (intro exI conjI)
  then show ?thesis by (rule wake_after_take_recycles)
qed

end
