(* ===== verification/Net.thy ===== *)
theory Net
  imports Treiber
begin

text \<open>
  The leaf futures of the net crate (src/crates/net/lib.rs): accept, connect, receive and send on
  a non-blocking socket. Each poll makes one system call; when the kernel answers
  \<open>EAGAIN\<close> the future registers its waker, once, and stays pending. The interface
  \<open>leaf_future\<close> is what the connection tasks rely on.
\<close>

section \<open>The code\<close>

definition AF_INET :: i32 where "AF_INET = 2"
definition SOCK_STREAM :: i32 where "SOCK_STREAM = 1"

record sock_addr_in =
  sin_family :: u16
  sin_port :: u16
  sin_addr :: u32
  sin_zero :: bytes

text \<open>Buffer helpers of the runtime crate. A vector of a given length is allocated or aborts; here it exists.\<close>

definition vec_with_len :: "nat \<Rightarrow> bytes" where
  "vec_with_len len = replicate len 0"

definition set_vec_len :: "bytes \<Rightarrow> nat \<Rightarrow> bytes" where
  "set_vec_len v new_len = take new_len v"

text \<open>The bytes behind a pointer valid for \<open>len\<close> reads, given as what it points to.\<close>

definition vec_from_ptr :: "bytes \<Rightarrow> nat \<Rightarrow> bytes" where
  "vec_from_ptr src len = take len src"

record accept_future =
  af_fd :: i32
  af_registered :: bool

record connect_future =
  cf_fd :: i32
  cf_addr :: bytes
  cf_addrlen :: nat
  cf_registered :: bool

record recv_future =
  rf_fd :: i32
  rf_buf :: bytes
  rf_registered :: bool

record send_future =
  sf_fd :: i32
  sf_buf :: bytes
  sf_registered :: bool

definition accept_new :: "i32 \<Rightarrow> accept_future" where
  "accept_new fd = \<lparr>af_fd = fd, af_registered = False\<rparr>"

definition connect_new :: "i32 \<Rightarrow> bytes \<Rightarrow> nat \<Rightarrow> connect_future" where
  "connect_new fd addr addrlen =
     \<lparr>cf_fd = fd, cf_addr = vec_from_ptr addr addrlen, cf_addrlen = addrlen, cf_registered = False\<rparr>"

definition recv_new :: "i32 \<Rightarrow> nat \<Rightarrow> recv_future" where
  "recv_new fd cap = \<lparr>rf_fd = fd, rf_buf = vec_with_len cap, rf_registered = False\<rparr>"

definition send_new :: "i32 \<Rightarrow> bytes \<Rightarrow> send_future" where
  "send_new fd data = \<lparr>sf_fd = fd, sf_buf = data, sf_registered = False\<rparr>"

definition poll_accept ::
    "'w kernel \<Rightarrow> accept_future \<Rightarrow> waker \<Rightarrow> (('w, 'z) io_machine_scheme, (isize, accept_future) poll) prog" where
  "poll_accept K f cx =
     bind_p (accept4 K (af_fd f) 32 32 0) (\<lambda>r.
     if \<not> neg r then return_p (Ready r)
     else if r = -11
     then bind_p (if \<not> af_registered f then register_fd_waker (af_fd f) 0x0001 (clone_waker cx) else return_p ()) (\<lambda>_.
          return_p (Pending (f\<lparr>af_registered := True\<rparr>)))
     else return_p (Ready r))"

definition poll_connect ::
    "'w kernel \<Rightarrow> connect_future \<Rightarrow> waker \<Rightarrow> (('w, 'z) io_machine_scheme, (isize, connect_future) poll) prog" where
  "poll_connect K f cx =
     bind_p (connect K (cf_fd f) (cf_addr f) (cf_addrlen f)) (\<lambda>r.
     if \<not> neg r then return_p (Ready r)
     else if r = -115 \<or> r = -11
     then bind_p (if \<not> cf_registered f then register_fd_waker (cf_fd f) 0x0004 (clone_waker cx) else return_p ()) (\<lambda>_.
          return_p (Pending (f\<lparr>cf_registered := True\<rparr>)))
     else return_p (Ready r))"

text \<open>A returned buffer is taken out of the future, which is not polled again.\<close>

definition poll_recv ::
    "'w kernel \<Rightarrow> recv_future \<Rightarrow> waker \<Rightarrow> (('w, 'z) io_machine_scheme, (bytes, recv_future) poll) prog" where
  "poll_recv K f cx =
     bind_p (recvfrom K (rf_fd f) (rf_buf f) 0 PtrNull PtrNull) (\<lambda>(r, buf).
     if 0 < sint r then return_p (Ready (set_vec_len buf (unat r)))
     else if r = 0 then return_p (Ready (set_vec_len buf 0))
     else if r = -11
     then bind_p (if \<not> rf_registered f then register_fd_waker (rf_fd f) 0x0001 (clone_waker cx) else return_p ()) (\<lambda>_.
          return_p (Pending (f\<lparr>rf_buf := buf, rf_registered := True\<rparr>)))
     else return_p (Ready (set_vec_len buf 0)))"

definition poll_send ::
    "'w kernel \<Rightarrow> send_future \<Rightarrow> waker \<Rightarrow> (('w, 'z) io_machine_scheme, (isize, send_future) poll) prog" where
  "poll_send K f cx =
     bind_p (sendto K (sf_fd f) (sf_buf f) 0 PtrNull 0) (\<lambda>r.
     if \<not> neg r then return_p (Ready r)
     else if r = -11
     then bind_p (if \<not> sf_registered f then register_fd_waker (sf_fd f) 0x0004 (clone_waker cx) else return_p ()) (\<lambda>_.
          return_p (Pending (f\<lparr>sf_registered := True\<rparr>)))
     else return_p (Ready r))"

section \<open>The interface of a leaf future\<close>

text \<open>The registry after a poll that is still pending.\<close>

definition registers :: "bool \<Rightarrow> i32 \<Rightarrow> i16 \<Rightarrow> waker \<Rightarrow> io_entry list \<Rightarrow> io_entry list" where
  "registers registered fd ev cx reg = (if registered then reg else reg_add fd ev cx reg)"

text \<open>Everything a poll of a leaf future leaves alone.\<close>

definition beyond_reg ::
    "('w, 'z) io_machine_scheme \<Rightarrow> (u64 \<rightharpoonup> u64) \<times> usize \<times> usize \<times> usize \<times> i32 \<times> i32 \<times> usize \<times> 'z" where
  "beyond_reg s =
     (mem s, heap_start s, heap_cur s, heap_end s, log_fd s, eventfd s, event_pending s, io_machine.more s)"

locale leaf_future =
  fixes poll :: "'f \<Rightarrow> waker \<Rightarrow> (('w, 'z) io_machine_scheme, ('o, 'f) poll) prog"
    and fd :: "'f \<Rightarrow> i32"
    and events :: i16
    and registered :: "'f \<Rightarrow> bool"
  assumes poll: "\<exists>t. beyond_reg t = beyond_reg s \<and>
    ((\<exists>out. poll f cx s = Inr (Ready out, t) \<and> io_reg t = io_reg s) \<or>
     (\<exists>f'. poll f cx s = Inr (Pending f', t) \<and> io_reg t = registers (registered f) (fd f) events cx (io_reg s) \<and>
        registered f' \<and> fd f' = fd f))"
begin

text \<open>A poll never panics and never touches anything but the registry.\<close>

lemma quiet_poll: "quiet beyond_reg (poll f cx)"
  by (rule quietI) (use poll in blast)

text \<open>The first poll that stays pending leaves its waker behind for its descriptor.\<close>

lemma first_pending_registers:
  assumes "reg_ok (io_reg s)" and "\<not> registered f" and "poll f cx s = Inr (Pending f', t)"
  shows "cx \<in> set (waiting (reg_lookup (io_reg t)) (fd f)) \<and> reg_ok (io_reg t)"
proof -
  from poll[of s f cx] assms(2,3) have "io_reg t = reg_add (fd f) events cx (io_reg s)"
    by (auto simp: registers_def)
  with assms(1) show ?thesis
    by (auto simp: reg.lookup_add reg.invar_add waiting_def split: option.splits)
qed

text \<open>A later poll that is still pending leaves the registry alone, even when the entry is gone.\<close>

lemma later_pending_keeps:
  "registered f \<Longrightarrow> poll f cx s = Inr (Pending f', t) \<Longrightarrow> io_reg t = io_reg s"
  using poll[of s f cx] by (auto simp: registers_def)

lemma reg_ok_poll: "reg_ok (io_reg s) \<Longrightarrow> poll f cx s = Inr (r, t) \<Longrightarrow> reg_ok (io_reg t)"
  using poll[of s f cx] by (auto simp: registers_def reg.invar_add split: if_splits)

end

lemma beyond_kernel_reg:
  assumes "beyond_kernel t = beyond_kernel s"
  shows "beyond_reg t = beyond_reg s" and "io_reg t = io_reg s"
  using assms by (cases s; cases t; simp add: beyond_reg_def)+

text \<open>One system call, then the registration: the shape all four polls share.\<close>

lemma leaf_poll:
  assumes call: "quiet beyond_kernel m"
    and step: "\<And>a. (\<exists>out. g a = return_p (Ready out)) \<or>
      (\<exists>f'. g a = bind_p (if \<not> r then register_fd_waker fd ev (clone_waker cx) else return_p ()) (\<lambda>_. return_p (Pending f'))
         \<and> ok f')"
  shows "\<exists>t. beyond_reg t = beyond_reg s \<and>
    ((\<exists>out. bind_p m g s = Inr (Ready out, t) \<and> io_reg t = io_reg s) \<or>
     (\<exists>f'. bind_p m g s = Inr (Pending f', t) \<and> io_reg t = registers r fd ev cx (io_reg s) \<and> ok f'))"
proof -
  from call obtain a u where u: "m s = Inr (a, u)" "beyond_kernel u = beyond_kernel s" by (rule quietE)
  note f = beyond_kernel_reg[OF u(2)]
  from step[of a] show ?thesis
  proof (elim disjE exE conjE)
    fix out assume "g a = return_p (Ready out)"
    then show ?thesis using u(1) f by auto
  next
    fix f' assume g: "g a = bind_p (if \<not> r then register_fd_waker fd ev (clone_waker cx) else return_p ())
      (\<lambda>_. return_p (Pending f'))" and "ok f'"
    let ?t = "u\<lparr>io_reg := registers r fd ev cx (io_reg u)\<rparr>"
    have "bind_p m g s = Inr (Pending f', ?t)"
      using u(1) by (simp add: g register_fd_waker_def clone_waker_def registers_def)
    moreover have "beyond_reg ?t = beyond_reg s" using f(1) by (simp add: beyond_reg_def)
    ultimately show ?thesis using f(2) \<open>ok f'\<close> by (intro exI[of _ ?t]) simp
  qed
qed

interpretation accept: leaf_future "poll_accept K" af_fd "0x0001" af_registered for K
  unfolding leaf_future_def poll_accept_def
  by (intro allI leaf_poll[where ok = "\<lambda>f'. af_registered f' \<and> af_fd f' = af_fd f" for f] quiet_syscalls) auto

interpretation connect: leaf_future "poll_connect K" cf_fd "0x0004" cf_registered for K
  unfolding leaf_future_def poll_connect_def
  by (intro allI leaf_poll[where ok = "\<lambda>f'. cf_registered f' \<and> cf_fd f' = cf_fd f" for f] quiet_syscalls) auto

interpretation recv: leaf_future "poll_recv K" rf_fd "0x0001" rf_registered for K
  unfolding leaf_future_def poll_recv_def
  by (intro allI leaf_poll[where ok = "\<lambda>f'. rf_registered f' \<and> rf_fd f' = rf_fd f" for f] quiet_syscalls)
    (auto split: prod.splits)

interpretation send: leaf_future "poll_send K" sf_fd "0x0004" sf_registered for K
  unfolding leaf_future_def poll_send_def
  by (intro allI leaf_poll[where ok = "\<lambda>f'. sf_registered f' \<and> sf_fd f' = sf_fd f" for f] quiet_syscalls) auto

section \<open>Properties\<close>

text \<open>A kernel that answers every call with \<open>-EAGAIN\<close>.\<close>

definition eagain_kernel :: "unit kernel" where
  "eagain_kernel nr args w = (-11, OutNone, w)"

lemma eagain_pending:
  "poll_accept eagain_kernel f cx s = Inr (Pending f', t) \<longleftrightarrow>
     f' = f\<lparr>af_registered := True\<rparr> \<and>
     t = s\<lparr>calls := calls s @ [\<lparr>ev_nr = 288, ev_args = [reg_i32 (af_fd f), PtrBuf 32, PtrWords [32], reg_i32 0], ev_ret = -11\<rparr>],
           io_reg := registers (af_registered f) (af_fd f) 0x0001 cx (io_reg s)\<rparr>"
  by (auto simp: poll_accept_def accept4_def ret_of_def raw_syscalls do_syscall_def eagain_kernel_def
      register_fd_waker_def clone_waker_def registers_def bind_p_def)

text \<open>
  C18: No lost first wake-up. Whenever the first poll of a fresh accept, connect, receive or send
  future stays pending, the task's waker is registered for the future's descriptor (and the
  registry still holds one entry per descriptor), so that the next readiness of the descriptor
  wakes the task.
\<close>

theorem first_pending_is_registered:
  assumes "reg_ok (io_reg s)"
  shows "(\<forall>fa t. poll_accept K (accept_new fd) cx s = Inr (Pending fa, t) \<longrightarrow>
      cx \<in> set (waiting (reg_lookup (io_reg t)) fd) \<and> reg_ok (io_reg t)) \<and>
    (\<forall>fc t. poll_connect K (connect_new fd addr n) cx s = Inr (Pending fc, t) \<longrightarrow>
      cx \<in> set (waiting (reg_lookup (io_reg t)) fd) \<and> reg_ok (io_reg t)) \<and>
    (\<forall>fr t. poll_recv K (recv_new fd n) cx s = Inr (Pending fr, t) \<longrightarrow>
      cx \<in> set (waiting (reg_lookup (io_reg t)) fd) \<and> reg_ok (io_reg t)) \<and>
    (\<forall>fs t. poll_send K (send_new fd data) cx s = Inr (Pending fs, t) \<longrightarrow>
      cx \<in> set (waiting (reg_lookup (io_reg t)) fd) \<and> reg_ok (io_reg t))"
  using accept.first_pending_registers[OF assms, of "accept_new fd" K cx]
    connect.first_pending_registers[OF assms, of "connect_new fd addr n" K cx]
    recv.first_pending_registers[OF assms, of "recv_new fd n" K cx]
    send.first_pending_registers[OF assms, of "send_new fd data" K cx]
  by (simp add: accept_new_def connect_new_def recv_new_def send_new_def)

theorem first_pending_is_registered_witness:
  "\<exists>fa t. poll_accept eagain_kernel (accept_new 3) 77 fresh_sched = Inr (Pending fa, t) \<and>
     77 \<in> set (waiting (reg_lookup (io_reg t)) 3)"
proof -
  have ok: "reg_ok (io_reg fresh_sched)" by (simp add: reg_ok_def fresh_sched_def)
  obtain fa t where "poll_accept eagain_kernel (accept_new 3) 77 fresh_sched = Inr (Pending fa, t)"
    unfolding eagain_pending by blast
  with first_pending_is_registered[OF ok, of eagain_kernel 3 77] show ?thesis by blast
qed

text \<open>
  C19: A wake-up that is not re-armed. A future registers at most once: after the readiness loop
  has taken its descriptor's entry out of the registry, a poll of an already registered accept or
  receive future that meets \<open>EAGAIN\<close> again stays pending while no waker at all is
  registered for its descriptor.
\<close>

theorem second_pending_is_unregistered:
  assumes "reg_ok (io_reg s)"
  shows "(af_registered fa \<longrightarrow>
      poll_accept K fa cx (s\<lparr>io_reg := snd (reg_take (af_fd fa) (io_reg s))\<rparr>) = Inr (Pending fa', t) \<longrightarrow>
      waiting (reg_lookup (io_reg t)) (af_fd fa) = []) \<and>
    (rf_registered fr \<longrightarrow>
      poll_recv K fr cx (s\<lparr>io_reg := snd (reg_take (rf_fd fr) (io_reg s))\<rparr>) = Inr (Pending fr', t) \<longrightarrow>
      waiting (reg_lookup (io_reg t)) (rf_fd fr) = [])"
  using accept.later_pending_keeps[of fa K cx _ fa' t] recv.later_pending_keeps[of fr K cx _ fr' t]
    reg.lookup_take[OF assms]
  by (auto simp: waiting_def)

theorem second_pending_is_unregistered_witness:
  "\<exists>t. poll_accept eagain_kernel \<lparr>af_fd = 3, af_registered = True\<rparr> 77
       (fresh_sched\<lparr>io_reg := snd (reg_take 3 [\<lparr>e_fd = 3, e_events = 1, e_waiters = [77]\<rparr>])\<rparr>) =
     Inr (Pending \<lparr>af_fd = 3, af_registered = True\<rparr>, t) \<and> waiting (reg_lookup (io_reg t)) 3 = []"
proof -
  let ?s = "fresh_sched\<lparr>io_reg := [\<lparr>e_fd = 3, e_events = 1, e_waiters = [77]\<rparr>]\<rparr>"
  let ?f = "\<lparr>af_fd = 3, af_registered = True\<rparr>"
  have ok: "reg_ok (io_reg ?s)" by (simp add: reg_ok_def)
  obtain f' t where t: "poll_accept eagain_kernel ?f 77 (?s\<lparr>io_reg := snd (reg_take 3 (io_reg ?s))\<rparr>) = Inr (Pending f', t)"
    "f' = ?f" unfolding eagain_pending by simp
  then show ?thesis
    using second_pending_is_unregistered[OF ok, of ?f eagain_kernel 77 ?f t] by auto
qed

text \<open>
  C37: A receive delivers exactly the bytes the kernel wrote: when the call reports that it wrote
  \<open>bs\<close>, at most the capacity and not empty, the poll of a fresh receive future is ready
  with \<open>bs\<close>; an end of stream or an error is ready with the empty vector.
\<close>

theorem recv_delivers:
  assumes "K 45 [reg_i32 fd, PtrBuf cap, reg_len cap, reg_i32 0, PtrNull, PtrNull] (kst s) = (r, out, w)"
    and "cap < 2 ^ 63"
  shows "(\<forall>bs. out = OutBytes bs \<and> bs \<noteq> [] \<and> length bs \<le> cap \<and> r = of_nat (length bs) \<longrightarrow>
      (\<exists>t. poll_recv K (recv_new fd cap) cx s = Inr (Ready bs, t) \<and> io_reg t = io_reg s)) \<and>
    (r = 0 \<or> neg r \<and> r \<noteq> -11 \<longrightarrow>
      (\<exists>t. poll_recv K (recv_new fd cap) cx s = Inr (Ready [], t) \<and> io_reg t = io_reg s))"
proof (intro conjI allI impI)
  let ?t = "s\<lparr>kst := w, calls := calls s @ [\<lparr>ev_nr = 45, ev_args = [reg_i32 fd, PtrBuf cap, reg_len cap,
    reg_i32 0, PtrNull, PtrNull], ev_ret = r\<rparr>]\<rparr>"
  have call: "recvfrom K fd (vec_with_len cap) 0 PtrNull PtrNull s = Inr ((r, fill_buf (vec_with_len cap) out), ?t)"
    using assms(1) by (simp add: recvfrom_def raw_syscalls do_syscall_def vec_with_len_def bind_p_def)
  {
    fix bs assume bs: "out = OutBytes bs \<and> bs \<noteq> [] \<and> length bs \<le> cap \<and> r = of_nat (length bs)"
    have len: "length bs < 2 ^ 63" using bs assms(2) by simp
    have "sint r = int (length bs)"
      using bs len by (simp add: sint_uint uint_nat unat_of_nat_small signed_take_bit_int_eq_self)
    moreover have "unat r = length bs" using bs len by (simp add: unat_of_nat_small)
    ultimately have "poll_recv K (recv_new fd cap) cx s = Inr (Ready bs, ?t)"
      using bs call by (simp add: poll_recv_def recv_new_def set_vec_len_def fill_buf_def vec_with_len_def)
    then show "\<exists>t. poll_recv K (recv_new fd cap) cx s = Inr (Ready bs, t) \<and> io_reg t = io_reg s" by simp
  }
  assume "r = 0 \<or> neg r \<and> r \<noteq> -11"
  then have "poll_recv K (recv_new fd cap) cx s = Inr (Ready [], ?t)"
    using call by (auto simp: poll_recv_def recv_new_def set_vec_len_def)
  then show "\<exists>t. poll_recv K (recv_new fd cap) cx s = Inr (Ready [], t) \<and> io_reg t = io_reg s" by simp
qed

theorem recv_delivers_witness:
  "\<exists>t. poll_recv (\<lambda>nr args w. (2, OutBytes [71, 69], w)) (recv_new 4 16) 9 fresh_sched = Inr (Ready [71, 69], t) \<and>
     io_reg t = io_reg fresh_sched"
  using recv_delivers[of "\<lambda>nr args w. (2, OutBytes [71, 69], w)" 4 16 fresh_sched 2 "OutBytes [71, 69]" "()" 9]
  by simp

end
