(* ===== verification/Runtime.thy ===== *)
theory Runtime
  imports Treiber
begin

text \<open>
  The runtime crate's entry points (src/crates/runtime/lib.rs): the readiness loop
  \<open>ppoll_and_schedule\<close>, the signal set-up, argument parsing and the start-up trampoline,
  with the constants of src/crates/runtime/config.rs.
\<close>

section \<open>Constants\<close>

definition WORKER_STACK_SIZE :: usize where "WORKER_STACK_SIZE = 64 * 1024"
definition TLS_BLOCK_SIZE :: usize where "TLS_BLOCK_SIZE = 4096"
definition CLONE_FLAGS :: u64 where "CLONE_FLAGS = 0x100 OR 0x200 OR 0x400 OR 0x800 OR 0x10000 OR 0x80000"
definition PROT_RW :: i32 where "PROT_RW = 0x3"
definition MAP_PRIVATE_ANON :: i32 where "MAP_PRIVATE_ANON = 0x22"
definition LOG_FILE_PATH :: bytes where "LOG_FILE_PATH = str ''/tmp/async-nostd.log'' @ [0]"
definition LISTEN_BACKLOG :: i32 where "LISTEN_BACKLOG = 128"

section \<open>The readiness loop\<close>

text \<open>The loop that reaps children runs until \<open>waitpid\<close> has none left; \<open>n\<close> bounds its iterations.\<close>

fun reap :: "'w kernel \<Rightarrow> nat \<Rightarrow> (('w, 'z) machine_scheme, unit) prog" where
  "reap K 0 = raise_p Out_Of_Fuel"
| "reap K (Suc n) =
     bind_p (waitpid K (-1) (PtrBuf 4) 1) (\<lambda>r.
     if sint r \<le> 0 then return_p () else reap K n)"

text \<open>\<open>syscall::write_usize(LOG_FD.load(..), n)\<close>\<close>

definition log_usize :: "'w kernel \<Rightarrow> usize \<Rightarrow> (('w, 'z) io_machine_scheme, unit) prog" where
  "log_usize K n = bind_p (get_p log_fd) (\<lambda>fd. write_usize K fd n)"

definition log_hex :: "'w kernel \<Rightarrow> usize \<Rightarrow> (('w, 'z) io_machine_scheme, unit) prog" where
  "log_hex K n = bind_p (get_p log_fd) (\<lambda>fd. write_hex K fd n)"

definition is_closed :: "pollfd \<Rightarrow> bool" where
  "is_closed pf \<longleftrightarrow> pf_revents pf AND 0x38 \<noteq> 0"

text \<open>The registry's critical section for one ready descriptor: its wakers, and the entry is gone.\<close>

definition take_wakers :: "'w kernel \<Rightarrow> pollfd \<Rightarrow> (('w, 'z) io_machine_scheme, waker list) prog" where
  "take_wakers K pf =
     bind_p (get_p io_reg) (\<lambda>reg.
     case find_fd (pf_fd pf) reg of
       None \<Rightarrow> return_p []
     | Some i \<Rightarrow>
         bind_p (if is_closed pf
                 then seqs [log_write K (str ''[ppoll] removing closed fd=''),
                            log_usize K (scast (pf_fd pf)),
                            log_write K (str ''\<newline>'')]
                 else return_p ()) (\<lambda>_.
         bind_p (modify_p (\<lambda>s. s\<lparr>io_reg := snd (reg_take (pf_fd pf) reg)\<rparr>)) (\<lambda>_.
         return_p (fst (reg_take (pf_fd pf) reg)))))"

fun ppoll_ready :: "'w kernel \<Rightarrow> pollfd list \<Rightarrow> usize \<Rightarrow> (('w, 'z) sched_machine_scheme, usize) prog" where
  "ppoll_ready K [] ready_count = return_p ready_count"
| "ppoll_ready K (pf # fds) ready_count =
     (if pf_revents pf \<noteq> 0
      then bind_p (seqs [log_write K (str ''[ppoll] fd=''),
                         log_usize K (scast (pf_fd pf)),
                         log_write K (str '' revents=0x''),
                         log_hex K (scast (pf_revents pf)),
                         log_write K (str '' closed=''),
                         log_usize K (if is_closed pf then 1 else 0),
                         log_write K (str ''\<newline>'')]) (\<lambda>_.
           bind_p (take_wakers K pf) (\<lambda>to_wake.
           bind_p (seqs (map (wake_waker K) to_wake)) (\<lambda>_.
           ppoll_ready K fds (ready_count + 1))))
      else ppoll_ready K fds ready_count)"

definition snapshot :: "io_entry list \<Rightarrow> pollfd list" where
  "snapshot reg = map (\<lambda>e. \<lparr>pf_fd = e_fd e, pf_events = e_events e, pf_revents = 0\<rparr>) reg"

definition drain_eventfd :: "'w kernel \<Rightarrow> i32 \<Rightarrow> (('w, 'z) io_machine_scheme, unit) prog" where
  "drain_eventfd K evt =
     bind_p (sys_read K evt (replicate 8 0)) (\<lambda>_.
     modify_p (\<lambda>s. s\<lparr>event_pending := 0\<rparr>))"

text \<open>Behind the system call: drain the event descriptor, serve the ready descriptors, report their number.\<close>

definition serve_ready :: "'w kernel \<Rightarrow> i32 \<Rightarrow> pollfd list \<Rightarrow> (('w, 'z) sched_machine_scheme, unit) prog" where
  "serve_ready K evt fds =
     bind_p (lift_res (index fds 0)) (\<lambda>pf0.
     bind_p (if pf_revents pf0 \<noteq> 0 then drain_eventfd K evt else return_p ()) (\<lambda>_.
     bind_p (ppoll_ready K (drop 1 fds) 0) (\<lambda>ready_count.
     if 0 < ready_count
     then seqs [log_write K (str ''[ppoll] ''), log_usize K ready_count, log_write K (str '' fds ready\<newline>'')]
     else return_p ())))"

definition ppoll_and_schedule :: "'w kernel \<Rightarrow> nat \<Rightarrow> (('w, 'z) sched_machine_scheme, unit) prog" where
  "ppoll_and_schedule K fuel =
     bind_p (reap K fuel) (\<lambda>_.
     bind_p (get_p io_reg) (\<lambda>reg.
     bind_p (ensure_eventfd K) (\<lambda>evt.
     if neg evt then ignore_p (nanosleep_ns K 10000000)
     else bind_p (ppoll K (\<lparr>pf_fd = evt, pf_events = 1, pf_revents = 0\<rparr> # snapshot reg)) (\<lambda>(ret, fds).
          if sint ret \<le> 0 then return_p () else serve_ready K evt fds))))"

section \<open>Arguments\<close>

text \<open>
  A C string pointer: null, or the bytes from the address on (the callers guarantee that enough of
  them are readable).
\<close>

type_synonym cptr = "(nat \<Rightarrow> u8) option"

definition read_ptr_array :: "(nat \<Rightarrow> cptr) \<Rightarrow> nat \<Rightarrow> cptr" where
  "read_ptr_array ptr i = ptr i"

definition is_ascii_digit :: "u8 \<Rightarrow> bool" where
  "is_ascii_digit c \<longleftrightarrow> 48 \<le> c \<and> c \<le> 57"

text \<open>\<open>while i < 64\<close>; \<open>n\<close> counts the iterations left.\<close>

fun parse_usize_loop :: "(nat \<Rightarrow> u8) \<Rightarrow> nat \<Rightarrow> nat \<Rightarrow> usize \<Rightarrow> bool \<Rightarrow> usize \<times> bool" where
  "parse_usize_loop s 0 i acc any = (acc, any)"
| "parse_usize_loop s (Suc n) i acc any =
     (let c = s i
      in if c = 0 \<or> \<not> is_ascii_digit c then (acc, any)
         else parse_usize_loop s n (i + 1) (acc * 10 + ucast (c - 48)) True)"

definition parse_cstring_usize :: "cptr \<Rightarrow> usize option" where
  "parse_cstring_usize p =
     (case p of
        None \<Rightarrow> None
      | Some s \<Rightarrow> (let (acc, any) = parse_usize_loop s 64 0 0 False in if any then Some acc else None))"

fun parse_ip_loop :: "(nat \<Rightarrow> u8) \<Rightarrow> nat \<Rightarrow> nat \<Rightarrow> nat \<Rightarrow> usize \<Rightarrow> bytes \<Rightarrow> u32 option res" where
  "parse_ip_loop s 0 i part acc parts = Inr None"
| "parse_ip_loop s (Suc n) i part acc parts =
     (let c = s i
      in if c = 0
         then if part \<noteq> 3 then Inr None
              else bind_res (set_index parts part (ucast acc)) (\<lambda>parts.
                   bind_res (index parts 0) (\<lambda>p0.
                   bind_res (index parts 1) (\<lambda>p1.
                   bind_res (index parts 2) (\<lambda>p2.
                   bind_res (index parts 3) (\<lambda>p3.
                   Inr (Some (ucast p0 OR push_bit 8 (ucast p1) OR push_bit 16 (ucast p2) OR
                              push_bit 24 (ucast p3))))))))
         else if c = 46
         then if 3 \<le> part then Inr None
              else bind_res (set_index parts part (ucast acc)) (\<lambda>parts.
                   parse_ip_loop s n (i + 1) (part + 1) 0 parts)
         else if is_ascii_digit c
         then let acc = acc * 10 + ucast (c - 48)
              in if 255 < acc then Inr None
                 else parse_ip_loop s n (i + 1) part acc parts
         else Inr None)"

definition parse_cstring_ip :: "cptr \<Rightarrow> u32 option res" where
  "parse_cstring_ip p =
     (case p of None \<Rightarrow> Inr None | Some s \<Rightarrow> parse_ip_loop s 128 0 0 0 [0, 0, 0, 0])"

section \<open>Start-up\<close>

text \<open>\<open>SIGCHLD\<close> is set to \<open>SIG_IGN\<close>: 32 words, the handler first, everything else zero.\<close>

definition install_sigchld_handler :: "'w kernel \<Rightarrow> (('w, 'z) machine_scheme, unit) prog" where
  "install_sigchld_handler K =
     (let sigaction = (replicate 32 0)[0 := 1, 1 := 0, 2 := 0];
          sigaction = take 3 sigaction @ replicate 16 0 @ drop 19 sigaction
      in ignore_p (rt_sigaction K 17 sigaction 8))"

definition panic_handler :: "'w kernel \<Rightarrow> (('w, 'z) machine_scheme, 'a) prog" where
  "panic_handler K = sys_exit K 1"

text \<open>The options given on the command line, each kept at its default when it does not parse.\<close>

definition main_trampoline ::
    "'w kernel \<Rightarrow> isize \<Rightarrow> (nat \<Rightarrow> cptr) \<Rightarrow> (usize \<Rightarrow> u32 \<Rightarrow> usize \<Rightarrow> (('w, 'z) machine_scheme, 'a) prog) \<Rightarrow>
      (('w, 'z) machine_scheme, 'a) prog" where
  "main_trampoline K argc argv main =
     bind_p (install_sigchld_handler K) (\<lambda>_.
     let worker_count = (if 1 < sint argc
                         then case parse_cstring_usize (read_ptr_array argv 1) of Some n \<Rightarrow> n | None \<Rightarrow> 16
                         else 16)
     in bind_p (if 2 < sint argc
                then bind_p (lift_res (parse_cstring_ip (read_ptr_array argv 2))) (\<lambda>r.
                     return_p (case r of Some v \<Rightarrow> v | None \<Rightarrow> 0))
                else return_p 0) (\<lambda>listen_ip.
        let listen_port = (if 3 < sint argc
                           then case parse_cstring_usize (read_ptr_array argv 3) of Some p \<Rightarrow> p | None \<Rightarrow> 8000
                           else 8000)
        in main worker_count listen_ip listen_port))"

section \<open>Frames\<close>

lemma quiet_logs [quiet_intros]:
  "quiet beyond_kernel (log_usize K n)"
  "quiet beyond_kernel (log_hex K n)"
  unfolding log_usize_def log_hex_def by (intro quiet_intros)+

lemma sched_shape_cong:
  assumes "nodes t = nodes s" "sched_head t = sched_head s" "free_head t = free_head s"
    "free_count t = free_count s" "heap_cur t = heap_cur s" "heap_ok t = heap_ok s"
  shows "sched_shape t xs ys = sched_shape s xs ys" "sched_rep t hs = sched_rep s hs"
  using assms by (simp_all add: sched_shape_def sched_rep_def)

lemma sched_rep_io_reg [simp]:
  "sched_rep (s\<lparr>io_reg := r\<rparr>) hs = sched_rep s hs"
  "sched_rep (s\<lparr>event_pending := n\<rparr>) hs = sched_rep s hs"
  by (rule sched_shape_cong; simp add: heap_ok_def)+

text \<open>A computation that leaves all but the event descriptor alone leaves the schedule alone.\<close>

lemma sched_quietE:
  assumes "quiet beyond_eventfd m"
  obtains a t where "m s = Inr (a, t)" and "sched_rep t = sched_rep s"
    and "io_reg t = io_reg s"
proof -
  from assms obtain a t where t: "m s = Inr (a, t)" "beyond_eventfd t = beyond_eventfd s" by (rule quietE)
  show thesis
    using t(1) sched_shape_cong(2)[OF beyond_eventfd_sched(1-6)[OF t(2)]] t(2)
    by (intro that[of a t]) (auto simp: beyond_eventfd_def fun_eq_iff)
qed

lemma sched_quiet_unitE:
  assumes "quiet beyond_kernel m"
  obtains t where "m s = Inr ((), t)" and "sched_rep t = sched_rep s" and "io_reg t = io_reg s"
proof (rule sched_quietE[OF quiet_beyond_eventfd[OF assms], of s])
  fix a t assume "m s = Inr (a, t)" "sched_rep t = sched_rep s" "io_reg t = io_reg s"
  then show thesis by (intro that[of t]) simp_all
qed

section \<open>What the readiness loop does\<close>

lemma take_wakers_spec:
  obtains t where "take_wakers K pf s = Inr (fst (reg_take (pf_fd pf) (io_reg s)), t)"
    and "sched_rep t = sched_rep s" and "io_reg t = snd (reg_take (pf_fd pf) (io_reg s))"
proof (cases "find_fd (pf_fd pf) (io_reg s)")
  case None
  then show thesis by (intro that[of s]) (simp_all add: take_wakers_def reg_take_def)
next
  case (Some i)
  let ?log = "if is_closed pf then seqs [log_write K (str ''[ppoll] removing closed fd=''),
      log_usize K (scast (pf_fd pf)), log_write K (str ''\<newline>'')] else return_p ()"
  have q: "quiet beyond_kernel ?log" by (intro quiet_intros) (auto intro: quiet_intros)
  obtain u where u: "?log s = Inr ((), u)" "sched_rep u = sched_rep s" "io_reg u = io_reg s"
    by (rule sched_quiet_unitE[OF q, of s])
  let ?t = "u\<lparr>io_reg := snd (reg_take (pf_fd pf) (io_reg s))\<rparr>"
  have "take_wakers K pf s = Inr (fst (reg_take (pf_fd pf) (io_reg s)), ?t)"
    using Some u(1) by (simp add: take_wakers_def)
  then show thesis using u(2) by (intro that[of ?t]) (simp_all add: fun_eq_iff)
qed

lemma wakes_all:
  assumes "mmap_ok K" and "sched_rep s hs"
  shows "(\<exists>t. seqs (map (wake_waker K) ws) s = Inr ((), t) \<and> sched_rep t (rev ws @ hs) \<and> io_reg t = io_reg s) \<or>
    (\<exists>t. seqs (map (wake_waker K) ws) s = Inl (Alloc_Error, t))"
proof -
  have w: "map (wake_waker K) ws = map (wake_handle K) ws"
    by (simp add: wake_waker_def wake_by_ref_def)
  have "keeps beyond_sched (seqs (map (wake_handle K) ws))" by (auto intro!: keeps_intros)
  from keepsD[OF this] wakes_spec[OF assms, of ws] show ?thesis
    unfolding w by (auto simp: beyond_sched_def)
qed

definition ready_fds :: "pollfd list \<Rightarrow> i32 list" where
  "ready_fds fds = map pf_fd (filter (\<lambda>pf. pf_revents pf \<noteq> 0) fds)"

lemma ready_fds_simps [simp]:
  "ready_fds [] = []"
  "ready_fds (pf # fds) = (if pf_revents pf \<noteq> 0 then pf_fd pf # ready_fds fds else ready_fds fds)"
  by (simp_all add: ready_fds_def)

lemma ready_fds_subset: "set (ready_fds fds) \<subseteq> set (map pf_fd fds)"
  by (auto simp: ready_fds_def)

lemma ppoll_ready_spec:
  assumes "mmap_ok K" and "sched_rep s hs" and "reg_ok (io_reg s)" and "distinct (map pf_fd fds)"
  shows "(\<exists>t. ppoll_ready K fds c s = Inr (c + of_nat (length (ready_fds fds)), t) \<and> reg_ok (io_reg t) \<and>
      sched_rep t (rev (concat (map (waiting (reg_lookup (io_reg s))) (ready_fds fds))) @ hs) \<and>
      reg_lookup (io_reg t) = reg_lookup (io_reg s) |` (- set (ready_fds fds))) \<or>
    (\<exists>t. ppoll_ready K fds c s = Inl (Alloc_Error, t))"
  using assms(2-4)
proof (induction fds arbitrary: s hs c)
  case (Cons pf fds)
  show ?case
  proof (cases "pf_revents pf = 0")
    case True
    then show ?thesis using Cons by simp
  next
    case False
    let ?logs = "seqs [log_write K (str ''[ppoll] fd=''), log_usize K (scast (pf_fd pf)),
      log_write K (str '' revents=0x''), log_hex K (scast (pf_revents pf)), log_write K (str '' closed=''),
      log_usize K (if is_closed pf then 1 else 0), log_write K (str ''\<newline>'')]"
    let ?ws = "fst (reg_take (pf_fd pf) (io_reg s))" and ?m = "reg_lookup (io_reg s)"
    have "quiet beyond_kernel ?logs" by (rule quiet_seqs) (auto intro: quiet_intros)
    from sched_quiet_unitE[OF this, of s] obtain u where u: "?logs s = Inr ((), u)" "sched_rep u = sched_rep s" "io_reg u = io_reg s"
      by blast
    obtain v where v: "take_wakers K pf u = Inr (?ws, v)" "sched_rep v = sched_rep u"
        "io_reg v = snd (reg_take (pf_fd pf) (io_reg s))"
      by (rule take_wakers_spec[of K pf u]) (simp add: u(3))
    have ws: "?ws = waiting ?m (pf_fd pf)" and look: "reg_lookup (io_reg v) = ?m(pf_fd pf := None)"
      and ok: "reg_ok (io_reg v)"
      using reg.take_waiters reg.lookup_take reg.invar_take Cons.prems(2) by (simp_all add: v(3))
    have step: "ppoll_ready K (pf # fds) c s =
        bind_p (seqs (map (wake_waker K) ?ws)) (\<lambda>_. ppoll_ready K fds (c + 1)) v"
      using False u(1) v(1) by simp
    have "sched_rep v hs" using Cons.prems(1) u(2) v(2) by simp
    from wakes_all[OF assms(1) this, of ?ws] show ?thesis
    proof (elim disjE exE conjE)
      fix x assume x: "seqs (map (wake_waker K) ?ws) v = Inr ((), x)" "sched_rep x (rev ?ws @ hs)"
        "io_reg x = io_reg v"
      have d: "distinct (map pf_fd fds)" "pf_fd pf \<notin> set (ready_fds fds)"
        using Cons.prems(3) ready_fds_subset[of fds] by auto
      have same: "map (waiting (?m(pf_fd pf := None))) (ready_fds fds) = map (waiting ?m) (ready_fds fds)"
        using d(2) by (auto simp: waiting_def)
      have rest: "(?m(pf_fd pf := None)) |` (- set (ready_fds fds)) = ?m |` (- set (pf_fd pf # ready_fds fds))"
        by (auto simp: restrict_map_def)
      have x_ok: "reg_ok (io_reg x)" "reg_lookup (io_reg x) = ?m(pf_fd pf := None)"
        using ok look by (simp_all add: x(3))
      from Cons.IH[OF x(2) x_ok(1) d(1), of "c + 1", unfolded x_ok(2) same rest] False x(1)
      show ?thesis
        unfolding step by (auto simp: ws add.assoc)
    qed (use step in auto)
  qed
qed (simp add: restrict_map_def)

text \<open>
  What the reaping loop relies on: the kernel runs out of exited children within \<open>n\<close> calls.
\<close>

fun reaps_within :: "'w kernel \<Rightarrow> nat \<Rightarrow> 'w \<Rightarrow> bool" where
  "reaps_within K 0 w \<longleftrightarrow> False"
| "reaps_within K (Suc n) w \<longleftrightarrow>
     (case K 61 [reg_i32 (-1), PtrBuf 4, reg_i32 1] w of (r, _, w') \<Rightarrow> sint r \<le> 0 \<or> reaps_within K n w')"

lemma reap_returns:
  "reaps_within K n (kst s) \<Longrightarrow> \<exists>t. reap K n s = Inr ((), t) \<and> beyond_kernel t = beyond_kernel s"
proof (induction n arbitrary: s)
  case (Suc n)
  obtain r out w where K: "K 61 [reg_i32 (-1), PtrBuf 4, reg_i32 1] (kst s) = (r, out, w)"
    by (metis prod_cases3)
  let ?t = "s\<lparr>kst := w, calls := calls s @ [\<lparr>ev_nr = 61, ev_args = [reg_i32 (-1), PtrBuf 4, reg_i32 1], ev_ret = r\<rparr>]\<rparr>"
  have call: "waitpid K (-1) (PtrBuf 4) 1 s = Inr (r, ?t)"
    using K by (simp add: waitpid_def ret_of_def raw_syscalls do_syscall_def bind_p_def)
  show ?case
  proof (cases "sint r \<le> 0")
    case True
    then show ?thesis using call by simp
  next
    case False
    with Suc.prems K have "reaps_within K n (kst ?t)" by simp
    from Suc.IH[OF this] call False show ?thesis by simp
  qed
qed simp

lemma ppoll_fds:
  assumes "ppoll K fds s = Inr ((r, fds'), t)"
  shows "map pf_fd fds' = map pf_fd fds"
proof -
  have zip: "map pf_fd (map2 (\<lambda>f e. f\<lparr>pf_revents := e\<rparr>) fs evs @ drop (length evs) fs) = map pf_fd fs" for fs evs
    by (induction fs evs rule: list_induct2') simp_all
  obtain x out u where "syscall5 K 271 (PtrPollFds fds) (reg_len (length fds)) (Reg 0) (Reg 0) (Reg 0) s = Inr ((x, out), u)"
    by (cases "K 271 [PtrPollFds fds, reg_len (length fds), Reg 0, Reg 0, Reg 0] (kst s)")
      (simp add: raw_syscalls do_syscall_def)
  with assms have "fds' = (case out of OutRevents evs \<Rightarrow>
      map2 (\<lambda>f e. f\<lparr>pf_revents := e\<rparr>) fds evs @ drop (length evs) fds | _ \<Rightarrow> fds)"
    by (simp add: ppoll_def)
  then show ?thesis using zip[of fds] by (cases out) simp_all
qed

lemma serve_ready_spec:
  fixes s :: "('w, 'z) sched_machine_scheme"
  assumes "mmap_ok K" and "sched_rep s hs" and "reg_ok (io_reg s)" and "fds \<noteq> []"
    and "distinct (map pf_fd (drop 1 fds))"
  shows "(\<exists>t. serve_ready K evt fds s = Inr ((), t) \<and> reg_ok (io_reg t) \<and>
      sched_rep t (rev (concat (map (waiting (reg_lookup (io_reg s))) (ready_fds (drop 1 fds)))) @ hs) \<and>
      reg_lookup (io_reg t) = reg_lookup (io_reg s) |` (- set (ready_fds (drop 1 fds)))) \<or>
    (\<exists>t. serve_ready K evt fds s = Inl (Alloc_Error, t))"
proof -
  have "quiet beyond_eventfd (sys_read K evt (replicate 8 0))" by (intro quiet_intros quiet_beyond_eventfd)
  from sched_quietE[OF this, of s] obtain a u where u: "sys_read K evt (replicate 8 0) s = Inr (a, u)"
      "sched_rep u = sched_rep s" "io_reg u = io_reg s" by blast
  let ?d = "(if pf_revents (fds ! 0) \<noteq> 0 then drain_eventfd K evt else return_p ()) :: (('w, 'z) sched_machine_scheme, unit) prog"
  have "\<exists>v. ?d s = Inr ((), v) \<and> sched_rep v hs \<and> io_reg v = io_reg s"
    using u assms(2) by (simp add: drain_eventfd_def)
  then obtain v where v: "?d s = Inr ((), v)" "sched_rep v hs" "io_reg v = io_reg s" by blast
  have "reg_ok (io_reg v)" using assms(3) v(3) by simp
  from ppoll_ready_spec[OF assms(1) v(2) this assms(5), of 0] show ?thesis
  proof (elim disjE exE conjE)
    let ?R = "ready_fds (drop 1 fds)"
    fix x assume x: "ppoll_ready K (drop 1 fds) 0 v = Inr (0 + of_nat (length ?R), x)" "reg_ok (io_reg x)"
      "sched_rep x (rev (concat (map (waiting (reg_lookup (io_reg v))) ?R)) @ hs)"
      "reg_lookup (io_reg x) = reg_lookup (io_reg v) |` (- set ?R)"
    let ?n = "of_nat (length ?R) :: usize"
    let ?log = "(if 0 < ?n then seqs [log_write K (str ''[ppoll] ''), log_usize K ?n, log_write K (str '' fds ready\<newline>'')]
      else return_p ()) :: (('w, 'z) sched_machine_scheme, unit) prog"
    have "quiet beyond_kernel ?log" by (rule quiet_if, rule quiet_seqs) (auto intro: quiet_intros)
    from sched_quiet_unitE[OF this, of x] obtain y where y: "?log x = Inr ((), y)" "sched_rep y = sched_rep x"
      "io_reg y = io_reg x" by blast
    have "serve_ready K evt fds s = Inr ((), y)"
      using v(1) x(1) y(1) assms(4) by (cases "0 < ?n") (simp_all add: serve_ready_def)
    with v(3) x y show ?thesis by simp
  qed (use v(1) assms(4) in \<open>simp add: serve_ready_def\<close>)
qed

text \<open>Up to the answer of \<open>ppoll\<close> nothing the tasks see has changed.\<close>

lemma ppoll_prefix:
  assumes "reaps_within K n (kst s)"
  obtains (idle) t where "ppoll_and_schedule K n s = Inr ((), t)" "sched_rep t = sched_rep s" "io_reg t = io_reg s"
  | (serve) evt fds t where "ppoll_and_schedule K n s = serve_ready K evt fds t" "sched_rep t = sched_rep s"
      "io_reg t = io_reg s" "fds \<noteq> []" "map pf_fd (drop 1 fds) = map e_fd (io_reg s)"
proof -
  obtain s1 where s1: "reap K n s = Inr ((), s1)" "beyond_kernel s1 = beyond_kernel s"
    using reap_returns[OF assms] by blast
  then have "beyond_eventfd s1 = beyond_eventfd s" by (cases s; cases s1) (simp add: beyond_eventfd_def)
  then have r1: "sched_rep s1 = sched_rep s" "io_reg s1 = io_reg s"
    using sched_shape_cong(2)[OF beyond_eventfd_sched(1-6)] by (auto simp: beyond_eventfd_def fun_eq_iff)
  from sched_quietE[OF quiet_ensure_eventfd, of K s1] obtain evt s2 where
    s2: "ensure_eventfd K s1 = Inr (evt, s2)" "sched_rep s2 = sched_rep s1" "io_reg s2 = io_reg s1" by blast
  show thesis
  proof (cases "neg evt")
    case True
    have "quiet beyond_kernel (ignore_p (nanosleep_ns K 10000000))" by (intro quiet_intros)
    from sched_quiet_unitE[OF this, of s2] obtain t where t: "ignore_p (nanosleep_ns K 10000000) s2 = Inr ((), t)"
      "sched_rep t = sched_rep s2" "io_reg t = io_reg s2" by blast
    show thesis by (rule idle[of t]) (use s1 s2 r1 t True in \<open>simp_all add: ppoll_and_schedule_def\<close>)
  next
    case False
    let ?fds = "\<lparr>pf_fd = evt, pf_events = 1, pf_revents = 0\<rparr> # snapshot (io_reg s)"
    have "quiet beyond_eventfd (ppoll K ?fds)" by (intro quiet_intros quiet_beyond_eventfd)
    from sched_quietE[OF this, of s2] obtain a s3 where "ppoll K ?fds s2 = Inr (a, s3)"
      "sched_rep s3 = sched_rep s2" "io_reg s3 = io_reg s2" by blast
    then obtain ret fds where s3: "ppoll K ?fds s2 = Inr ((ret, fds), s3)"
      "sched_rep s3 = sched_rep s2" "io_reg s3 = io_reg s2" by (cases a) auto
    have fds: "map pf_fd (drop 1 fds) = map e_fd (io_reg s)" "fds \<noteq> []"
      using ppoll_fds[OF s3(1)] by (auto simp: snapshot_def comp_def drop_map[symmetric])
    have run: "ppoll_and_schedule K n s = (if sint ret \<le> 0 then return_p () else serve_ready K evt fds) s3"
      using s1 s2 s3 r1 False by (simp add: ppoll_and_schedule_def)
    show thesis
    proof (cases "sint ret \<le> 0")
      case True
      show thesis by (rule idle[of s3]) (use run True s2 s3 r1 in simp_all)
    next
      case False
      show thesis by (rule serve[of evt fds s3]) (use run False s2 s3 r1 fds in simp_all)
    qed
  qed
qed

section \<open>Reading the arguments\<close>

text \<open>A pointer to the bytes \<open>bs\<close> and whatever follows.\<close>

definition points_to :: "(nat \<Rightarrow> u8) \<Rightarrow> nat \<Rightarrow> bytes \<Rightarrow> bool" where
  "points_to s i bs \<longleftrightarrow> (\<forall>j < length bs. s (i + j) = bs ! j)"

lemma points_to_append [simp]:
  "points_to s i (as @ bs) \<longleftrightarrow> points_to s i as \<and> points_to s (i + length as) bs"
proof
  assume "points_to s i (as @ bs)"
  then show "points_to s i as \<and> points_to s (i + length as) bs"
    by (fastforce simp: points_to_def nth_append add.assoc)
next
  assume a: "points_to s i as \<and> points_to s (i + length as) bs"
  show "points_to s i (as @ bs)"
    unfolding points_to_def
  proof (intro allI impI)
    fix j assume "j < length (as @ bs)"
    with a show "s (i + j) = (as @ bs) ! j"
      by (cases "j < length as") (auto simp: points_to_def nth_append dest: spec[of _ "j - length as"])
  qed
qed

lemma points_to_Cons [simp]: "points_to s i (b # bs) \<longleftrightarrow> s i = b \<and> points_to s (Suc i) bs"
  using points_to_append[of s i "[b]" bs] by (simp add: points_to_def)

lemma points_to_Nil [simp]: "points_to s i []"
  by (simp add: points_to_def)

lemma dec_digit_facts:
  assumes "k < 10"
  shows "is_ascii_digit (dec_digit k)" "dec_digit k \<noteq> 0" "dec_digit k \<noteq> 46" "ucast (dec_digit k - 48) = (of_nat k :: usize)"
proof -
  have u: "unat (of_nat k :: u8) = k" using assms by (simp add: unat_of_nat_small)
  then have v: "unat (dec_digit k) = 48 + k" using assms by (simp add: dec_digit_def unat_word_ariths)
  then show "is_ascii_digit (dec_digit k)" "dec_digit k \<noteq> 0" "dec_digit k \<noteq> 46"
    using assms by (auto simp: is_ascii_digit_def word_le_nat_alt dest: arg_cong[of _ _ unat])
  show "ucast (dec_digit k - 48) = (of_nat k :: usize)" using u by (simp add: dec_digit_def ucast_of_nat)
qed

lemma decimal_simps:
  "n < 10 \<Longrightarrow> decimal n = [dec_digit n]"
  "10 \<le> n \<Longrightarrow> decimal n = decimal (n div 10) @ [dec_digit (n mod 10)]"
  by (simp_all add: decimal_def numeral_of_small numeral_of_step)

text \<open>A number in the string is read as itself, modulo the word size.\<close>

lemma usize_number:
  "points_to s i (decimal v) \<Longrightarrow>
    parse_usize_loop s (length (decimal v) + n) i 0 any = parse_usize_loop s n (i + length (decimal v)) (of_nat v) True"
proof (induction v arbitrary: n any rule: less_induct)
  case (less v)
  show ?case
  proof (cases "v < 10")
    case True
    with less.prems dec_digit_facts[of v] show ?thesis by (simp add: decimal_simps Let_def)
  next
    case False
    note d = decimal_simps(2)[of v] dec_digit_facts[of "v mod 10"]
    have "of_nat (v div 10) * 10 + of_nat (v mod 10) = (of_nat v :: usize)"
      by (metis div_mult_mod_eq of_nat_add of_nat_mult of_nat_numeral)
    with less.IH[of "v div 10" "Suc n" any] less.prems False d show ?thesis by (simp add: Let_def)
  qed
qed

lemma ip_number:
  "v < 256 \<Longrightarrow> points_to s i (decimal v) \<Longrightarrow>
    parse_ip_loop s (length (decimal v) + n) i part 0 parts = parse_ip_loop s n (i + length (decimal v)) part (of_nat v) parts"
proof (induction v arbitrary: n rule: less_induct)
  case (less v)
  have small: "\<not> 255 < (of_nat v :: usize)"
    using less.prems(1) by (simp add: word_less_nat_alt unat_of_nat_small)
  show ?case
  proof (cases "v < 10")
    case True
    with less.prems small dec_digit_facts[of v] show ?thesis by (simp add: decimal_simps Let_def)
  next
    case False
    note d = decimal_simps(2)[of v] dec_digit_facts[of "v mod 10"]
    have "of_nat (v div 10) * 10 + of_nat (v mod 10) = (of_nat v :: usize)"
      by (metis div_mult_mod_eq of_nat_add of_nat_mult of_nat_numeral)
    with less.IH[of "v div 10" "Suc n"] less.prems False small d show ?thesis by (simp add: Let_def)
  qed
qed

lemma ip_field:
  assumes "v < 256" and "points_to s i (decimal v @ [46])" and "part < 3" and "length parts = 4"
  shows "parse_ip_loop s (length (decimal v) + Suc n) i part 0 parts =
    parse_ip_loop s n (i + length (decimal v) + 1) (part + 1) 0 (parts[part := of_nat v])"
proof -
  have "ucast (of_nat v :: usize) = (of_nat v :: u8)"
    using assms(1) ucast_of_nat[of "of_nat v :: usize"] by (simp add: unat_of_nat_small)
  with ip_number[of v s i "Suc n" part parts] assms show ?thesis by (simp add: Let_def)
qed

lemma parse_ip_loop_total:
  "length parts = 4 \<Longrightarrow> part \<le> 3 \<Longrightarrow> \<exists>r. parse_ip_loop s n i part acc parts = Inr r"
proof (induction n arbitrary: i part acc parts)
  case (Suc n)
  then show ?case by (simp add: Let_def)
qed simp

lemma length_decimal_byte: "v < 256 \<Longrightarrow> length (decimal v) \<le> 3"
  unfolding decimal_def using length_numeral_of[of 10 v 2 dec_digit] by simp

text \<open>The four numbers of a dotted address, read one after the other.\<close>

lemma parse_ip_loop_dotted:
  assumes "a < 256" "b < 256" "c < 256" "d < 256"
    and p: "points_to s 0 (decimal a @ [46] @ decimal b @ [46] @ decimal c @ [46] @ decimal d @ [0])"
  shows "parse_ip_loop s 128 0 0 0 [0, 0, 0, 0] =
    Inr (Some (of_nat (be_value [of_nat d, of_nat c, of_nat b, of_nat a])))"
proof -
  let ?l = "\<lambda>v. length (decimal v)"
  define n where "n = 128 - (?l a + ?l b + ?l c + ?l d + 4)"
  have len: "?l a + (Suc (?l b + (Suc (?l c + (Suc (?l d + Suc n)))))) = 128"
    using assms(1-4)[THEN length_decimal_byte] unfolding n_def by simp
  have "parse_ip_loop s 128 0 0 0 [0, 0, 0, 0] = parse_ip_loop s (?l a + (Suc (?l b + (Suc (?l c + (Suc (?l d + Suc n))))))) 0 0 0 [0, 0, 0, 0]"
    by (simp only: len)
  also have "\<dots> = parse_ip_loop s (?l b + (Suc (?l c + (Suc (?l d + Suc n))))) (?l a + 1) 1 0 [of_nat a, 0, 0, 0]"
    by (subst ip_field[OF assms(1)]) (use p in simp_all)
  also have "\<dots> = parse_ip_loop s (?l c + (Suc (?l d + Suc n))) (?l a + 1 + ?l b + 1) 2 0 [of_nat a, of_nat b, 0, 0]"
    by (subst ip_field[OF assms(2)]) (use p in \<open>simp_all add: numeral_2_eq_2\<close>)
  also have "\<dots> = parse_ip_loop s (?l d + Suc n) (?l a + 1 + ?l b + 1 + ?l c + 1) 3 0 [of_nat a, of_nat b, of_nat c, 0]"
    by (subst ip_field[OF assms(3)]) (use p in \<open>simp_all add: numeral_2_eq_2 numeral_3_eq_3\<close>)
  also have "\<dots> = parse_ip_loop s (Suc n) (?l a + 1 + ?l b + 1 + ?l c + 1 + ?l d) 3 (of_nat d) [of_nat a, of_nat b, of_nat c, 0]"
    by (rule ip_number[OF assms(4)]) (use p in simp)
  also have "\<dots> = Inr (Some (of_nat (be_value [of_nat d, of_nat c, of_nat b, of_nat a])))"
  proof -
    have "ucast (of_nat d :: usize) = (of_nat d :: u8)"
      using assms(4) ucast_of_nat[of "of_nat d :: usize"] by (simp add: unat_of_nat_small)
    then show ?thesis
      using p shift_or_value[of "of_nat d" "of_nat c" "of_nat b" "of_nat a"]
      by (simp add: Let_def numeral_3_eq_3 numeral_2_eq_2 or.commute or.left_commute)
  qed
  finally show ?thesis .
qed

text \<open>A whole round, whatever the kernel answers.\<close>

lemma ppoll_round:
  assumes "mmap_ok K" and "sched_rep s hs" and "reg_ok (io_reg s)" and "reaps_within K n (kst s)"
  shows "(\<exists>t. ppoll_and_schedule K n s = Inl (Alloc_Error, t)) \<or>
    (\<exists>t ready. ppoll_and_schedule K n s = Inr ((), t) \<and> distinct ready \<and> set ready \<subseteq> e_fd ` set (io_reg s) \<and>
      reg_ok (io_reg t) \<and>
      sched_rep t (rev (concat (map (waiting (reg_lookup (io_reg s))) ready)) @ hs) \<and>
      reg_lookup (io_reg t) = reg_lookup (io_reg s) |` (- set ready))"
proof (rule ppoll_prefix[OF assms(4)])
  fix t assume "ppoll_and_schedule K n s = Inr ((), t)" "sched_rep t = sched_rep s" "io_reg t = io_reg s"
  then show ?thesis
    using assms(2,3) by (intro disjI2 exI[of _ t] exI[of _ "[]"]) (simp add: restrict_map_def)
next
  fix evt fds t
  assume t: "ppoll_and_schedule K n s = serve_ready K evt fds t" "sched_rep t = sched_rep s"
    "io_reg t = io_reg s" "fds \<noteq> []" "map pf_fd (drop 1 fds) = map e_fd (io_reg s)"
  let ?R = "ready_fds (drop 1 fds)"
  have d: "distinct (map pf_fd (drop 1 fds))" using t(5) assms(3) by (simp add: reg_ok_def)
  then have R: "distinct ?R" unfolding ready_fds_def by (rule distinct_map_filter)
  have sub: "set ?R \<subseteq> e_fd ` set (io_reg s)"
    using ready_fds_subset[of "drop 1 fds"] unfolding t(5) by simp
  have "sched_rep t hs" "reg_ok (io_reg t)" using assms(2,3) t(2,3) by simp_all
  from serve_ready_spec[OF assms(1) this t(4) d, of evt] show ?thesis
    unfolding t(1,3) using R sub by (elim disjE exE conjE) (intro disjI2 exI conjI, assumption+, intro disjI1 exI)
qed

text \<open>A round leaves everything beyond the scheduler alone, and a reaping loop cut off is the only other way it can stop.\<close>

lemma keeps_more_quiet: "quiet beyond_eventfd m \<Longrightarrow> keeps sched_machine.more m"
  by (erule keeps_coarse[OF keeps_beyond_sched]) (simp add: beyond_sched_def)

lemma keeps_more_kernel: "quiet beyond_kernel m \<Longrightarrow> keeps sched_machine.more m"
  by (intro keeps_more_quiet quiet_beyond_eventfd)

lemmas keeps_more_calls =
  quiet_syscalls[THEN keeps_more_kernel] quiet_log_write[THEN keeps_more_kernel] quiet_logs[THEN keeps_more_kernel]

lemma keeps_more_wake: "keeps sched_machine.more (wake_waker K h)"
  unfolding wake_waker_def wake_by_ref_def
  by (rule keeps_coarse[OF keeps_wake_handle]) (simp add: beyond_sched_def)

lemma keeps_more_ppoll_ready: "keeps sched_machine.more (ppoll_ready K fds c)"
proof (induction fds arbitrary: c)
  case (Cons pf fds)
  have "keeps sched_machine.more (take_wakers K pf)"
    unfolding take_wakers_def by (intro keeps_intros) (auto intro!: keeps_more_calls)
  then show ?case
    using Cons by (auto intro!: keeps_intros keeps_more_wake keeps_more_calls)
qed (auto intro: keeps_intros)

lemma keeps_more_ppoll: "keeps sched_machine.more (ppoll_and_schedule K n)"
proof -
  have reap: "keeps sched_machine.more (reap K n)"
    by (induction n) (auto intro!: keeps_intros keeps_more_calls)
  have serve: "keeps sched_machine.more (serve_ready K evt fds)" for evt fds
    unfolding serve_ready_def drain_eventfd_def
    by (intro keeps_intros keeps_more_ppoll_ready) (auto intro!: keeps_more_calls)
  show ?thesis
    unfolding ppoll_and_schedule_def
    by (intro keeps_intros reap serve keeps_more_calls keeps_more_quiet[OF quiet_ensure_eventfd])
qed

lemma reap_cut_off: "\<not> reaps_within K n (kst s) \<Longrightarrow> \<exists>t. reap K n s = Inl (Out_Of_Fuel, t)"
proof (induction n arbitrary: s)
  case (Suc n)
  obtain r out w where K: "K 61 [reg_i32 (-1), PtrBuf 4, reg_i32 1] (kst s) = (r, out, w)"
    by (metis prod_cases3)
  let ?t = "s\<lparr>kst := w, calls := calls s @ [\<lparr>ev_nr = 61, ev_args = [reg_i32 (-1), PtrBuf 4, reg_i32 1], ev_ret = r\<rparr>]\<rparr>"
  have "waitpid K (-1) (PtrBuf 4) 1 s = Inr (r, ?t)"
    using K by (simp add: waitpid_def ret_of_def raw_syscalls do_syscall_def bind_p_def)
  with Suc.IH[of ?t] Suc.prems K show ?case by simp
qed (simp add: raise_p_def)

section \<open>Properties\<close>

text \<open>
  C17: Readiness wakes exactly the waiting tasks. Serving a list of polled descriptors schedules,
  for each descriptor with events and in order, exactly the wakers that were registered for it, on
  top of what was scheduled; the entries of those descriptors are gone, all others are as before,
  and the returned count is the number of ready descriptors. The only way out is a failed node
  allocation.
\<close>

theorem ppoll_ready_wakes_exactly:
  assumes "mmap_ok K" and "sched_rep s hs" and "reg_ok (io_reg s)" and "distinct (map pf_fd fds)"
  shows "(\<exists>t. ppoll_ready K fds 0 s = Inr (of_nat (length (ready_fds fds)), t) \<and> reg_ok (io_reg t) \<and>
      sched_rep t (rev (concat (map (waiting (reg_lookup (io_reg s))) (ready_fds fds))) @ hs) \<and>
      reg_lookup (io_reg t) = reg_lookup (io_reg s) |` (- set (ready_fds fds))) \<or>
    (\<exists>t. ppoll_ready K fds 0 s = Inl (Alloc_Error, t))"
  using ppoll_ready_spec[OF assms, of 0] by simp

definition waiting_sched :: "unit sched_machine" where
  "waiting_sched = fresh_sched\<lparr>io_reg := [\<lparr>e_fd = 4, e_events = 1, e_waiters = [5]\<rparr>,
     \<lparr>e_fd = 7, e_events = 1, e_waiters = [6]\<rparr>]\<rparr>"

lemma waiting_sched_ok: "sched_rep waiting_sched []" "reg_ok (io_reg waiting_sched)"
  using fresh_sched_rep by (simp_all add: waiting_sched_def reg_ok_def)

lemma waiting_sched_serves:
  "\<exists>r. ppoll_ready (one_map_kernel 0x10000) [\<lparr>pf_fd = 4, pf_events = 1, pf_revents = 1\<rparr>] 0 waiting_sched = Inr r"
proof -
  have "bump 0x10000 (0x10000 + HEAP_SIZE) NODE_LAYOUT = Some (0x10000, 0x10010)"
    by (simp add: bump_def HEAP_SIZE_def NODE_LAYOUT_def Let_def)
  moreover have "l_size NODE_LAYOUT \<noteq> 0" by (rule NODE_LAYOUT_ok)
  ultimately show ?thesis
    by (simp add: waiting_sched_def fresh_sched_def take_wakers_def is_closed_def reg_take_def swap_remove_def
        log_write_def log_usize_def log_hex_def write_usize_eq write_hex_eq sys_write_def ret_of_def
        wake_waker_def wake_by_ref_def wake_handle_def alloc_node_def box_node_def alloc_def init_heap_def
        mmap_def signal_eventfd_def ensure_eventfd_def eventfd_call_def fd_or_minus1_def raw_syscalls
        do_syscall_def one_map_kernel_def ignore_p_def bind_p_def load_node_def store_node_def)
qed

theorem ppoll_ready_wakes_exactly_witness:
  "\<exists>t. ppoll_ready (one_map_kernel 0x10000) [\<lparr>pf_fd = 4, pf_events = 1, pf_revents = 1\<rparr>] 0 waiting_sched = Inr (1, t) \<and>
     sched_rep t [5] \<and> waiting (reg_lookup (io_reg t)) 4 = [] \<and> waiting (reg_lookup (io_reg t)) 7 = [6]"
proof -
  let ?fds = "[\<lparr>pf_fd = 4, pf_events = 1, pf_revents = 1\<rparr>]"
  have "\<nexists>t. ppoll_ready (one_map_kernel 0x10000) ?fds 0 waiting_sched = Inl (Alloc_Error, t)"
    using waiting_sched_serves by auto
  with ppoll_ready_wakes_exactly[OF one_map_kernel_ok waiting_sched_ok, of "0x10000" ?fds]
  show ?thesis by (auto simp: waiting_sched_def waiting_def restrict_map_def)
qed

text \<open>
  C16: No waker is lost or woken twice. Whatever the kernel answers, one round of
  \<open>ppoll_and_schedule\<close> (with children to reap only finitely often) either fails for lack of
  memory or returns with a set of registered descriptors served: their wakers are on the schedule,
  each as often as it was registered, their entries are removed, and every other registration and
  every scheduled task is kept.
\<close>

theorem ppoll_conserves_wakers:
  assumes "mmap_ok K" and "sched_rep s hs" and "reg_ok (io_reg s)" and "reaps_within K n (kst s)"
  shows "(\<exists>t. ppoll_and_schedule K n s = Inl (Alloc_Error, t)) \<or>
    (\<exists>t ready. ppoll_and_schedule K n s = Inr ((), t) \<and> distinct ready \<and> set ready \<subseteq> e_fd ` set (io_reg s) \<and>
      reg_ok (io_reg t) \<and>
      sched_rep t (rev (concat (map (waiting (reg_lookup (io_reg s))) ready)) @ hs) \<and>
      reg_lookup (io_reg t) = reg_lookup (io_reg s) |` (- set ready))"
  by (rule ppoll_round[OF assms])

theorem ppoll_conserves_wakers_witness:
  "\<exists>t ready. ppoll_and_schedule (one_map_kernel 0x10000) 1 waiting_sched = Inr ((), t) \<and> set ready \<subseteq> {4, 7} \<and>
     sched_rep t (rev (concat (map (waiting (reg_lookup (io_reg waiting_sched))) ready)))"
proof -
  have reaps: "reaps_within (one_map_kernel 0x10000) 1 (kst waiting_sched)"
    by (simp add: one_map_kernel_def)
  have "\<exists>r. ppoll_and_schedule (one_map_kernel 0x10000) 1 waiting_sched = Inr r"
    by (simp add: ppoll_and_schedule_def waitpid_def waiting_sched_def fresh_sched_def ensure_eventfd_def eventfd_call_def
        fd_or_minus1_def nanosleep_ns_def ret_of_def raw_syscalls do_syscall_def one_map_kernel_def ignore_p_def bind_p_def
        Let_def)
  then have "\<nexists>t. ppoll_and_schedule (one_map_kernel 0x10000) 1 waiting_sched = Inl (Alloc_Error, t)" by auto
  with ppoll_conserves_wakers[OF one_map_kernel_ok waiting_sched_ok reaps] show ?thesis
    by (auto simp: waiting_sched_def)
qed

text \<open>
  C38: Command-line numbers. A decimal numeral of a value below \<open>2^64\<close>, followed by the
  terminating NUL or any byte that is no digit, is parsed to that value.
\<close>

theorem parse_cstring_usize_decimal:
  assumes "v < 2 ^ 64" and "points_to s 0 (decimal v)" and "\<not> is_ascii_digit (s (length (decimal v)))"
  shows "\<exists>w. parse_cstring_usize (Some s) = Some w \<and> unat w = v"
proof -
  define n where "n = 63 - length (decimal v)"
  have n: "64 = length (decimal v) + Suc n" using length_decimal[OF assms(1)] by (simp add: n_def)
  have "parse_usize_loop s 64 0 0 False = (of_nat v, True)"
    unfolding n using usize_number[OF assms(2), of "Suc n" False] assms(3) by (simp add: Let_def)
  then show ?thesis using assms(1) by (simp add: parse_cstring_usize_def unat_of_nat_small)
qed

text \<open>
  C39: Command-line addresses. Parsing an address never panics; the dotted decimal form of four
  bytes gives the word whose bytes in memory are those four, in order.
\<close>

theorem parse_cstring_ip_dotted:
  "(\<exists>r. parse_cstring_ip p = Inr r) \<and>
   (\<forall>s a b c d. p = Some s \<and> a < 256 \<and> b < 256 \<and> c < 256 \<and> d < 256 \<and>
      points_to s 0 (decimal a @ [46] @ decimal b @ [46] @ decimal c @ [46] @ decimal d @ [0]) \<longrightarrow>
      (\<exists>w. parse_cstring_ip p = Inr (Some w) \<and> unat w = a + 256 * b + 256 ^ 2 * c + 256 ^ 3 * d))"
proof (intro conjI allI impI)
  show "\<exists>r. parse_cstring_ip p = Inr r"
    by (cases p) (simp_all add: parse_cstring_ip_def parse_ip_loop_total)
  fix s a b c d
  assume asm: "p = Some s \<and> a < 256 \<and> b < 256 \<and> c < 256 \<and> d < 256 \<and>
    points_to s 0 (decimal a @ [46] @ decimal b @ [46] @ decimal c @ [46] @ decimal d @ [0])"
  have v: "be_value [of_nat d, of_nat c, of_nat b, of_nat a] = a + 256 * b + 256 ^ 2 * c + 256 ^ 3 * d"
    using asm by (simp add: be_value_def unat_of_nat_small)
  then have "unat (of_nat (be_value [of_nat d, of_nat c, of_nat b, of_nat a]) :: u32) = a + 256 * b + 256 ^ 2 * c + 256 ^ 3 * d"
    using unat_of_nat_small[of "be_value [of_nat d, of_nat c, of_nat b, of_nat a]", where 'a = 32]
      be_value_less[of "[of_nat d, of_nat c, of_nat b, of_nat a]"] by simp
  then show "\<exists>w. parse_cstring_ip p = Inr (Some w) \<and> unat w = a + 256 * b + 256 ^ 2 * c + 256 ^ 3 * d"
    using asm parse_ip_loop_dotted[of a b c d s] by (simp add: parse_cstring_ip_def)
qed

theorem parse_cstring_usize_decimal_witness:
  "\<exists>w. parse_cstring_usize (Some (\<lambda>i. if i < 2 then str ''16'' ! i else 0)) = Some w \<and> unat w = 16"
proof (rule parse_cstring_usize_decimal)
  have d: "decimal 16 = str ''16''" by (simp add: decimal_simps dec_digit_def)
  show "points_to (\<lambda>i. if i < 2 then str ''16'' ! i else 0) 0 (decimal 16)"
    unfolding d by (simp add: points_to_def)
  show "\<not> is_ascii_digit (if length (decimal 16) < 2 then str ''16'' ! length (decimal 16) else 0)"
    unfolding d by (simp add: is_ascii_digit_def)
qed simp

theorem parse_cstring_ip_dotted_witness:
  "\<exists>w. parse_cstring_ip (Some (\<lambda>i. if i < 7 then str ''1.2.3.4'' ! i else 0)) = Inr (Some w) \<and>
     unat w = 1 + 256 * 2 + 256 ^ 2 * 3 + 256 ^ 3 * 4"
proof -
  let ?s = "\<lambda>i. if i < 7 then str ''1.2.3.4'' ! i else 0"
  have "points_to ?s 0 (decimal 1 @ [46] @ decimal 2 @ [46] @ decimal 3 @ [46] @ decimal 4 @ [0])"
    by (simp add: decimal_simps dec_digit_def)
  then show ?thesis
    using parse_cstring_ip_dotted[of "Some ?s"] by (elim conjE allE[of _ ?s] allE[of _ 1] allE[of _ 2]
      allE[of _ 3] allE[of _ 4]) simp
qed

end
