(* ===== verification/Codec.thy ===== *)
theory Codec
  imports Prelude
begin

text \<open>
  The interface of a self-delimiting message codec over a byte stream, and what a client that
  accumulates received chunks gets from it: every message once, in order, whatever the chunking.
\<close>

text \<open>
  The receive loop of a stream client: decode messages off the front of the buffer until the
  decoder asks for more bytes.
\<close>

function drain :: "(bytes \<Rightarrow> (nat \<times> 'm) option) \<Rightarrow> bytes \<Rightarrow> 'm list \<times> bytes" where
  "drain dec buf =
     (case dec buf of
        None \<Rightarrow> ([], buf)
      | Some (n, m) \<Rightarrow>
          if n = 0 \<or> length buf < n then ([], buf)
          else (let (ms, rest) = drain dec (drop n buf) in (m # ms, rest)))"
  by pat_completeness auto
termination
  by (relation "measure (\<lambda>(dec, buf). length buf)") auto

declare drain.simps [simp del]

definition feed :: "(bytes \<Rightarrow> (nat \<times> 'm) option) \<Rightarrow> 'm list \<times> bytes \<Rightarrow> bytes \<Rightarrow> 'm list \<times> bytes" where
  "feed dec st chunk = (let (ms', rest) = drain dec (snd st @ chunk) in (fst st @ ms', rest))"

locale stream_codec =
  fixes enc :: "'f \<Rightarrow> bytes"
    and dec :: "bytes \<Rightarrow> (nat \<times> 'm) option"
    and valid :: "'f \<Rightarrow> bool"
    and view :: "'f \<Rightarrow> 'm"
  assumes dec_enc: "valid f \<Longrightarrow> dec (enc f @ rest) = Some (length (enc f), view f)"
    and dec_append: "dec buf = Some r \<Longrightarrow> dec (buf @ more) = Some r"
    and dec_consumed: "dec buf = Some (n, m) \<Longrightarrow> 0 < n \<and> n \<le> length buf"
begin

lemma drain_None: "dec buf = None \<Longrightarrow> drain dec buf = ([], buf)"
  by (simp add: drain.simps)

lemma drain_Some:
  "dec buf = Some (n, m) \<Longrightarrow>
    drain dec buf = (m # fst (drain dec (drop n buf)), snd (drain dec (drop n buf)))"
  using dec_consumed[of buf n m] by (subst drain.simps) (auto split: prod.splits)

text \<open>A proper prefix of a message is incomplete.\<close>

lemma prefix_incomplete:
  assumes "valid f" and "enc f = p @ q" and "q \<noteq> []"
  shows "dec p = None"
proof (rule ccontr)
  assume "dec p \<noteq> None"
  then obtain n m where p: "dec p = Some (n, m)" by auto
  with dec_append[of p "(n, m)" q] dec_enc[OF assms(1), of "[]"] assms(2)
  have "n = length (enc f)" by simp
  with dec_consumed[OF p] assms(2,3) show False by simp
qed

lemma drain_frames:
  assumes "\<forall>f \<in> set fs. valid f" and "dec tail = None"
  shows "drain dec (concat (map enc fs) @ tail) = (map view fs, tail)"
  using assms(1)
proof (induction fs)
  case Nil
  then show ?case by (simp add: drain_None assms(2))
next
  case (Cons f fs)
  then have "dec (concat (map enc (f # fs)) @ tail) = Some (length (enc f), view f)"
    by (simp add: dec_enc)
  from drain_Some[OF this] Cons show ?case by simp
qed

lemma drain_rest_None: "dec (snd (drain dec buf)) = None"
proof (induction "length buf" arbitrary: buf rule: less_induct)
  case less
  show ?case
  proof (cases "dec buf")
    case None
    then show ?thesis by (simp add: drain_None)
  next
    case (Some r)
    then obtain n m where nm: "dec buf = Some (n, m)" by (cases r) auto
    with dec_consumed[OF nm] less[of "drop n buf"] drain_Some[OF nm] show ?thesis by auto
  qed
qed

text \<open>Draining early loses nothing: the messages found so far, then those of the rest.\<close>

lemma drain_append:
  "drain dec (buf @ more) =
     (fst (drain dec buf) @ fst (drain dec (snd (drain dec buf) @ more)),
      snd (drain dec (snd (drain dec buf) @ more)))"
proof (induction "length buf" arbitrary: buf rule: less_induct)
  case less
  show ?case
  proof (cases "dec buf")
    case None
    then show ?thesis by (simp add: drain_None)
  next
    case (Some r)
    then obtain n m where nm: "dec buf = Some (n, m)" by (cases r) auto
    note c = dec_consumed[OF nm]
    have "drain dec (drop n buf @ more) =
      (fst (drain dec (drop n buf)) @ fst (drain dec (snd (drain dec (drop n buf)) @ more)),
       snd (drain dec (snd (drain dec (drop n buf)) @ more)))"
      using c by (intro less) auto
    with drain_Some[OF nm] drain_Some[OF dec_append[OF nm, of more]] c show ?thesis by simp
  qed
qed

lemma feed_chunks: "foldl (feed dec) ([], []) cs = drain dec (concat cs)"
proof (induction cs rule: rev_induct)
  case Nil
  show ?case
    using dec_consumed[of "[]"] by (cases "dec []") (auto simp: drain_None)
next
  case (snoc c cs)
  then show ?case
    by (simp add: feed_def drain_append[of "concat cs" c] split: prod.splits)
qed

text \<open>
  A stream of valid messages comes out complete and in order however it is cut into chunks, and
  nothing is left in the buffer.
\<close>

lemma feed_stream:
  assumes "\<forall>f \<in> set fs. valid f" and "concat cs = concat (map enc fs)"
  shows "foldl (feed dec) ([], []) cs = (map view fs, [])"
proof -
  have "dec [] = None" using dec_consumed[of "[]"] by (cases "dec []") auto
  then show ?thesis
    using drain_frames[OF assms(1), of "[]"] by (simp add: feed_chunks assms(2))
qed

end

end
