(* ===== verification/Parsing.thy ===== *)
theory Parsing
  imports Codec
begin

text \<open>
  Parsing utilities of the utils crate (src/crates/utils/parsing.rs): the header search
  \<open>find_header_value\<close> and the WebSocket frame codec \<open>parse_websocket_frame\<close> and
  \<open>build_websocket_frame\<close>. Lengths announced by a frame are 64-bit words and their sums
  wrap around; every index and slice of the code is checked.
\<close>

section \<open>Header search\<close>

text \<open>\<open>while j < req.len() && (req[j] == b':' || req[j] == b' ') { j += 1 }\<close>\<close>

function skip_separators :: "bytes \<Rightarrow> nat \<Rightarrow> nat" where
  "skip_separators req j =
     (if j < length req \<and> (req ! j = 58 \<or> req ! j = SP) then skip_separators req (j + 1) else j)"
  by pat_completeness auto
termination
  by (relation "measure (\<lambda>(req, j). length req - j)") auto

declare skip_separators.simps [simp del]

text \<open>\<open>while k + 1 < req.len()\<close>, stopping at the first CR LF.\<close>

function find_line_end :: "bytes \<Rightarrow> nat \<Rightarrow> nat" where
  "find_line_end req k =
     (if k + 1 < length req
      then if req ! k = CR \<and> req ! (k + 1) = LF then k else find_line_end req (k + 1)
      else k)"
  by pat_completeness auto
termination
  by (relation "measure (\<lambda>(req, k). length req - k)") auto

declare find_line_end.simps [simp del]

function find_header_from :: "bytes \<Rightarrow> bytes \<Rightarrow> nat \<Rightarrow> bytes option res" where
  "find_header_from req needle i =
     (if i + length needle < length req
      then bind_res (sub_slice req i (i + length needle)) (\<lambda>s.
           if s = needle
           then let j = skip_separators req (i + length needle);
                    k = find_line_end req j
                in bind_res (sub_slice req j k) (\<lambda>v. Inr (Some v))
           else find_header_from req needle (i + 1))
      else Inr None)"
  by pat_completeness auto
termination
  by (relation "measure (\<lambda>(req, needle, i). length req - i)") auto

declare find_header_from.simps [simp del]

definition find_header_value :: "bytes \<Rightarrow> string \<Rightarrow> bytes option res" where
  "find_header_value req name = find_header_from req (str name) 0"

section \<open>WebSocket frames\<close>

text \<open>
  The extended length: two bytes after 126, eight bytes after 127, read most significant first;
  \<open>None\<close> when the buffer is too short.
\<close>

fun read_len64 :: "bytes \<Rightarrow> nat \<Rightarrow> nat \<Rightarrow> usize \<Rightarrow> (usize \<times> nat) res" where
  "read_len64 buf 0 pos payload_len = Inr (payload_len, pos)"
| "read_len64 buf (Suc n) pos payload_len =
     bind_res (index buf pos) (\<lambda>b.
     read_len64 buf n (pos + 1) (push_bit 8 payload_len OR ucast b))"

definition extended_len :: "bytes \<Rightarrow> usize \<Rightarrow> nat \<Rightarrow> (usize \<times> nat) option res" where
  "extended_len buf payload_len pos =
     (if payload_len = 126 then
        if length buf < pos + 2 then Inr None
        else bind_res (index buf pos) (\<lambda>hi.
             bind_res (index buf (pos + 1)) (\<lambda>lo.
             Inr (Some (push_bit 8 (ucast hi) OR ucast lo, pos + 2))))
      else if payload_len = 127 then
        if length buf < pos + 8 then Inr None
        else bind_res (read_len64 buf 8 pos 0) (\<lambda>r. Inr (Some r))
      else Inr (Some (payload_len, pos)))"

text \<open>\<open>for i in 0..payload_len { payload[i] ^= key[i & 3] }\<close>\<close>

fun unmask :: "bytes \<Rightarrow> nat list \<Rightarrow> bytes \<Rightarrow> bytes res" where
  "unmask key [] payload = Inr payload"
| "unmask key (i # is) payload =
     bind_res (index payload i) (\<lambda>p.
     bind_res (index key (i AND 3)) (\<lambda>k.
     bind_res (set_index payload i (p XOR k)) (\<lambda>payload'. unmask key is payload')))"

definition parse_websocket_frame :: "bytes \<Rightarrow> (usize \<times> bool \<times> u8 \<times> bytes) option res" where
  "parse_websocket_frame buf =
     (if length buf < 2 then Inr None
      else bind_res (index buf 0) (\<lambda>b1.
      bind_res (index buf 1) (\<lambda>b2.
      let fin = (b1 AND 0x80) \<noteq> 0;
          opcode = b1 AND 0x0f;
          masked = (b2 AND 0x80) \<noteq> 0
      in bind_res (extended_len buf (ucast (b2 AND 0x7f)) 2) (\<lambda>ext.
         case ext of None \<Rightarrow> Inr None
         | Some (payload_len, mask_key_pos) \<Rightarrow>
           (if masked \<and> length buf < mask_key_pos + 4 then Inr None
            else let pos = (if masked then mask_key_pos + 4 else mask_key_pos);
                     frame_total = of_nat pos + payload_len
                 in if length buf < unat frame_total then Inr None
                    else bind_res
                           (if 0 < payload_len then sub_slice buf pos (unat (of_nat pos + payload_len))
                            else Inr []) (\<lambda>payload.
                         bind_res
                           (if masked
                            then bind_res (sub_slice buf mask_key_pos (mask_key_pos + 4)) (\<lambda>key.
                                 unmask key [0..<unat payload_len] payload)
                            else Inr payload) (\<lambda>payload.
                         Inr (Some (frame_total, fin, opcode, payload)))))))))"

definition build_websocket_frame :: "u8 \<Rightarrow> bytes \<Rightarrow> bytes" where
  "build_websocket_frame opcode payload =
     (let l = length payload;
          lw = of_nat l :: usize
      in [0x80 OR opcode] @
         (if l < 126 then [of_nat l]
          else if l < 65536 then [126, ucast (drop_bit 8 lw AND 0xff), ucast (lw AND 0xff)]
          else [127] @ push_be64 lw) @
         payload)"

section \<open>A reference parser\<close>

text \<open>
  The same frame layout over natural numbers. The header gives the payload length and where the
  masking key or the payload starts; a length that does not fit the 64-bit address space is where
  the code's slice panics.
\<close>

definition frame_header :: "bytes \<Rightarrow> (nat \<times> nat) option" where
  "frame_header buf =
     (let l7 = unat (buf ! 1) mod 128
      in if l7 = 126 then if length buf < 4 then None else Some (be_value (take 2 (drop 2 buf)), 4)
         else if l7 = 127 then if length buf < 10 then None else Some (be_value (take 8 (drop 2 buf)), 10)
         else Some (l7, 2))"

definition apply_mask :: "bytes \<Rightarrow> bytes \<Rightarrow> bytes" where
  "apply_mask key xs = map (\<lambda>i. xs ! i XOR key ! (i mod 4)) [0..<length xs]"

definition ref_parse :: "bytes \<Rightarrow> (nat \<times> bool \<times> u8 \<times> bytes) option res" where
  "ref_parse buf =
     (if length buf < 2 then Inr None
      else case frame_header buf of
        None \<Rightarrow> Inr None
      | Some (l, hp) \<Rightarrow>
          (let masked = bit (buf ! 1) 7;
               p = hp + (if masked then 4 else 0)
           in if length buf < p then Inr None
              else if 2 ^ 64 \<le> p + l then Inl Slice_Out_Of_Range
              else if length buf < p + l then Inr None
              else let body = take l (drop p buf)
                   in Inr (Some (p + l, bit (buf ! 0) 7, buf ! 0 AND 0x0f,
                        if masked then apply_mask (take 4 (drop hp buf)) body else body))))"

lemma and_high_bit: "(b AND 0x80 \<noteq> 0) \<longleftrightarrow> bit (b :: u8) 7"
  using and_exp_eq_0_iff_not_bit[of b 7] by simp

lemma and_low_bits: "unat (b AND 0x7f :: u8) = unat b mod 128"
  using and_mask_mod[of b 7] by (simp add: mask_eq_exp_minus_1 unat_mod_distrib)

lemma shift_in_byte: "push_bit 8 v OR ucast (b :: u8) = (v * 256 + of_nat (unat b) :: u64)"
proof -
  have "push_bit 8 v AND (ucast b :: u64) = 0"
    by (rule bit_word_eqI) (auto simp: bit_simps dest: bit_imp_le_length)
  then have "push_bit 8 v OR (ucast b :: u64) = push_bit 8 v + ucast b"
    by (simp add: disjunctive_add_eq_or)
  then show ?thesis by (simp add: push_bit_eq_mult mult.commute)
qed

lemma be_value_Cons: "be_value (b # bs) = unat b * 256 ^ length bs + be_value bs"
proof (induction bs rule: rev_induct)
  case (snoc c bs)
  then show ?case
    using be_value_snoc[of "b # bs" c] by (simp add: algebra_simps)
qed (simp add: be_value_def)

lemma read_len64_eq:
  "pos + n \<le> length buf \<Longrightarrow>
    read_len64 buf n pos acc = Inr (acc * 256 ^ n + of_nat (be_value (take n (drop pos buf))), pos + n)"
proof (induction n arbitrary: pos acc)
  case (Suc n)
  have d: "take (Suc n) (drop pos buf) = buf ! pos # take n (drop (Suc pos) buf)"
    using Suc.prems by (simp add: take_Suc_conv_app_nth Cons_nth_drop_Suc[symmetric])
  from Suc show ?case
    by (simp add: shift_in_byte d be_value_Cons algebra_simps)
qed simp

lemma extended_len_eq:
  assumes "2 \<le> length buf"
  shows "extended_len buf (ucast (buf ! 1 AND 0x7f)) 2 =
    Inr (map_option (\<lambda>(l, hp). (of_nat l, hp)) (frame_header buf))"
proof -
  let ?l7 = "unat (buf ! 1) mod 128"
  have w: "(ucast (buf ! 1 AND 0x7f) :: usize) = of_nat ?l7"
    using and_low_bits[of "buf ! 1"] by (metis ucast_of_nat)
  have eq: "((of_nat ?l7 :: usize) = of_nat k) = (?l7 = k)" if "k < 128" for k
  proof -
    have "unat (of_nat ?l7 :: usize) = ?l7" "unat (of_nat k :: usize) = k"
      using that by (auto intro!: unat_of_nat_small)
    then show ?thesis by metis
  qed
  have two: "take 2 (drop 2 buf) = [buf ! 2, buf ! 3]" if "4 \<le> length buf"
    using that by (simp add: numeral_eq_Suc take_Suc_conv_app_nth)
  show ?thesis
    unfolding w extended_len_def frame_header_def
    using eq[of 126] eq[of 127] read_len64_eq[of 2 8 buf 0] two assms
    by (simp add: Let_def shift_in_byte be_value_Cons algebra_simps numeral_3_eq_3)
qed

lemma unmask_eq:
  assumes "length key = 4" and "length payload = n" and "k \<le> n"
  shows "unmask key [k..<n] payload =
    Inr (take k payload @ map (\<lambda>i. payload ! i XOR key ! (i mod 4)) [k..<n])"
  using assms(2,3)
proof (induction "n - k" arbitrary: k payload)
  case 0
  then show ?case by simp
next
  case (Suc m)
  let ?v = "payload ! k XOR key ! (k mod 4)"
  have k: "k < n" and up: "[k..<n] = k # [Suc k..<n]" using Suc by (auto simp: upt_conv_Cons)
  have and3: "k AND 3 = k mod 4"
    using take_bit_eq_mask[of 2 k] by (simp add: take_bit_eq_mod mask_eq_exp_minus_1)
  have "unmask key [k..<n] payload = unmask key [Suc k..<n] (payload[k := ?v])"
    using k Suc.prems assms(1) by (simp add: up and3)
  also have "\<dots> = Inr (take (Suc k) (payload[k := ?v]) @
      map (\<lambda>i. payload[k := ?v] ! i XOR key ! (i mod 4)) [Suc k..<n])"
    using Suc k by (intro Suc.hyps) auto
  also have "map (\<lambda>i. payload[k := ?v] ! i XOR key ! (i mod 4)) [Suc k..<n] =
      map (\<lambda>i. payload ! i XOR key ! (i mod 4)) [Suc k..<n]"
    by (rule map_cong) auto
  finally show ?case using k Suc.prems by (simp add: up take_Suc_conv_app_nth)
qed

lemma unmask_all:
  "length key = 4 \<Longrightarrow> unmask key [0..<length payload] payload = Inr (apply_mask key payload)"
  using unmask_eq[of key payload "length payload" 0] by (simp add: apply_mask_def)

lemma frame_header_bounds:
  "2 \<le> length buf \<Longrightarrow> frame_header buf = Some (l, hp) \<Longrightarrow> l < 2 ^ 64 \<and> 2 \<le> hp \<and> hp \<le> 10 \<and> hp \<le> length buf"
  using be_value_take[of 2 "drop 2 buf"] be_value_take[of 8 "drop 2 buf"]
  by (auto simp: frame_header_def Let_def split: if_splits)

lemma parse_websocket_frame_eq:
  "parse_websocket_frame buf = map_sum id (map_option (\<lambda>(n, r). (of_nat n, r))) (ref_parse buf)"
proof (cases "length buf < 2 \<or> frame_header buf = None")
  case True
  then show ?thesis
    by (auto simp: parse_websocket_frame_def ref_parse_def extended_len_eq[simplified] index_def)
next
  case False
  then obtain l hp where hdr: "frame_header buf = Some (l, hp)" and two: "2 \<le> length buf" by auto
  note b = frame_header_bounds[OF two hdr]
  let ?masked = "bit (buf ! 1) 7"
  let ?p = "hp + (if ?masked then 4 else 0)"
  have p64: "?p < 2 ^ 64" using b by auto
  have total: "unat (of_nat ?p + of_nat l :: usize) = (?p + l) mod 2 ^ 64"
    by (simp add: unat_of_nat flip: of_nat_add)
  have lw: "unat (of_nat l :: usize) = l" "(0 < (of_nat l :: usize)) = (0 < l)"
    using b by (auto simp: unat_of_nat_small word_less_nat_alt)
  show ?thesis
  proof (cases "length buf < ?p")
    case True
    with b two hdr show ?thesis
      by (auto simp: parse_websocket_frame_def ref_parse_def extended_len_eq[simplified] and_high_bit
          index_def split: if_splits)
  next
    case no: False
    have head: "parse_websocket_frame buf =
        (if length buf < (?p + l) mod 2 ^ 64 then Inr None
         else bind_res (if 0 < l then sub_slice buf ?p ((?p + l) mod 2 ^ 64) else Inr []) (\<lambda>payload.
              bind_res (if ?masked then bind_res (sub_slice buf hp (hp + 4)) (\<lambda>key. unmask key [0..<l] payload)
                        else Inr payload) (\<lambda>payload.
              Inr (Some (of_nat (?p + l), bit (buf ! 0) 7, buf ! 0 AND 0x0f, payload)))))"
    proof -
      have idx: "index buf 0 = Inr (buf ! 0)" "index buf 1 = Inr (buf ! 1)"
        using two by (auto simp: index_def)
      show ?thesis
        using no two hdr total lw unfolding parse_websocket_frame_def idx bind_res_simps
        by (cases ?masked) (simp_all add: extended_len_eq[simplified] and_high_bit)
    qed
    show ?thesis
    proof (cases "2 ^ 64 \<le> ?p + l")
      case True
      then have m: "(?p + l) mod 2 ^ 64 = ?p + l - 2 ^ 64" "?p + l - 2 ^ 64 < ?p" "0 < l"
        using p64 b by (auto simp: le_mod_geq)
      from True no two hdr m show ?thesis
        by (simp add: head ref_parse_def sub_slice_def)
    next
      case False
      then have m: "(?p + l) mod 2 ^ 64 = ?p + l" by simp
      have body: "(if 0 < l then sub_slice buf ?p (?p + l) else Inr []) = Inr (take l (drop ?p buf))"
        if "?p + l \<le> length buf"
        using that by auto
      have key: "unmask (take 4 (drop hp buf)) [0..<l] (take l (drop (hp + 4) buf)) =
          Inr (apply_mask (take 4 (drop hp buf)) (take l (drop (hp + 4) buf)))"
        if "hp + 4 + l \<le> length buf"
      proof -
        have "length (take 4 (drop hp buf)) = 4" "length (take l (drop (hp + 4) buf)) = l"
          using that by auto
        then show ?thesis
          using unmask_all[of "take 4 (drop hp buf)" "take l (drop (hp + 4) buf)"] by simp
      qed
      show ?thesis
        using False no two hdr unfolding head m
        by (simp add: ref_parse_def Let_def body key)
    qed
  qed
qed

section \<open>Incremental parsing\<close>

text \<open>A complete frame, and a frame that makes the code panic, stay so when more bytes arrive.\<close>

lemma frame_header_append:
  assumes "2 \<le> length buf" and "frame_header buf = Some h"
  shows "frame_header (buf @ more) = Some h"
  using assms by (auto simp: frame_header_def Let_def nth_append split: if_splits)

lemma ref_parse_append:
  assumes "ref_parse buf \<noteq> Inr None"
  shows "ref_parse (buf @ more) = ref_parse buf"
proof -
  from assms obtain l hp where two: "2 \<le> length buf" and hdr: "frame_header buf = Some (l, hp)"
    by (auto simp: ref_parse_def split: if_splits option.splits)
  show ?thesis
    using assms two hdr frame_header_append[OF two hdr, of more] frame_header_bounds[OF two hdr]
    by (auto simp: ref_parse_def Let_def nth_append split: if_splits)
qed

lemma ref_parse_consumed:
  assumes "ref_parse buf = Inr (Some (n, fin, opcode, payload))"
  shows "2 \<le> n \<and> n \<le> length buf \<and> length payload \<le> n"
proof -
  from assms obtain l hp where two: "2 \<le> length buf" and hdr: "frame_header buf = Some (l, hp)"
    by (auto simp: ref_parse_def split: if_splits option.splits)
  with assms frame_header_bounds[OF two hdr] show ?thesis
    by (auto simp: ref_parse_def Let_def apply_mask_def split: if_splits)
qed

section \<open>Frames on the wire\<close>

text \<open>
  The frame layout of RFC 6455, section 5.2, with the shortest length encoding: what a client
  or a server that follows the protocol puts on the wire.
\<close>

record ws_frame =
  f_fin :: bool
  f_opcode :: nat
  f_mask :: "bytes option"
  f_payload :: bytes

definition be_bytes :: "nat \<Rightarrow> nat \<Rightarrow> bytes" where
  "be_bytes k v = map (\<lambda>i. of_nat (v div 256 ^ i mod 256)) (rev [0..<k])"

definition wire_length :: "nat \<Rightarrow> nat \<Rightarrow> bytes" where
  "wire_length m l =
     (if l < 126 then [of_nat (m + l)]
      else if l < 65536 then of_nat (m + 126) # be_bytes 2 l
      else of_nat (m + 127) # be_bytes 8 l)"

definition wire :: "ws_frame \<Rightarrow> bytes" where
  "wire f =
     of_nat ((if f_fin f then 128 else 0) + f_opcode f) #
     (case f_mask f of
        None \<Rightarrow> wire_length 0 (length (f_payload f)) @ f_payload f
      | Some key \<Rightarrow> wire_length 128 (length (f_payload f)) @ key @ apply_mask key (f_payload f))"

definition valid_frame :: "ws_frame \<Rightarrow> bool" where
  "valid_frame f \<longleftrightarrow> f_opcode f < 16 \<and> length (f_payload f) < 2 ^ 63 \<and>
     (case f_mask f of None \<Rightarrow> True | Some key \<Rightarrow> length key = 4)"

lemma length_be_bytes [simp]: "length (be_bytes k v) = k"
  by (simp add: be_bytes_def)

lemma be_value_be_bytes: "v < 256 ^ k \<Longrightarrow> be_value (be_bytes k v) = v"
  by (simp add: be_bytes_def be_value_digits)

lemma length_apply_mask [simp]: "length (apply_mask key xs) = length xs"
  by (simp add: apply_mask_def)

lemma apply_mask_twice: "apply_mask key (apply_mask key xs) = xs"
  by (rule nth_equalityI) (simp_all add: apply_mask_def xor.assoc)

lemma byte_of_small: "n < 256 \<Longrightarrow> unat (of_nat n :: u8) = n"
  by (rule unat_of_nat_small) simp

lemma bit7_byte: "n < 256 \<Longrightarrow> bit (of_nat n :: u8) 7 \<longleftrightarrow> 128 \<le> n"
proof -
  assume n: "n < 256"
  have "bit (of_nat n :: u8) 7 \<longleftrightarrow> bit n 7" by (simp add: bit_simps)
  also have "\<dots> \<longleftrightarrow> odd (n div 128)" by (simp add: bit_iff_odd)
  also have "\<dots> \<longleftrightarrow> 128 \<le> n"
  proof (cases "128 \<le> n")
    case True
    then have "n div 128 = 1" using n le_div_geq[of 128 n] by simp
    with True show ?thesis by simp
  qed simp
  finally show ?thesis .
qed

lemma low_nibble_byte: "n < 256 \<Longrightarrow> (of_nat n :: u8) AND 0x0f = of_nat (n mod 16)"
proof -
  assume n: "n < 256"
  have "(of_nat n :: u8) AND 0x0f = of_nat n mod 16"
    using and_mask_mod[of "of_nat n :: u8" 4] by (simp add: mask_eq_exp_minus_1)
  moreover have "unat (of_nat n mod 16 :: u8) = unat (of_nat (n mod 16) :: u8)"
    using n by (simp add: unat_mod_distrib byte_of_small)
  ultimately show ?thesis by (simp add: word_unat_eq_iff)
qed

lemma wire_length_nonempty [simp]: "wire_length m l \<noteq> []"
  by (simp add: wire_length_def)

lemma wire_length_header:
  assumes "m \<in> {0, 128}" and "l < 2 ^ 63"
  shows "frame_header (b # wire_length m l @ rest) = Some (l, 1 + length (wire_length m l))"
    and "bit ((b # wire_length m l @ rest) ! 1) 7 \<longleftrightarrow> m = 128"
  using assms be_value_be_bytes[of l 2] be_value_be_bytes[of l 8] byte_of_small[of "128 + l"]
    bit7_byte[of "128 + l"]
  by (auto simp: frame_header_def wire_length_def Let_def byte_of_small bit7_byte)

lemma ref_parse_wire:
  assumes "valid_frame f"
  shows "ref_parse (wire f @ rest) =
    Inr (Some (length (wire f), f_fin f, of_nat (f_opcode f), f_payload f))"
proof -
  let ?l = "length (f_payload f)"
  let ?m = "if f_mask f = None then 0 else 128 :: nat"
  let ?b = "of_nat ((if f_fin f then 128 else 0) + f_opcode f) :: u8"
  define tail where "tail = (case f_mask f of None \<Rightarrow> f_payload f | Some key \<Rightarrow> key @ apply_mask key (f_payload f))"
  have buf: "wire f @ rest = ?b # wire_length ?m ?l @ tail @ rest"
    by (simp add: wire_def tail_def split: option.splits)
  have l: "?l < 2 ^ 63" and op: "f_opcode f < 16" using assms by (auto simp: valid_frame_def)
  have wl: "1 \<le> length (wire_length ?m ?l)" "length (wire_length ?m ?l) \<le> 9"
    by (auto simp: wire_length_def)
  have hdr: "frame_header (wire f @ rest) = Some (?l, 1 + length (wire_length ?m ?l))"
    and mask: "bit ((wire f @ rest) ! 1) 7 \<longleftrightarrow> f_mask f \<noteq> None"
    unfolding buf using wire_length_header[of ?m ?l ?b "tail @ rest"] l by auto
  have "(if f_fin f then 128 else 0) + f_opcode f < 256" using op by simp
  note b = bit7_byte[OF this] low_nibble_byte[OF this]
  have b0: "(wire f @ rest) ! 0 = ?b" "bit ?b 7 = f_fin f" "?b AND 0x0f = of_nat (f_opcode f)"
    unfolding b using op by (auto simp: buf mod_add_left_eq[of 128, symmetric])
  have len: "length (wire f @ rest) = 1 + length (wire_length ?m ?l) + length tail + length rest"
    unfolding buf by simp
  have drop_hp: "drop (1 + length (wire_length ?m ?l)) (wire f @ rest) = tail @ rest"
    unfolding buf by simp
  show ?thesis
  proof (cases "f_mask f")
    case None
    with len l wl hdr mask b0 drop_hp show ?thesis
      by (simp add: ref_parse_def tail_def wire_def)
  next
    case (Some key)
    then have key: "length key = 4" using assms by (simp add: valid_frame_def)
    have "drop (5 + length (wire_length ?m ?l)) (wire f @ rest) =
        drop 4 (drop (1 + length (wire_length ?m ?l)) (wire f @ rest))"
      by (simp only: drop_drop) simp
    then have "drop (5 + length (wire_length 128 ?l)) (wire f @ rest) = apply_mask key (f_payload f) @ rest"
      unfolding drop_hp using Some key by (simp add: tail_def)
    with Some key len l wl hdr mask b0 drop_hp show ?thesis
      by (simp add: ref_parse_def tail_def wire_def apply_mask_twice)
  qed
qed

section \<open>The codec of the code\<close>

definition ws_decode :: "bytes \<Rightarrow> (nat \<times> bool \<times> u8 \<times> bytes) option" where
  "ws_decode buf =
     (case parse_websocket_frame buf of
        Inr (Some (n, fin, opcode, payload)) \<Rightarrow> Some (unat n, fin, opcode, payload)
      | _ \<Rightarrow> None)"

definition ws_view :: "ws_frame \<Rightarrow> bool \<times> u8 \<times> bytes" where
  "ws_view f = (f_fin f, of_nat (f_opcode f), f_payload f)"

lemma ref_parse_bound: "ref_parse buf = Inr (Some (n, r)) \<Longrightarrow> n < 2 ^ 64"
  by (auto simp: ref_parse_def Let_def split: if_splits option.splits)

lemma ws_decode_eq: "ws_decode buf = (case ref_parse buf of Inr x \<Rightarrow> x | Inl _ \<Rightarrow> None)"
proof (cases "ref_parse buf")
  case (Inr x)
  then show ?thesis
    using ref_parse_bound[of buf]
    by (cases x) (auto simp: ws_decode_def parse_websocket_frame_eq unat_of_nat_small)
qed (simp add: ws_decode_def parse_websocket_frame_eq)

interpretation ws: stream_codec wire ws_decode valid_frame ws_view
proof
  fix f rest assume "valid_frame f"
  then show "ws_decode (wire f @ rest) = Some (length (wire f), ws_view f)"
    by (simp add: ws_decode_eq ref_parse_wire ws_view_def)
next
  fix buf r more assume "ws_decode buf = Some r"
  then show "ws_decode (buf @ more) = Some r"
    using ref_parse_append[of buf more] by (auto simp: ws_decode_eq split: sum.splits)
next
  fix buf n m assume "ws_decode buf = Some (n, m)"
  then show "0 < n \<and> n \<le> length buf"
    using ref_parse_consumed[of buf n] by (cases m) (auto simp: ws_decode_eq split: sum.splits)
qed

lemma be_bytes_word: "l < 2 ^ 64 \<Longrightarrow>
    be_bytes k l = map (\<lambda>i. ucast (drop_bit (i * 8) (of_nat l :: usize) AND 0xff)) (rev [0..<k])"
proof -
  assume l: "l < 2 ^ 64"
  have "of_nat (l div 256 ^ i mod 256) = (ucast (drop_bit (i * 8) (of_nat l :: usize) AND 0xff) :: u8)" for i
  proof -
    have "(2::nat) ^ (i * 8) = 256 ^ i" using power_mult[of "2::nat" 8 i] by (simp add: mult.commute)
    then have "unat (ucast (drop_bit (i * 8) (of_nat l :: usize) AND 0xff) :: u8) = l div 256 ^ i mod 256"
      using byte_of_word[of "i * 8" "of_nat l"] l by (simp add: unat_of_nat_small)
    then show ?thesis by (metis of_nat_unat ucast_id)
  qed
  then show ?thesis by (simp add: be_bytes_def)
qed

lemma build_websocket_frame_wire:
  assumes "unat opcode < 16" and "length payload < 2 ^ 63"
  shows "build_websocket_frame opcode payload =
    wire \<lparr>f_fin = True, f_opcode = unat opcode, f_mask = None, f_payload = payload\<rparr>"
proof -
  have "0x80 AND opcode = 0"
  proof -
    have "\<not> bit opcode 7" using bit7_byte[of "unat opcode"] assms(1) by simp
    then show ?thesis using and_high_bit[of opcode] by (simp add: and.commute)
  qed
  then have "0x80 OR opcode = of_nat (128 + unat opcode)"
    by (simp add: disjunctive_add_eq_or[symmetric])
  moreover have "rev [0..<2] = [1, 0::nat]" by (simp add: upt_rec)
  ultimately show ?thesis
    using be_bytes_word[of "length payload" 2] be_bytes_word[of "length payload" 8] assms(2)
    by (simp add: build_websocket_frame_def wire_def wire_length_def push_be64_def Let_def)
qed

section \<open>Header search: what is found\<close>

definition is_separator :: "u8 \<Rightarrow> bool" where
  "is_separator b \<longleftrightarrow> b = 58 \<or> b = SP"

definition crlf_at :: "bytes \<Rightarrow> nat \<Rightarrow> bool" where
  "crlf_at req k \<longleftrightarrow> k + 1 < length req \<and> req ! k = CR \<and> req ! (k + 1) = LF"

definition occurs_at :: "bytes \<Rightarrow> bytes \<Rightarrow> nat \<Rightarrow> bool" where
  "occurs_at req needle i \<longleftrightarrow> i + length needle < length req \<and> take (length needle) (drop i req) = needle"

text \<open>
  The text up to the first CR LF; when there is none, all but the last byte.
\<close>

fun upto_crlf :: "bytes \<Rightarrow> bytes" where
  "upto_crlf [] = []"
| "upto_crlf [b] = []"
| "upto_crlf (b # c # bs) = (if b = CR \<and> c = LF then [] else b # upto_crlf (c # bs))"

text \<open>The value behind an occurrence of the name: colons and blanks dropped, then the rest of the line.\<close>

definition value_behind :: "bytes \<Rightarrow> bytes \<Rightarrow> nat \<Rightarrow> bytes" where
  "value_behind req needle i = upto_crlf (dropWhile is_separator (drop (i + length needle) req))"

lemma skip_separators_drop: "drop (skip_separators req j) req = dropWhile is_separator (drop j req)"
proof (induction req j rule: skip_separators.induct)
  case (1 req j)
  show ?case
  proof (cases "j < length req")
    case True
    then have "drop j req = req ! j # drop (j + 1) req" by (simp add: Cons_nth_drop_Suc)
    with 1 True show ?thesis by (auto simp: skip_separators.simps[of req j] is_separator_def)
  qed (simp add: skip_separators.simps[of req j])
qed

lemma skip_separators_bounds: "j \<le> length req \<Longrightarrow> skip_separators req j \<le> length req"
proof (induction req j rule: skip_separators.induct)
  case (1 req j)
  then show ?case
    by (cases "j < length req \<and> (req ! j = 58 \<or> req ! j = SP)") (auto simp: skip_separators.simps[of req j])
qed

lemma find_line_end_bounds: "k \<le> find_line_end req k \<and> (k \<le> length req \<longrightarrow> find_line_end req k \<le> length req)"
proof (induction req k rule: find_line_end.induct)
  case (1 req k)
  then show ?case by (auto simp: find_line_end.simps[of req k])
qed

lemma find_line_end_take: "take (find_line_end req k - k) (drop k req) = upto_crlf (drop k req)"
proof (induction req k rule: find_line_end.induct)
  case (1 req k)
  show ?case
  proof (cases "k + 1 < length req")
    case True
    then have two: "drop k req = req ! k # req ! (k + 1) # drop (k + 2) req" "drop (k + 1) req = req ! (k + 1) # drop (k + 2) req"
      by (simp_all add: Cons_nth_drop_Suc)
    show ?thesis
    proof (cases "req ! k = CR \<and> req ! (k + 1) = LF")
      case crlf: True
      then show ?thesis using True two by (simp add: find_line_end.simps[of req k])
    next
      case False
      then have "find_line_end req k = find_line_end req (k + 1)" using True by (auto simp: find_line_end.simps[of req k])
      moreover have "Suc (find_line_end req (k + 1) - (k + 1)) = find_line_end req (k + 1) - k"
        using find_line_end_bounds[of "k + 1" req] by (metis Suc_diff_Suc Suc_le_lessD Suc_eq_plus1)
      ultimately show ?thesis
        using "1.IH"[OF True False] two False by (metis take_Suc_Cons upto_crlf.simps(3))
    qed
  next
    case False
    then have "drop k req = [] \<or> (\<exists>b. drop k req = [b])"
      by (cases "k < length req") (auto simp: Cons_nth_drop_Suc[symmetric])
    with False show ?thesis by (auto simp: find_line_end.simps[of req k])
  qed
qed

lemma header_value_slice:
  assumes "j = skip_separators req (i + length needle)"
  shows "take (find_line_end req j - j) (drop j req) = value_behind req needle i"
  using find_line_end_take[of req j] skip_separators_drop[of req "i + length needle"] assms by (simp add: value_behind_def)

lemma find_header_from_eq:
  "find_header_from req needle i =
     (if \<exists>k \<ge> i. occurs_at req needle k
      then Inr (Some (value_behind req needle (LEAST k. i \<le> k \<and> occurs_at req needle k)))
      else Inr None)"
proof (induction req needle i rule: find_header_from.induct)
  case (1 req needle i)
  let ?n = "length needle"
  show ?case
  proof (cases "i + ?n < length req")
    case False
    then have "\<not> (\<exists>k \<ge> i. occurs_at req needle k)" by (auto simp: occurs_at_def)
    with False show ?thesis by (subst find_header_from.simps) simp
  next
    case True
    then have sl: "sub_slice req i (i + ?n) = Inr (take ?n (drop i req))" by simp
    show ?thesis
    proof (cases "occurs_at req needle i")
      case here: True
      then have eq: "take ?n (drop i req) = needle" by (simp add: occurs_at_def)
      let ?j = "skip_separators req (i + ?n)"
      have "?j \<le> length req" using skip_separators_bounds[of "i + ?n" req] True by simp
      then have "sub_slice req ?j (find_line_end req ?j) = Inr (value_behind req needle i)"
        using find_line_end_bounds[of ?j req] header_value_slice[OF refl, of req i needle] by simp
      moreover have "(LEAST k. i \<le> k \<and> occurs_at req needle k) = i"
        using here by (intro Least_equality) auto
      moreover have "\<exists>k \<ge> i. occurs_at req needle k" using here by auto
      ultimately show ?thesis
        using True sl eq by (subst find_header_from.simps) simp
    next
      case not_here: False
      then have ne: "take ?n (drop i req) \<noteq> needle" using True by (simp add: occurs_at_def)
      have iff: "(i \<le> k \<and> occurs_at req needle k) = (i + 1 \<le> k \<and> occurs_at req needle k)" for k
        using not_here by (cases "k = i") auto
      have "find_header_from req needle i = find_header_from req needle (i + 1)"
        using True sl ne by (subst find_header_from.simps) simp
      also have "\<dots> = (if \<exists>k. i + 1 \<le> k \<and> occurs_at req needle k
          then Inr (Some (value_behind req needle (LEAST k. i + 1 \<le> k \<and> occurs_at req needle k)))
          else Inr None)"
        using "1.IH"[OF True] ne by simp
      finally show ?thesis unfolding iff .
    qed
  qed
qed

lemma upto_crlf_line: "\<forall>m. \<not> crlf_at (v @ [CR]) m \<Longrightarrow> upto_crlf (v @ CR # LF # post) = v"
proof (induction v)
  case (Cons b v)
  have "\<not> crlf_at (v @ [CR]) m" for m using Cons.prems[rule_format, of "m + 1"] by (simp add: crlf_at_def)
  then have "upto_crlf (v @ CR # LF # post) = v" using Cons.IH by blast
  moreover have "b = CR \<longrightarrow> v = [] \<or> hd v \<noteq> LF"
    using Cons.prems[rule_format, of 0] by (cases v) (auto simp: crlf_at_def)
  ultimately show ?case by (cases v) auto
qed simp

lemma value_behind_line:
  assumes req: "req = pre @ name @ seps @ v @ [CR, LF] @ post"
    and seps: "\<forall>b \<in> set seps. is_separator b"
    and v: "v = [] \<or> \<not> is_separator (hd v)"
    and no_crlf: "\<forall>m. \<not> crlf_at (v @ [CR]) m"
  shows "value_behind req name (length pre) = v"
proof -
  have "dropWhile is_separator (seps @ v @ CR # LF # post) = v @ CR # LF # post"
    using seps v by (cases v) (auto simp: is_separator_def dropWhile_append)
  then show ?thesis using upto_crlf_line[OF no_crlf] by (simp add: value_behind_def req)
qed

section \<open>Properties\<close>

text \<open>
  C7: Parsing what RFC 6455 puts on the wire gives the frame back. For every frame with a
  four-bit opcode, masked or not, of any length a vector can have, \<open>parse_websocket_frame\<close>
  on its encoding, whatever bytes follow, returns the encoding's length, the FIN flag, the opcode
  and the unmasked payload.
\<close>

theorem parse_websocket_frame_wire:
  assumes "valid_frame f"
  shows "parse_websocket_frame (wire f @ rest) =
    Inr (Some (of_nat (length (wire f)), f_fin f, of_nat (f_opcode f), f_payload f))"
  using ref_parse_wire[OF assms, of rest] by (simp add: parse_websocket_frame_eq)

theorem parse_websocket_frame_wire_witness:
  "parse_websocket_frame
     (wire \<lparr>f_fin = True, f_opcode = 1, f_mask = Some [0x37, 0xfa, 0x21, 0x3d], f_payload = str ''Hello''\<rparr> @ [1, 2]) =
   Inr (Some (11, True, 1, str ''Hello''))"
  using parse_websocket_frame_wire
    [of "\<lparr>f_fin = True, f_opcode = 1, f_mask = Some [0x37, 0xfa, 0x21, 0x3d], f_payload = str ''Hello''\<rparr>" "[1, 2]"]
  by (simp add: valid_frame_def wire_def wire_length_def)

text \<open>
  C20: The parser panics exactly when a complete header announces a payload whose end lies beyond
  the 64-bit address space (the end wraps around and the slice range is inverted); no other
  index or slice of it can fail.
\<close>

theorem parse_websocket_frame_panics_iff:
  "parse_websocket_frame buf = Inl e \<longleftrightarrow>
     e = Slice_Out_Of_Range \<and> 2 \<le> length buf \<and>
     (case frame_header buf of
        None \<Rightarrow> False
      | Some (l, hp) \<Rightarrow>
          (let p = hp + (if bit (buf ! 1) 7 then 4 else 0) in p \<le> length buf \<and> 2 ^ 64 \<le> p + l))"
  by (auto simp: parse_websocket_frame_eq ref_parse_def Let_def map_sum_def
      split: option.splits if_splits)

text \<open>
  C21: Incremental parsing is stable: once the parser has decided on a buffer (a frame or a
  panic), further received bytes do not change its answer, and a returned frame has consumed at
  least two bytes and no more than were there. So the buffered loop of the server always
  progresses and never drains past its buffer.
\<close>

theorem parse_websocket_frame_stable:
  assumes "parse_websocket_frame buf \<noteq> Inr None"
  shows "parse_websocket_frame (buf @ extra) = parse_websocket_frame buf \<and>
    (\<forall>n fin opcode payload. parse_websocket_frame buf = Inr (Some (n, fin, opcode, payload)) \<longrightarrow>
       2 \<le> unat n \<and> unat n \<le> length buf \<and> length payload \<le> unat n)"
proof -
  have ref: "ref_parse buf \<noteq> Inr None"
    using assms by (auto simp: parse_websocket_frame_eq)
  have "2 \<le> unat n \<and> unat n \<le> length buf \<and> length payload \<le> unat n"
    if n: "parse_websocket_frame buf = Inr (Some (n, fin, opcode, payload))" for n fin opcode payload
  proof -
    from n obtain m where m: "ref_parse buf = Inr (Some (m, fin, opcode, payload))" "n = of_nat m"
      by (cases "ref_parse buf") (auto simp: parse_websocket_frame_eq)
    from ref_parse_bound[OF m(1)] have "unat n = m" by (simp add: m(2) unat_of_nat_small)
    with ref_parse_consumed[OF m(1)] show ?thesis by simp
  qed
  with ref_parse_append[OF ref, of extra] show ?thesis by (simp add: parse_websocket_frame_eq)
qed

theorem parse_websocket_frame_stable_witness:
  "parse_websocket_frame ([0x81, 2, 7, 8] @ [9, 9]) = parse_websocket_frame [0x81, 2, 7, 8] \<and>
   parse_websocket_frame [0x81, 2, 7, 8] = Inr (Some (4, True, 1, [7, 8]))"
proof -
  have "parse_websocket_frame [0x81, 2, 7, 8] = Inr (Some (4, True, 1, [7, 8]))"
    by code_simp
  then show ?thesis
    using parse_websocket_frame_stable[of "[0x81, 2, 7, 8]" "[9, 9]"] by simp
qed

text \<open>
  C22: Every frame the server builds for a four-bit opcode parses back, at the front of any
  stream, to a final frame with that opcode and payload.
\<close>

theorem build_parse_roundtrip:
  assumes "unat opcode < 16" and "length payload < 2 ^ 63"
  shows "parse_websocket_frame (build_websocket_frame opcode payload @ rest) =
    Inr (Some (of_nat (length (build_websocket_frame opcode payload)), True, opcode, payload))"
proof -
  let ?f = "\<lparr>f_fin = True, f_opcode = unat opcode, f_mask = None, f_payload = payload\<rparr>"
  have "valid_frame ?f" using assms by (simp add: valid_frame_def)
  from ref_parse_wire[OF this, of rest] show ?thesis
    by (simp add: parse_websocket_frame_eq build_websocket_frame_wire[OF assms])
qed

theorem build_parse_roundtrip_witness:
  "parse_websocket_frame (build_websocket_frame 10 (replicate 300 7) @ [1]) =
     Inr (Some (of_nat (length (build_websocket_frame 10 (replicate 300 7))), True, 10, replicate 300 7))"
  using build_parse_roundtrip[of 10 "replicate 300 7" "[1]"] by simp

text \<open>
  C32: \<open>find_header_value\<close> never panics. It finds the first occurrence of the name that
  ends before the last byte of the request, drops the colons and blanks behind it and returns the text up to
  the first CR LF; when the request has no CR LF from there on, it returns all of the rest but the last byte. Without
  such an occurrence it returns nothing.
\<close>

theorem find_header_value_first:
  "find_header_value req name =
     (if \<exists>k. occurs_at req (str name) k
      then Inr (Some (value_behind req (str name) (LEAST k. occurs_at req (str name) k)))
      else Inr None)"
  by (simp add: find_header_value_def find_header_from_eq)

text \<open>
  C33: For a well-formed header line whose name occurs nowhere before it, the value found is
  exactly the text between the separators and the line's CR LF.
\<close>

theorem find_header_value_correct:
  assumes "req = pre @ str name @ seps @ v @ [CR, LF] @ post"
    and "\<forall>b \<in> set seps. is_separator b"
    and "v = [] \<or> \<not> is_separator (hd v)"
    and "\<forall>m. \<not> crlf_at (v @ [CR]) m"
    and "\<forall>k < length pre. \<not> occurs_at req (str name) k"
  shows "find_header_value req name = Inr (Some v)"
proof -
  have "occurs_at req (str name) (length pre)"
    by (simp add: assms(1) occurs_at_def)
  moreover from this have "(LEAST k. 0 \<le> k \<and> occurs_at req (str name) k) = length pre"
    by (intro Least_equality) (use assms(5) not_le in blast)+
  ultimately show ?thesis
    using value_behind_line[OF assms(1-4)] by (auto simp: find_header_value_def find_header_from_eq)
qed

theorem find_header_value_correct_witness:
  "find_header_value (str ''GET /ws\<newline>K: ab'' @ [CR, LF]) ''K'' = Inr (Some (str ''ab''))"
proof (rule find_header_value_correct[where pre = "str ''GET /ws\<newline>''" and seps = "str '': ''" and post = "[]"])
  show "\<forall>k<length (str ''GET /ws\<newline>''). \<not> occurs_at (str ''GET /ws\<newline>K: ab'' @ [CR, LF]) (str ''K'') k"
    by (simp add: occurs_at_def All_less_Suc)
  show "\<forall>m. \<not> crlf_at (str ''ab'' @ [CR]) m"
    by (auto simp: crlf_at_def nth_Cons split: nat.splits)
qed (simp_all add: is_separator_def)

end
