(* ===== verification/Sha1.thy ===== *)
theory Sha1
  imports Prelude
begin

text \<open>
  SHA-1 of the utils crate (\<open>rol\<close> and \<open>sha1\<close>, src/crates/utils/crypto.rs) and its
  equivalence with the Secure Hash Standard: the in-place message schedule, the padding loop and
  the rounds of the code compute the standard's recurrences, and no array access panics.
\<close>

section \<open>The code\<close>

definition rol :: "u32 \<Rightarrow> u32 \<Rightarrow> u32" where
  "rol v s = word_rotl (unat s) v"

text \<open>\<open>while (msg.len() % 64) != 56 { msg.push(0) }\<close>\<close>

function pad_loop :: "bytes \<Rightarrow> bytes" where
  "pad_loop msg = (if length msg mod 64 \<noteq> 56 then pad_loop (msg @ [0]) else msg)"
  by pat_completeness auto
termination
proof (relation "measure (\<lambda>msg. (120 - length msg mod 64) mod 64)", simp)
  fix msg :: bytes
  assume ne: "length msg mod 64 \<noteq> 56"
  have dist: "(120 - m) mod 64 = (if m \<le> 56 then 56 - m else 120 - m)" if "m < 64" for m :: nat
    using that le_mod_geq[of 64 "120 - m"] by auto
  have lt: "length msg mod 64 < 64" "Suc (length msg) mod 64 < 64" by simp_all
  have "(120 - Suc (length msg) mod 64) mod 64 < (120 - length msg mod 64) mod 64"
    unfolding dist[OF lt(1)] dist[OF lt(2)] using ne lt(1) by (auto simp: mod_Suc)
  then show "(msg @ [0], msg) \<in> measure (\<lambda>msg. (120 - length msg mod 64) mod 64)"
    by simp
qed

declare pad_loop.simps [simp del]

definition sha1_message :: "bytes \<Rightarrow> bytes" where
  "sha1_message input =
     (let bit_len = of_nat (length input) * 8
      in pad_loop (input @ [0x80]) @ push_be64 bit_len)"

text \<open>\<open>for (i, item) in w.iter_mut().enumerate().take(16)\<close>: the chunk's big-endian words.\<close>

definition chunk_word :: "bytes \<Rightarrow> nat \<Rightarrow> u32 res" where
  "chunk_word chunk i =
     (let j = i * 4
      in bind_res (index chunk j) (\<lambda>b0.
         bind_res (index chunk (j + 1)) (\<lambda>b1.
         bind_res (index chunk (j + 2)) (\<lambda>b2.
         bind_res (index chunk (j + 3)) (\<lambda>b3.
         Inr (push_bit 24 (ucast b0) OR push_bit 16 (ucast b1) OR push_bit 8 (ucast b2) OR ucast b3))))))"

fun load_words :: "bytes \<Rightarrow> nat list \<Rightarrow> u32 list \<Rightarrow> u32 list res" where
  "load_words chunk [] w = Inr w"
| "load_words chunk (i # is) w =
     bind_res (chunk_word chunk i) (\<lambda>v.
     bind_res (set_index w i v) (\<lambda>w'. load_words chunk is w'))"

text \<open>\<open>for i in 16..80 { w[i] = rol(w[i - 3] ^ w[i - 8] ^ w[i - 14] ^ w[i - 16], 1) }\<close>\<close>

fun extend_words :: "nat list \<Rightarrow> u32 list \<Rightarrow> u32 list res" where
  "extend_words [] w = Inr w"
| "extend_words (i # is) w =
     bind_res (index w (i - 3)) (\<lambda>x3.
     bind_res (index w (i - 8)) (\<lambda>x8.
     bind_res (index w (i - 14)) (\<lambda>x14.
     bind_res (index w (i - 16)) (\<lambda>x16.
     bind_res (set_index w i (rol (x3 XOR x8 XOR x14 XOR x16) 1)) (\<lambda>w'. extend_words is w')))))"

type_synonym sha1_state = "u32 \<times> u32 \<times> u32 \<times> u32 \<times> u32"

definition round_fk :: "nat \<Rightarrow> u32 \<Rightarrow> u32 \<Rightarrow> u32 \<Rightarrow> u32 \<times> u32" where
  "round_fk i b c d =
     (if i < 20 then ((b AND c) OR (NOT b AND d), 0x5A827999)
      else if i < 40 then (b XOR c XOR d, 0x6ED9EBA1)
      else if i < 60 then ((b AND c) OR (b AND d) OR (c AND d), 0x8F1BBCDC)
      else (b XOR c XOR d, 0xCA62C1D6))"

fun rounds :: "nat \<Rightarrow> u32 list \<Rightarrow> sha1_state \<Rightarrow> sha1_state" where
  "rounds i [] st = st"
| "rounds i (wi # ws) (a, b, c, d, e) =
     (let (f, k) = round_fk i b c d;
          temp = rol a 5 + f + e + k + wi
      in rounds (i + 1) ws (temp, a, rol b 30, c, d))"

text \<open>One iteration of \<open>for chunk in msg.chunks(64)\<close>; \<open>w\<close> lives across chunks.\<close>

definition sha1_chunk :: "bytes \<Rightarrow> u32 list \<times> sha1_state \<Rightarrow> (u32 list \<times> sha1_state) res" where
  "sha1_chunk chunk = (\<lambda>(w, (h0, h1, h2, h3, h4)).
     bind_res (load_words chunk [0..<16] w) (\<lambda>w.
     bind_res (extend_words [16..<80] w) (\<lambda>w.
     let (a, b, c, d, e) = rounds 0 w (h0, h1, h2, h3, h4)
     in Inr (w, (h0 + a, h1 + b, h2 + c, h3 + d, h4 + e)))))"

function chunks :: "nat \<Rightarrow> 'a list \<Rightarrow> 'a list list" where
  "chunks n xs = (if xs = [] \<or> n = 0 then [] else take n xs # chunks n (drop n xs))"
  by pat_completeness auto
termination
  by (relation "measure (\<lambda>(n, xs). length xs)") auto

declare chunks.simps [simp del]

fun sha1_chunks :: "bytes list \<Rightarrow> u32 list \<times> sha1_state \<Rightarrow> (u32 list \<times> sha1_state) res" where
  "sha1_chunks [] st = Inr st"
| "sha1_chunks (chunk # rest) st = bind_res (sha1_chunk chunk st) (sha1_chunks rest)"

definition to_be_bytes :: "u32 \<Rightarrow> bytes" where
  "to_be_bytes h = map (\<lambda>i. ucast (drop_bit (i * 8) h)) (rev [0..<4])"

definition sha1 :: "bytes \<Rightarrow> bytes res" where
  "sha1 input =
     bind_res
       (sha1_chunks (chunks 64 (sha1_message input))
          (replicate 80 0, (0x67452301, 0xEFCDAB89, 0x98BADCFE, 0x10325476, 0xC3D2E1F0)))
       (\<lambda>(_, (h0, h1, h2, h3, h4)).
          Inr (to_be_bytes h0 @ to_be_bytes h1 @ to_be_bytes h2 @ to_be_bytes h3 @ to_be_bytes h4))"

section \<open>The Secure Hash Standard\<close>

text \<open>The functions of FIPS 180-4, section 4.1.1, and the constants of section 4.2.1.\<close>

definition Ch :: "u32 \<Rightarrow> u32 \<Rightarrow> u32 \<Rightarrow> u32" where
  "Ch x y z = (x AND y) XOR (NOT x AND z)"

definition Parity :: "u32 \<Rightarrow> u32 \<Rightarrow> u32 \<Rightarrow> u32" where
  "Parity x y z = x XOR y XOR z"

definition Maj :: "u32 \<Rightarrow> u32 \<Rightarrow> u32 \<Rightarrow> u32" where
  "Maj x y z = (x AND y) XOR (x AND z) XOR (y AND z)"

definition sha_f :: "nat \<Rightarrow> u32 \<Rightarrow> u32 \<Rightarrow> u32 \<Rightarrow> u32" where
  "sha_f t = (if t < 20 then Ch else if t < 40 then Parity else if t < 60 then Maj else Parity)"

definition sha_K :: "nat \<Rightarrow> u32" where
  "sha_K t = (if t < 20 then 0x5A827999 else if t < 40 then 0x6ED9EBA1
     else if t < 60 then 0x8F1BBCDC else 0xCA62C1D6)"

definition block_word :: "bytes \<Rightarrow> nat \<Rightarrow> u32" where
  "block_word block t = of_nat (be_value (take 4 (drop (4 * t) block)))"

fun sched :: "bytes \<Rightarrow> nat \<Rightarrow> u32" where
  "sched block t =
     (if t < 16 then block_word block t
      else word_rotl 1 (sched block (t - 3) XOR sched block (t - 8) XOR
             sched block (t - 14) XOR sched block (t - 16)))"

declare sched.simps [simp del]

definition sha_step :: "bytes \<Rightarrow> sha1_state \<Rightarrow> nat \<Rightarrow> sha1_state" where
  "sha_step block = (\<lambda>(a, b, c, d, e) t.
     (word_rotl 5 a + sha_f t b c d + e + sha_K t + sched block t, a, word_rotl 30 b, c, d))"

definition sha_add :: "sha1_state \<Rightarrow> sha1_state \<Rightarrow> sha1_state" where
  "sha_add = (\<lambda>(a, b, c, d, e) (a', b', c', d', e'). (a + a', b + b', c + c', d + d', e + e'))"

definition sha_compress :: "sha1_state \<Rightarrow> bytes \<Rightarrow> sha1_state" where
  "sha_compress H block = sha_add H (foldl (sha_step block) H [0..<80])"

text \<open>Padding: a one bit, the least number of zero bytes, and the message length in bits.\<close>

definition sha_pad :: "bytes \<Rightarrow> bytes" where
  "sha_pad input =
     input @ [0x80] @ replicate ((119 - length input mod 64) mod 64) 0 @
     push_be64 (of_nat (8 * length input))"

definition sha_init :: sha1_state where
  "sha_init = (0x67452301, 0xEFCDAB89, 0x98BADCFE, 0x10325476, 0xC3D2E1F0)"

definition sha1_standard :: "bytes \<Rightarrow> bytes" where
  "sha1_standard input =
     (let (a, b, c, d, e) = foldl sha_compress sha_init (chunks 64 (sha_pad input))
      in concat (map to_be_bytes [a, b, c, d, e]))"

section \<open>The code computes the standard\<close>

lemma f_k_standard: "round_fk t b c d = (sha_f t b c d, sha_K t)"
proof -
  have ch: "(b AND c) OR (NOT b AND d) = Ch b c d"
    by (rule bit_word_eqI) (auto simp: Ch_def bit_simps)
  have maj: "(b AND c) OR (b AND d) OR (c AND d) = Maj b c d"
    by (rule bit_word_eqI) (auto simp: Maj_def bit_simps)
  show ?thesis
    by (simp add: round_fk_def sha_f_def sha_K_def ch maj Parity_def)
qed

lemma rol_rotl [simp]: "rol v 1 = word_rotl 1 v" "rol v 5 = word_rotl 5 v" "rol v 30 = word_rotl 30 v"
  by (simp_all add: rol_def)

lemma four_bytes:
  assumes "length chunk = 64" and "i < 16"
  shows "take 4 (drop (4 * i) chunk) = [chunk ! (4*i), chunk ! (4*i+1), chunk ! (4*i+2), chunk ! (4*i+3)]"
  by (rule nth_equalityI) (use assms in \<open>auto simp: less_Suc_eq numeral_eq_Suc\<close>)

lemma chunk_word_eq:
  assumes "length chunk = 64" and "i < 16"
  shows "chunk_word chunk i = Inr (block_word chunk i)"
  using assms four_bytes[OF assms]
  by (simp add: chunk_word_def block_word_def shift_or_value Let_def mult.commute)

lemma load_words_eq:
  assumes "length chunk = 64" and "k \<le> 16" and "length ws = 80 - k"
  shows "load_words chunk [k..<16] (map (block_word chunk) [0..<k] @ ws) =
    Inr (map (block_word chunk) [0..<16] @ drop (16 - k) ws)"
  using assms(2,3)
proof (induction "16 - k" arbitrary: k ws)
  case 0
  then show ?case by simp
next
  case (Suc n)
  then obtain x ws' where ws: "ws = x # ws'" by (cases ws) auto
  from Suc have k: "k < 16" and up: "[k..<16] = k # [Suc k..<16]"
    by (auto simp: upt_conv_Cons)
  have "load_words chunk [k..<16] (map (block_word chunk) [0..<k] @ ws) =
      load_words chunk [Suc k..<16] (map (block_word chunk) [0..<Suc k] @ ws')"
    using k by (simp add: up chunk_word_eq assms(1) ws list_update_append)
  also have "\<dots> = Inr (map (block_word chunk) [0..<16] @ drop (16 - Suc k) ws')"
    using Suc k ws by (intro Suc.hyps) auto
  finally show ?case using k by (simp add: ws Suc_diff_Suc drop_Cons')
qed

lemma extend_words_eq:
  assumes "16 \<le> k" and "k \<le> 80" and "length ws = 80 - k"
  shows "extend_words [k..<80] (map (sched block) [0..<k] @ ws) = Inr (map (sched block) [0..<80])"
  using assms
proof (induction "80 - k" arbitrary: k ws)
  case 0
  then show ?case by simp
next
  case (Suc n)
  then obtain x ws' where ws: "ws = x # ws'" by (cases ws) auto
  from Suc have k: "k < 80" "16 \<le> k" and up: "[k..<80] = k # [Suc k..<80]"
    by (auto simp: upt_conv_Cons)
  have "extend_words [k..<80] (map (sched block) [0..<k] @ ws) =
      extend_words [Suc k..<80] (map (sched block) [0..<Suc k] @ ws')"
    using k by (simp add: up ws list_update_append nth_append sched.simps[of block k])
  also have "\<dots> = Inr (map (sched block) [0..<80])"
    using Suc k ws by (intro Suc.hyps) auto
  finally show ?case .
qed

lemma rounds_eq: "i \<le> n \<Longrightarrow> rounds i (map (sched block) [i..<n]) st = foldl (sha_step block) st [i..<n]"
proof (induction "n - i" arbitrary: i st)
  case 0
  then show ?case by simp
next
  case (Suc m)
  then have up: "[i..<n] = i # [Suc i..<n]" by (auto simp: upt_conv_Cons)
  obtain a b c d e where st: "st = (a, b, c, d, e)" by (cases st)
  show ?case
    using Suc by (simp add: up st f_k_standard sha_step_def)
qed

lemma sha1_chunk_eq:
  assumes "length chunk = 64" and "length w = 80"
  shows "\<exists>w'. sha1_chunk chunk (w, H) = Inr (w', sha_compress H chunk) \<and> length w' = 80"
proof -
  obtain h0 h1 h2 h3 h4 where H: "H = (h0, h1, h2, h3, h4)" by (cases H)
  have blk: "map (block_word chunk) [0..<16] = map (sched chunk) [0..<16]"
    by (rule map_cong) (auto simp: sched.simps)
  have "load_words chunk [0..<16] w = Inr (map (sched chunk) [0..<16] @ drop 16 w)"
    using load_words_eq[of chunk 0 w] assms by (simp add: blk)
  moreover have "extend_words [16..<80] (map (sched chunk) [0..<16] @ drop 16 w) =
      Inr (map (sched chunk) [0..<80])"
    using assms by (intro extend_words_eq) auto
  ultimately show ?thesis
    by (auto simp: sha1_chunk_def H rounds_eq sha_compress_def sha_add_def split: prod.splits)
qed

lemma sha1_chunks_eq:
  assumes "\<forall>c \<in> set cs. length c = 64" and "length w = 80"
  shows "\<exists>w'. sha1_chunks cs (w, H) = Inr (w', foldl sha_compress H cs)"
  using assms
proof (induction cs arbitrary: w H)
  case (Cons c cs)
  then obtain w' where "sha1_chunk c (w, H) = Inr (w', sha_compress H c)" "length w' = 80"
    using sha1_chunk_eq[of c w H] by auto
  with Cons show ?case by simp
qed simp

lemma chunks_length:
  assumes "0 < n" and "n dvd length xs"
  shows "\<forall>c \<in> set (chunks n xs). length c = n"
  using assms
proof (induction n xs rule: chunks.induct)
  case (1 n xs)
  show ?case
  proof (cases "xs = []")
    case True
    then show ?thesis by (subst chunks.simps) simp
  next
    case False
    with "1.prems" have "n \<le> length xs" by (simp add: dvd_imp_le)
    moreover have "n dvd length (drop n xs)" using "1.prems" by (simp add: dvd_diff_nat)
    ultimately have rest: "\<forall>c \<in> set (chunks n (drop n xs)). length c = n"
      using "1.IH" "1.prems"(1) False by blast
    have eq: "chunks n xs = take n xs # chunks n (drop n xs)"
      by (subst chunks.simps) (use "1.prems"(1) False in simp)
    have "length (take n xs) = n" using \<open>n \<le> length xs\<close> by simp
    then show ?thesis
      unfolding eq list.set ball_simps using rest by blast
  qed
qed

lemma pad_loop_eq: "pad_loop msg = msg @ replicate ((120 - length msg mod 64) mod 64) 0"
proof (induction msg rule: pad_loop.induct)
  case (1 msg)
  show ?case
  proof (cases "length msg mod 64 = 56")
    case True
    then show ?thesis by (subst pad_loop.simps) simp
  next
    case False
    have dist: "(120 - m) mod 64 = (if m \<le> 56 then 56 - m else 120 - m)" if "m < 64" for m :: nat
      using that le_mod_geq[of 64 "120 - m"] by auto
    have lt: "length msg mod 64 < 64" "Suc (length msg) mod 64 < 64" by simp_all
    have "(120 - length msg mod 64) mod 64 = Suc ((120 - Suc (length msg) mod 64) mod 64)"
      unfolding dist[OF lt(1)] dist[OF lt(2)] using False lt(1) by (auto simp: mod_Suc)
    with False "1.IH" show ?thesis by (subst pad_loop.simps) simp
  qed
qed

lemma sha1_message_eq: "sha1_message input = sha_pad input"
proof -
  have "(120 - Suc (length input) mod 64) mod 64 = (119 - length input mod 64) mod 64"
    by (cases "length input mod 64 = 63") (auto simp: mod_Suc)
  then show ?thesis
    by (simp add: sha1_message_def sha_pad_def pad_loop_eq mult.commute)
qed

lemma sha_pad_dvd: "64 dvd length (sha_pad input)"
proof -
  obtain q r where qr: "length input = 64 * q + r" "r < 64"
    using mult_div_mod_eq[of 64 "length input"] by (metis mod_less_divisor zero_less_numeral)
  have r: "(119 - r) mod 64 = (if r \<le> 55 then 55 - r else 119 - r)"
    using qr(2) le_mod_geq[of 64 "119 - r"] by auto
  have "length (sha_pad input) = length input + 9 + (119 - r) mod 64"
    using qr by (simp add: sha_pad_def push_be64_def)
  also have "\<dots> = 64 * q + (if r \<le> 55 then 64 else 128)"
    unfolding r qr(1) using qr(2) by simp
  finally show ?thesis by simp
qed

lemma sha1_standard_eq: "sha1 input = Inr (sha1_standard input)"
proof -
  have "\<forall>c \<in> set (chunks 64 (sha_pad input)). length c = 64"
    by (rule chunks_length) (simp_all add: sha_pad_dvd)
  then obtain w where "sha1_chunks (chunks 64 (sha_pad input)) (replicate 80 0, sha_init) =
      Inr (w, foldl sha_compress sha_init (chunks 64 (sha_pad input)))"
    using sha1_chunks_eq[of _ "replicate 80 0" sha_init] by auto
  then show ?thesis
    by (auto simp: sha1_def sha1_message_eq sha1_standard_def sha_init_def split: prod.splits)
qed

section \<open>Properties\<close>

text \<open>
  C8: For every input the code's \<open>sha1\<close> never panics and returns the digest FIPS 180-4
  defines: the padded message cut into 512-bit blocks, the 80-word schedule, the 80 rounds with
  the standard's functions and constants, and the big-endian bytes of the final hash value.
\<close>

theorem sha1_is_standard: "sha1 input = Inr (sha1_standard input)"
  by (rule sha1_standard_eq)

end
