(* ===== verification/Base64.thy ===== *)
theory Base64
  imports Prelude
begin

text \<open>
  Base64 of the utils crate (\<open>base64_encode\<close>, src/crates/utils/crypto.rs), a reference
  encoder over the groups of RFC 4648, and a reference decoder: the code never panics, computes
  the reference encoding, and decoding gives the input back.
\<close>

section \<open>The code\<close>

definition TABLE :: bytes where
  "TABLE = str ''ABCDEFGHIJKLMNOPQRSTUVWXYZabcdefghijklmnopqrstuvwxyz0123456789+/''"

text \<open>\<open>TABLE[((triple >> sh) & 0x3F) as usize]\<close>\<close>

definition table_at :: "u32 \<Rightarrow> nat \<Rightarrow> u8 res" where
  "table_at triple sh = index TABLE (unat (drop_bit sh triple AND 0x3F))"

function b64_loop :: "bytes \<Rightarrow> nat \<Rightarrow> bytes \<Rightarrow> (bytes \<times> nat) res" where
  "b64_loop src i out =
     (if i + 3 \<le> length src
      then bind_res (index src i) (\<lambda>a.
           bind_res (index src (i + 1)) (\<lambda>b.
           bind_res (index src (i + 2)) (\<lambda>c.
           let triple = push_bit 16 (ucast a) OR push_bit 8 (ucast b) OR ucast c
           in bind_res (table_at triple 18) (\<lambda>c1.
              bind_res (table_at triple 12) (\<lambda>c2.
              bind_res (table_at triple 6) (\<lambda>c3.
              bind_res (table_at triple 0) (\<lambda>c4.
              b64_loop src (i + 3) (out @ [c1, c2, c3, c4]))))))))
      else Inr (out, i))"
  by pat_completeness auto
termination
  by (relation "measure (\<lambda>(src, i, out). length src - i)") auto

declare b64_loop.simps [simp del]

text \<open>The one or two bytes left after the loop, padded with \<open>=\<close>.\<close>

definition b64_tail :: "bytes \<Rightarrow> bytes \<times> nat \<Rightarrow> bytes res" where
  "b64_tail src = (\<lambda>(out, i).
     let rem = length src - i
     in if rem = 1
        then bind_res (index src i) (\<lambda>a.
             let triple = push_bit 16 (ucast a)
             in bind_res (table_at triple 18) (\<lambda>c1.
                bind_res (table_at triple 12) (\<lambda>c2.
                Inr (out @ [c1, c2] @ str ''='' @ str ''=''))))
        else if rem = 2
        then bind_res (index src i) (\<lambda>a.
             bind_res (index src (i + 1)) (\<lambda>b.
             let triple = push_bit 16 (ucast a) OR push_bit 8 (ucast b)
             in bind_res (table_at triple 18) (\<lambda>c1.
                bind_res (table_at triple 12) (\<lambda>c2.
                bind_res (table_at triple 6) (\<lambda>c3.
                Inr (out @ [c1, c2, c3] @ str ''=''))))))
        else Inr out)"

definition base64_encode :: "bytes \<Rightarrow> bytes res" where
  "base64_encode src = bind_res (b64_loop src 0 []) (b64_tail src)"

section \<open>Reference encoder and decoder\<close>

definition sextet :: "nat \<Rightarrow> u8" where
  "sextet n = TABLE ! (n mod 64)"

fun b64_ref :: "bytes \<Rightarrow> bytes" where
  "b64_ref [] = []"
| "b64_ref [a] = (let t = be_value [a, 0, 0] in [sextet (t div 2 ^ 18), sextet (t div 2 ^ 12), 61, 61])"
| "b64_ref [a, b] =
     (let t = be_value [a, b, 0] in [sextet (t div 2 ^ 18), sextet (t div 2 ^ 12), sextet (t div 2 ^ 6), 61])"
| "b64_ref (a # b # c # rest) =
     (let t = be_value [a, b, c]
      in [sextet (t div 2 ^ 18), sextet (t div 2 ^ 12), sextet (t div 2 ^ 6), sextet t]) @ b64_ref rest"

definition b64_val :: "u8 \<Rightarrow> nat option" where
  "b64_val c = List.find (\<lambda>i. TABLE ! i = c) [0..<64]"

text \<open>The byte of weight \<open>256 ^ k\<close> of a 24-bit group.\<close>

definition group_byte :: "nat \<Rightarrow> nat \<Rightarrow> u8" where
  "group_byte k t = of_nat (t div 256 ^ k mod 256)"

fun b64_decode :: "bytes \<Rightarrow> bytes option" where
  "b64_decode [] = Some []"
| "b64_decode (w # x # y # z # rest) =
     (case (b64_val w, b64_val x) of
        (Some v1, Some v2) \<Rightarrow>
          (if z = 61 then
             (if rest \<noteq> [] then None
              else if y = 61 then Some [group_byte 2 (v1 * 2 ^ 18 + v2 * 2 ^ 12)]
              else case b64_val y of
                Some v3 \<Rightarrow>
                  (let t = v1 * 2 ^ 18 + v2 * 2 ^ 12 + v3 * 2 ^ 6 in Some [group_byte 2 t, group_byte 1 t])
              | None \<Rightarrow> None)
           else case (b64_val y, b64_val z, b64_decode rest) of
             (Some v3, Some v4, Some bs) \<Rightarrow>
               (let t = v1 * 2 ^ 18 + v2 * 2 ^ 12 + v3 * 2 ^ 6 + v4
                in Some ([group_byte 2 t, group_byte 1 t, group_byte 0 t] @ bs))
           | _ \<Rightarrow> None)
      | _ \<Rightarrow> None)"
| "b64_decode _ = None"

section \<open>The code computes the reference encoding\<close>

lemma length_TABLE [simp]: "length TABLE = 64"
  by (simp add: TABLE_def)

lemma table_at_eq:
  assumes "t < 2 ^ 24"
  shows "table_at (of_nat t) sh = Inr (sextet (t div 2 ^ sh))"
proof -
  have t: "unat (of_nat t :: u32) = t" using assms by (intro unat_of_nat_small) simp
  have m: "(x :: u32) AND 0x3F = x mod 64" for x
    using and_mask_mod[of x 6] by (simp add: mask_eq_exp_minus_1)
  have "unat (drop_bit sh (of_nat t :: u32)) = t div 2 ^ sh"
    unfolding unat_drop_bit_eq t by (simp add: drop_bit_eq_div)
  then show ?thesis
    unfolding table_at_def m by (simp add: sextet_def unat_mod_distrib)
qed

lemma triple_value:
  "(push_bit 16 (ucast a) OR push_bit 8 (ucast b) OR ucast c :: u32) = of_nat (be_value [a, b, c])"
  for a b c :: u8
  using shift_or_value[of 0 a b c] by (simp add: be_value_def)

lemma table_at_triple:
  "table_at (push_bit 16 (ucast a) OR push_bit 8 (ucast b) OR ucast c) sh =
     Inr (sextet (be_value [a, b, c] div 2 ^ sh))" for a b c :: u8
  unfolding triple_value using be_value_less[of "[a, b, c]"] by (intro table_at_eq) simp

lemma table_at_double:
  "table_at (push_bit 16 (ucast a) OR push_bit 8 (ucast b)) sh = Inr (sextet (be_value [a, b, 0] div 2 ^ sh))"
  for a b :: u8
  using table_at_triple[of a b 0 sh] by simp

lemma table_at_single:
  "table_at (push_bit 16 (ucast a)) sh = Inr (sextet (be_value [a, 0, 0] div 2 ^ sh))" for a :: u8
  using table_at_triple[of a 0 0 sh] by simp

lemma b64_tail_eq:
  assumes "length src < i + 3" and "i \<le> length src"
  shows "b64_tail src (out, i) = Inr (out @ b64_ref (drop i src))"
proof -
  consider "length src = i" | "length src = i + 1" | "length src = i + 2"
    using assms by linarith
  then show ?thesis
  proof cases
    case 1
    then show ?thesis by (simp add: b64_tail_def)
  next
    case 2
    then have "drop i src = [src ! i]" by (simp flip: Cons_nth_drop_Suc)
    with 2 show ?thesis by (simp add: b64_tail_def table_at_single Let_def)
  next
    case 3
    then have "drop i src = [src ! i, src ! (i + 1)]" by (simp flip: Cons_nth_drop_Suc)
    with 3 show ?thesis by (simp add: b64_tail_def table_at_double Let_def)
  qed
qed

lemma b64_loop_tail:
  "i \<le> length src \<Longrightarrow> bind_res (b64_loop src i out) (b64_tail src) = Inr (out @ b64_ref (drop i src))"
proof (induction src i out rule: b64_loop.induct)
  case (1 src i out)
  show ?case
  proof (cases "i + 3 \<le> length src")
    case False
    then have "b64_loop src i out = Inr (out, i)" by (subst b64_loop.simps) simp
    with False "1.prems" show ?thesis by (simp add: b64_tail_eq)
  next
    case True
    let ?a = "src ! i" and ?b = "src ! (i + 1)" and ?c = "src ! (i + 2)"
    let ?t = "be_value [?a, ?b, ?c]"
    let ?four = "[sextet (?t div 2 ^ 18), sextet (?t div 2 ^ 12), sextet (?t div 2 ^ 6), sextet ?t]"
    have drop3: "drop i src = ?a # ?b # ?c # drop (i + 3) src"
      using True by (simp add: Cons_nth_drop_Suc numeral_eq_Suc)
    have step: "b64_loop src i out = b64_loop src (i + 3) (out @ ?four)"
      using True table_at_triple[of ?a ?b ?c 0] table_at_triple[of ?a ?b ?c 6]
        table_at_triple[of ?a ?b ?c 12] table_at_triple[of ?a ?b ?c 18]
      by (subst b64_loop.simps) (simp add: Let_def)
    have "bind_res (b64_loop src (i + 3) (out @ ?four)) (b64_tail src) =
        Inr ((out @ ?four) @ b64_ref (drop (i + 3) src))"
      using True by (intro "1.IH") (simp_all add: table_at_triple)
    then show ?thesis
      unfolding step drop3 by (simp add: Let_def)
  qed
qed

lemma base64_encode_eq: "base64_encode src = Inr (b64_ref src)"
  using b64_loop_tail[of 0 src "[]"] by (simp add: base64_encode_def)

section \<open>Decoding\<close>

lemma b64_val_TABLE: "i < 64 \<Longrightarrow> b64_val (TABLE ! i) = Some i"
proof -
  have "\<forall>i \<in> set [0..<64]. b64_val (TABLE ! i) = Some i" by code_simp
  then show "i < 64 \<Longrightarrow> ?thesis" by simp
qed

lemma b64_val_sextet [simp]: "b64_val (sextet n) = Some (n mod 64)"
  by (simp add: sextet_def b64_val_TABLE)

lemma sextet_not_pad [simp]: "sextet n \<noteq> 61"
proof -
  have "61 \<notin> set TABLE" by code_simp
  moreover have "sextet n \<in> set TABLE" by (simp add: sextet_def)
  ultimately show ?thesis by metis
qed

lemma sextets_value:
  fixes t :: nat
  assumes "t < 2 ^ 24"
  shows "t div 2 ^ 18 mod 64 * 2 ^ 18 + t div 2 ^ 12 mod 64 * 2 ^ 12 + t div 2 ^ 6 mod 64 * 2 ^ 6 + t mod 64 = t"
proof -
  have "t div 262144 mod 64 = t div 262144" using assms by (simp add: less_mult_imp_div_less)
  moreover have "t div 4096 = t div 262144 * 64 + t div 4096 mod 64"
    using div_mult_mod_eq[of "t div 4096" 64] by (simp add: div_mult2_eq[symmetric])
  moreover have "t div 64 = t div 4096 * 64 + t div 64 mod 64"
    using div_mult_mod_eq[of "t div 64" 64] by (simp add: div_mult2_eq[symmetric])
  moreover have "t = t div 64 * 64 + t mod 64"
    by (rule div_mult_mod_eq[symmetric])
  ultimately have "t div 262144 mod 64 * 262144 + t div 4096 mod 64 * 4096 + t div 64 mod 64 * 64 + t mod 64 = t"
    by linarith
  moreover have "(2::nat) ^ 18 = 262144" "(2::nat) ^ 12 = 4096" "(2::nat) ^ 6 = 64" by simp_all
  ultimately show ?thesis by (simp only:)
qed

lemma byte_less: "unat (b :: u8) < 256"
  using unsigned_less[of b, where 'a = nat] by simp

lemma group_bytes:
  "group_byte 2 (be_value [a, b, c]) = a"
  "group_byte 1 (be_value [a, b, c]) = b"
  "group_byte 0 (be_value [a, b, c]) = c"
proof -
  have v: "be_value [a, b, c] = (unat a * 256 + unat b) * 256 + unat c"
    by (simp add: be_value_def)
  have "be_value [a, b, c] div 256 = unat a * 256 + unat b"
    unfolding v using byte_less[of c] by simp
  then have "be_value [a, b, c] div 256 ^ 2 = unat a"
    using byte_less[of b] by (simp add: power2_eq_square div_mult2_eq)
  then show "group_byte 2 (be_value [a, b, c]) = a"
    using byte_less[of a] by (simp add: group_byte_def)
  show "group_byte 1 (be_value [a, b, c]) = b"
    using \<open>be_value [a, b, c] div 256 = _\<close> byte_less[of b] by (simp add: group_byte_def)
  have "((unat a * 256 + unat b) * 256 + unat c) mod 256 = unat c"
    using byte_less[of c] by (simp only: mod_mult_self3 mod_less)
  then show "group_byte 0 (be_value [a, b, c]) = c"
    unfolding group_byte_def v power_0 div_by_1 by simp
qed

lemmas b64_group_simps =
  b64_ref.simps b64_decode.simps b64_val_sextet sextet_not_pad group_bytes Let_def
  option.case prod.case if_True if_False simp_thms append.simps

lemma b64_decode_ref: "b64_decode (b64_ref src) = Some src"
proof (induction src rule: b64_ref.induct)
  case (2 a)
  let ?t = "be_value [a, 0, 0]"
  have "?t div 2 ^ 6 mod 64 = 0" "?t mod 64 = 0" by (simp_all add: be_value_def)
  then have "?t div 2 ^ 18 mod 64 * 2 ^ 18 + ?t div 2 ^ 12 mod 64 * 2 ^ 12 = ?t"
    using sextets_value[of ?t] be_value_less[of "[a, 0, 0]"] by simp
  then show ?case by (simp only: b64_group_simps)
next
  case (3 a b)
  let ?t = "be_value [a, b, 0]"
  have "?t mod 64 = 0" by (simp add: be_value_def)
  then have "?t div 2 ^ 18 mod 64 * 2 ^ 18 + ?t div 2 ^ 12 mod 64 * 2 ^ 12 + ?t div 2 ^ 6 mod 64 * 2 ^ 6 = ?t"
    using sextets_value[of ?t] be_value_less[of "[a, b, 0]"] by simp
  then show ?case by (simp only: b64_group_simps)
next
  case (4 a b c rest)
  have "be_value [a, b, c] < 2 ^ 24" using be_value_less[of "[a, b, c]"] by simp
  from sextets_value[OF this] 4 show ?case by (simp only: b64_group_simps)
qed simp

lemma length_b64_ref: "length (b64_ref src) = 4 * ((length src + 2) div 3)"
proof (induction src rule: b64_ref.induct)
  case (4 a b c rest)
  have "(length rest + 5) div 3 = Suc ((length rest + 2) div 3)"
    using div_add_self1[of 3 "length rest + 2"] by (simp add: add.commute)
  with 4 show ?case by (simp add: Let_def add.commute)
qed (simp_all add: Let_def)

section \<open>Properties\<close>

text \<open>
  C26: Base64 encoding never panics, is undone by a decoder that checks alphabet and padding, and
  gives four characters for every started group of three bytes.
\<close>

theorem base64_roundtrip:
  "\<exists>out. base64_encode src = Inr out \<and> b64_decode out = Some src \<and>
     length out = 4 * ((length src + 2) div 3)"
  by (simp add: base64_encode_eq b64_decode_ref length_b64_ref)

end
