(* ===== verification/Websocket.thy ===== *)
theory Websocket
  imports Net Runtime Parsing Sha1 Base64
begin

text \<open>
  The WebSocket connection task of the websocket crate (src/crates/websocket/lib.rs). An
  \<open>async fn\<close> is the state machine the compiler makes of it: a state per \<open>.await\<close>,
  holding the future awaited and the variables that live across it, and a step that polls that
  future and, when it is ready, runs on to the next \<open>.await\<close>. The interface
  \<open>stream_codec\<close> gives the theorems about the buffered frame loop.
\<close>

section \<open>Sending a payload\<close>

definition ws_payload_frame :: "bytes \<Rightarrow> bytes" where
  "ws_payload_frame payload =
     (let l = length payload;
          lw = of_nat l :: usize
      in [0x80 OR 0x2] @
         (if l < 126 then [of_nat l]
          else if l < 65536 then [126, ucast (drop_bit 8 lw AND 0xff), ucast (lw AND 0xff)]
          else [127] @ push_be64 lw) @
         payload)"

text \<open>\<open>send_ws_payload\<close> at its \<open>.await\<close>: the frame, how much of it is written, the send of the rest.\<close>

record ws_send =
  ws_fd :: i32
  ws_out :: bytes
  ws_off :: nat
  ws_fut :: send_future

definition send_ws_payload :: "i32 \<Rightarrow> bytes \<Rightarrow> ws_send" where
  "send_ws_payload fd payload =
     (let out = ws_payload_frame payload
      in \<lparr>ws_fd = fd, ws_out = out, ws_off = 0, ws_fut = send_new fd out\<rparr>)"

text \<open>
  One poll of it: the write loop goes on while sends complete. Every iteration that goes on has
  written at least one byte, so the number of bytes left bounds the iterations.
\<close>

fun ws_send_loop ::
    "'w kernel \<Rightarrow> nat \<Rightarrow> ws_send \<Rightarrow> waker \<Rightarrow> (('w, 'z) io_machine_scheme, (unit, ws_send) poll) prog" where
  "ws_send_loop K 0 st cx = raise_p Out_Of_Fuel"
| "ws_send_loop K (Suc n) st cx =
     bind_p (poll_send K (ws_fut st) cx) (\<lambda>p.
     case p of
       Pending f \<Rightarrow> return_p (Pending (st\<lparr>ws_fut := f\<rparr>))
     | Ready r \<Rightarrow>
         if neg r then return_p (Ready ())
         else let wrote = unat r; off = ws_off st + wrote
              in if wrote = 0 then return_p (Ready ())
                 else if off < length (ws_out st)
                 then ws_send_loop K n
                        (st\<lparr>ws_off := off, ws_fut := send_new (ws_fd st) (drop off (ws_out st))\<rparr>) cx
                 else return_p (Ready ()))"

definition poll_ws_send ::
    "'w kernel \<Rightarrow> ws_send \<Rightarrow> waker \<Rightarrow> (('w, 'z) io_machine_scheme, (unit, ws_send) poll) prog" where
  "poll_ws_send K st cx = ws_send_loop K (length (ws_out st) - ws_off st) st cx"

section \<open>The handshake\<close>

definition WS_GUID :: bytes where
  "WS_GUID = str ''258EAFA5-E914-47DA-95CA-C5AB0DC85B11''"

text \<open>\<open>while !key_trim.is_empty() && key_trim[0] == b' '\<close>, then the same at the end.\<close>

fun trim_start :: "bytes \<Rightarrow> bytes" where
  "trim_start [] = []"
| "trim_start (b # bs) = (if b = SP then trim_start bs else b # bs)"

function trim_end :: "bytes \<Rightarrow> bytes" where
  "trim_end bs = (if bs \<noteq> [] \<and> last bs = SP then trim_end (butlast bs) else bs)"
  by pat_completeness auto
termination
  by (relation "measure length") auto

declare trim_end.simps [simp del]

definition accept_key :: "bytes \<Rightarrow> bytes res" where
  "accept_key key_bytes =
     bind_res (sha1 (trim_end (trim_start key_bytes) @ WS_GUID)) base64_encode"

definition CRLF :: bytes where
  "CRLF = [CR, LF]"

definition handshake_response :: "bytes \<Rightarrow> bytes" where
  "handshake_response accept =
     str ''HTTP/1.1 101 Switching Protocols'' @ CRLF @ str ''Upgrade: websocket'' @ CRLF @
     str ''Connection: Upgrade'' @ CRLF @ str ''Sec-WebSocket-Accept: '' @ accept @ CRLF @ CRLF"

text \<open>
  The blocking write loop: at most 1000 iterations (\<open>n\<close> are left), then, or on an error or
  an empty write, the rest is left to an asynchronous send from offset \<open>off_sync\<close> on.
\<close>

datatype handshake_end = Sent | Left_Over nat

fun handshake_loop ::
    "'w kernel \<Rightarrow> i32 \<Rightarrow> bytes \<Rightarrow> nat \<Rightarrow> nat \<Rightarrow> (('w, 'z) machine_scheme, handshake_end) prog" where
  "handshake_loop K fd resp 0 off =
     (if off < length resp
      then bind_p (fcntl K fd F_SETFL O_NONBLOCK) (\<lambda>_. return_p (Left_Over off))
      else return_p Sent)"
| "handshake_loop K fd resp (Suc n) off =
     (if off < length resp
      then bind_p (sendto K fd (drop off resp) 0 PtrNull 0) (\<lambda>r.
           if r = -11 then handshake_loop K fd resp n off
           else if neg r \<or> unat r = 0
           then bind_p (fcntl K fd F_SETFL O_NONBLOCK) (\<lambda>_. return_p (Left_Over off))
           else handshake_loop K fd resp n (off + unat r))
      else return_p Sent)"

section \<open>Frames\<close>

record ws_conn =
  buf_acc :: bytes
  frag_opcode :: "u8 option"
  frag_payload :: bytes

definition new_conn :: ws_conn where
  "new_conn = \<lparr>buf_acc = [], frag_opcode = None, frag_payload = []\<rparr>"

text \<open>What the body of the frame loop does with a frame: go on, echo and ping, answer a ping, or close.\<close>

datatype ws_action = Skip ws_conn | Echo ws_conn bytes | Pong ws_conn bytes | Close

definition handle_frame :: "ws_conn \<Rightarrow> bool \<Rightarrow> u8 \<Rightarrow> bytes \<Rightarrow> ws_action" where
  "handle_frame c fin opcode payload =
     (if opcode = 0x0
      then case frag_opcode c of
             None \<Rightarrow> Skip c
           | Some op \<Rightarrow>
               let c = c\<lparr>frag_payload := frag_payload c @ payload\<rparr>
               in if fin
                  then let full = frag_payload c; c = c\<lparr>frag_opcode := None, frag_payload := []\<rparr>
                       in if op = 0x1 \<or> op = 0x2 then Echo c full else Skip c
                  else Skip c
      else if opcode = 0x1 \<or> opcode = 0x2
      then if fin then Echo c payload
           else Skip (c\<lparr>frag_opcode := Some opcode, frag_payload := payload\<rparr>)
      else if opcode = 0x8 then Close
      else if opcode = 0x9 then Pong c payload
      else Skip c)"

section \<open>The task\<close>

datatype ws_state =
    Ws_Handshake i32 send_future
  | Ws_Welcome i32 ws_send
  | Ws_Recv i32 ws_conn recv_future
  | Ws_Echo i32 ws_conn ws_send
  | Ws_Ping i32 ws_conn send_future
  | Ws_Pong i32 ws_conn send_future

text \<open>\<open>log_write(b"[WS] fd=")\<close>, the number, the rest of the line.\<close>

definition log_line :: "'w kernel \<Rightarrow> string \<Rightarrow> i32 \<Rightarrow> string \<Rightarrow> (('w, 'z) io_machine_scheme, unit) prog" where
  "log_line K tag fd rest = seqs [log_write K (str tag), log_usize K (scast fd), log_write K (str rest)]"

definition ESC :: bytes where
  "ESC = [0x1b]"

text \<open>A backslash at the end of a source line also skips the blanks that start the next one.\<close>

definition welcome_text :: bytes where
  "welcome_text =
     CRLF @ ESC @ str ''[1;32m=== Async NoStd Terminal ==='' @ ESC @ str ''[0m'' @ CRLF @ CRLF @
     ESC @ str ''[1;36mWelcome to the async no_std WebSocket server!'' @ ESC @ str ''[0m'' @ CRLF @ CRLF @
     str ''Features:'' @ CRLF @
     ESC @ str ''[32m*'' @ ESC @ str ''[0m Lock-free task scheduler'' @ CRLF @
     ESC @ str ''[32m*'' @ ESC @ str ''[0m Multi-threaded async runtime'' @ CRLF @
     ESC @ str ''[32m*'' @ ESC @ str ''[0m WebSocket echo server'' @ CRLF @
     ESC @ str ''[32m*'' @ ESC @ str ''[0m 32KB binary size'' @ CRLF @ CRLF @
     str ''Type anything to see it echoed back!'' @ CRLF @ CRLF"

text \<open>From the end of the handshake write to the first \<open>.await\<close> of the welcome message.\<close>

definition handshake_done :: "'w kernel \<Rightarrow> i32 \<Rightarrow> (('w, 'z) io_machine_scheme, ws_state) prog" where
  "handshake_done K fd =
     bind_p (log_line K ''[WS] fd='' fd '' handshake sent\<newline>'') (\<lambda>_.
     bind_p (fcntl K fd F_SETFL O_NONBLOCK) (\<lambda>_.
     bind_p (log_line K ''[WS] fd='' fd '' handshake complete\<newline>'') (\<lambda>_.
     return_p (Ws_Welcome fd (send_ws_payload fd welcome_text)))))"

text \<open>A request without a key ends the connection.\<close>

definition ws_reject :: "'w kernel \<Rightarrow> i32 \<Rightarrow> (('w, 'z) io_machine_scheme, ws_state option) prog" where
  "ws_reject K fd =
     bind_p (log_line K ''[WS] fd='' fd '' ERROR: No Sec-WebSocket-Key, closing\<newline>'') (\<lambda>_.
     bind_p (unregister_fd K fd) (\<lambda>_.
     bind_p (close K fd) (\<lambda>_.
     return_p None)))"

text \<open>\<open>accept_and_run\<close> up to its first \<open>.await\<close>; \<open>None\<close> when it is over.\<close>

definition ws_start :: "'w kernel \<Rightarrow> i32 \<Rightarrow> bytes \<Rightarrow> (('w, 'z) io_machine_scheme, ws_state option) prog" where
  "ws_start K fd request =
     bind_p (log_line K ''[WS] fd='' fd '' handshake start\<newline>'') (\<lambda>_.
     bind_p (lift_res (find_header_value request ''Sec-WebSocket-Key'')) (\<lambda>key.
     case key of
       Some key_bytes \<Rightarrow>
         bind_p (lift_res (accept_key key_bytes)) (\<lambda>accept.
         let resp = handshake_response accept
         in bind_p (fcntl K fd F_SETFL 0) (\<lambda>_.
            bind_p (handshake_loop K fd resp 1000 0) (\<lambda>e.
            case e of
              Sent \<Rightarrow> bind_p (handshake_done K fd) (\<lambda>st. return_p (Some st))
            | Left_Over off \<Rightarrow> return_p (Some (Ws_Handshake fd (send_new fd (drop off resp)))))))
     | None \<Rightarrow> ws_reject K fd))"

text \<open>
  The frame loop from its head to the next \<open>.await\<close>: frames that need no answer are handled
  one after the other. Every frame removes at least two bytes from the buffer, so its length
  bounds the iterations.
\<close>

fun frame_loop :: "'w kernel \<Rightarrow> nat \<Rightarrow> i32 \<Rightarrow> ws_conn \<Rightarrow> (('w, 'z) io_machine_scheme, ws_state option) prog" where
  "frame_loop K 0 fd c = raise_p Out_Of_Fuel"
| "frame_loop K (Suc n) fd c =
     bind_p (lift_res (parse_websocket_frame (buf_acc c))) (\<lambda>frame.
     case frame of
       None \<Rightarrow> return_p (Some (Ws_Recv fd c (recv_new fd 4096)))
     | Some (consumed, fin, opcode, payload) \<Rightarrow>
         (case handle_frame (c\<lparr>buf_acc := drop (unat consumed) (buf_acc c)\<rparr>) fin opcode payload of
            Skip c \<Rightarrow> frame_loop K n fd c
          | Echo c full \<Rightarrow> return_p (Some (Ws_Echo fd c (send_ws_payload fd full)))
          | Pong c payload \<Rightarrow> return_p (Some (Ws_Pong fd c (send_new fd (build_websocket_frame 0xA payload))))
          | Close \<Rightarrow>
              bind_p (unregister_fd K fd) (\<lambda>_.
              bind_p (close K fd) (\<lambda>_.
              return_p None))))"

definition next_frames :: "'w kernel \<Rightarrow> i32 \<Rightarrow> ws_conn \<Rightarrow> (('w, 'z) io_machine_scheme, ws_state option) prog" where
  "next_frames K fd c = frame_loop K (length (buf_acc c) + 1) fd c"

text \<open>After a receive: an empty chunk is the end of the connection.\<close>

definition ws_received :: "'w kernel \<Rightarrow> i32 \<Rightarrow> ws_conn \<Rightarrow> bytes \<Rightarrow> (('w, 'z) io_machine_scheme, ws_state option) prog" where
  "ws_received K fd c chunk =
     (if chunk = []
      then bind_p (log_line K ''[WS] fd='' fd '' client disconnected\<newline>'') (\<lambda>_.
           bind_p (unregister_fd K fd) (\<lambda>_.
           bind_p (close K fd) (\<lambda>_.
           return_p None)))
      else bind_p (log_line K ''[WS] fd='' fd '' recv '') (\<lambda>_.
           bind_p (log_usize K (of_nat (length chunk))) (\<lambda>_.
           bind_p (log_write K (str '' bytes\<newline>'')) (\<lambda>_.
           next_frames K fd (c\<lparr>buf_acc := buf_acc c @ chunk\<rparr>)))))"

definition PING :: bytes where
  "PING = [0x80 OR 0x9, 0x00]"

text \<open>
  One await: poll its future; when it is ready, run to the next await (\<open>Ready (Some st)\<close>) or
  to the end (\<open>Ready None\<close>).
\<close>

definition lift_poll :: "('f \<Rightarrow> 'st) \<Rightarrow> ('s, ('o, 'f) poll) prog \<Rightarrow> ('o \<Rightarrow> ('s, 'st option) prog) \<Rightarrow>
    ('s, ('st option, 'st) poll) prog" where
  "lift_poll wrap m k =
     bind_p m (\<lambda>p. case p of
       Pending f \<Rightarrow> return_p (Pending (wrap f))
     | Ready out \<Rightarrow> bind_p (k out) (\<lambda>st. return_p (Ready st)))"

fun ws_step :: "'w kernel \<Rightarrow> ws_state \<Rightarrow> waker \<Rightarrow> (('w, 'z) io_machine_scheme, (ws_state option, ws_state) poll) prog" where
  "ws_step K (Ws_Handshake fd f) cx =
     lift_poll (Ws_Handshake fd) (poll_send K f cx) (\<lambda>_. bind_p (handshake_done K fd) (\<lambda>st. return_p (Some st)))"
| "ws_step K (Ws_Welcome fd st) cx =
     lift_poll (Ws_Welcome fd) (poll_ws_send K st cx) (\<lambda>_. return_p (Some (Ws_Recv fd new_conn (recv_new fd 4096))))"
| "ws_step K (Ws_Recv fd c f) cx =
     lift_poll (Ws_Recv fd c) (poll_recv K f cx) (ws_received K fd c)"
| "ws_step K (Ws_Echo fd c st) cx =
     lift_poll (Ws_Echo fd c) (poll_ws_send K st cx) (\<lambda>_. return_p (Some (Ws_Ping fd c (send_new fd PING))))"
| "ws_step K (Ws_Ping fd c f) cx =
     lift_poll (Ws_Ping fd c) (poll_send K f cx) (\<lambda>_. next_frames K fd c)"
| "ws_step K (Ws_Pong fd c f) cx =
     lift_poll (Ws_Pong fd c) (poll_send K f cx) (\<lambda>_. next_frames K fd c)"

text \<open>\<open>accept_connection\<close> is the public name of the same function.\<close>

definition accept_connection :: "'w kernel \<Rightarrow> i32 \<Rightarrow> bytes \<Rightarrow> (('w, 'z) io_machine_scheme, ws_state option) prog" where
  "accept_connection K fd request = ws_start K fd request"

text \<open>
  One poll of the task runs await after await while their futures are ready, at most \<open>n\<close> of
  them.
\<close>

fun poll_ws :: "'w kernel \<Rightarrow> nat \<Rightarrow> ws_state \<Rightarrow> waker \<Rightarrow> (('w, 'z) io_machine_scheme, (unit, ws_state) poll) prog" where
  "poll_ws K 0 st cx = raise_p Out_Of_Fuel"
| "poll_ws K (Suc n) st cx =
     bind_p (ws_step K st cx) (\<lambda>p. case p of
       Pending st \<Rightarrow> return_p (Pending st)
     | Ready None \<Rightarrow> return_p (Ready ())
     | Ready (Some st) \<Rightarrow> poll_ws K n st cx)"

end
