(* ===== verification/Session.thy ===== *)
theory Session
  imports Websocket "HOL-Library.Sublist"
begin

text \<open>
  What a WebSocket connection does, stated without its state machine: the bytes a client gets are
  a function of the frames it sent, whatever the chunks they arrive in. The state machine of
  theory Websocket is shown to implement it. What was sent is read off the recorded system calls; the contract
  \<open>logging\<close> says which calls a computation may add to them.
\<close>

section \<open>What was sent\<close>

definition sent_by :: "i32 \<Rightarrow> sysevent \<Rightarrow> bytes" where
  "sent_by fd ev =
     (if ev_nr ev = 44 \<and> \<not> neg (ev_ret ev)
      then case ev_args ev of
             f # PtrBytes buf # _ \<Rightarrow> if f = reg_i32 fd then take (unat (ev_ret ev)) buf else []
           | _ \<Rightarrow> []
      else [])"

definition delivered :: "i32 \<Rightarrow> sysevent list \<Rightarrow> bytes" where
  "delivered fd evs = concat (map (sent_by fd) evs)"

lemma delivered_append [simp]: "delivered fd (as @ bs) = delivered fd as @ delivered fd bs"
  by (simp add: delivered_def)

lemma delivered_Nil [simp]: "delivered fd [] = []"
  by (simp add: delivered_def)

text \<open>A kernel that never claims to have sent more than it was given.\<close>

definition send_ok :: "'w kernel \<Rightarrow> bool" where
  "send_ok K \<longleftrightarrow> (\<forall>f buf rest w. \<not> neg (fst (K 44 (f # PtrBytes buf # rest) w)) \<longrightarrow>
     unat (fst (K 44 (f # PtrBytes buf # rest) w)) \<le> length buf)"

lemma sendto_effect:
  assumes "send_ok K"
  obtains r t where "sendto K fd buf flags dest n s = Inr (r, t)"
    and "delivered fd (calls t) = delivered fd (calls s) @ (if neg r then [] else take (unat r) buf)"
    and "\<not> neg r \<longrightarrow> unat r \<le> length buf" and "ev_ret (last (calls t)) = r"
    and "\<exists>rest w. r = fst (K 44 (reg_i32 fd # PtrBytes buf # rest) w)"
proof -
  let ?args = "[reg_i32 fd, PtrBytes buf, reg_len (length buf), reg_i32 flags, dest, Reg n]"
  obtain r out w where K: "K 44 ?args (kst s) = (r, out, w)" by (metis prod_cases3)
  have "\<not> neg r \<longrightarrow> unat r \<le> length buf"
    using assms K unfolding send_ok_def by (metis fst_conv)
  moreover have "\<exists>rest w. r = fst (K 44 (reg_i32 fd # PtrBytes buf # rest) w)" using K by (metis fst_conv)
  ultimately show thesis
    using K by (intro that[of r "s\<lparr>kst := w, calls := calls s @ [\<lparr>ev_nr = 44, ev_args = ?args, ev_ret = r\<rparr>]\<rparr>"])
      (simp_all add: sendto_def ret_of_def raw_syscalls do_syscall_def delivered_def sent_by_def bind_p_def)
qed

lemma poll_send_effect:
  assumes "send_ok K"
  obtains r t where "delivered (sf_fd f) (calls t) = delivered (sf_fd f) (calls s) @ (if neg r then [] else take (unat r) (sf_buf f))"
    and "\<not> neg r \<longrightarrow> unat r \<le> length (sf_buf f)" and "ev_ret (last (calls t)) = r"
    and "\<exists>rest w. r = fst (K 44 (reg_i32 (sf_fd f) # PtrBytes (sf_buf f) # rest) w)"
    and "poll_send K f cx s = Inr (if r = -11 then Pending (f\<lparr>sf_registered := True\<rparr>) else Ready r, t)"
proof -
  obtain r t where rt: "sendto K (sf_fd f) (sf_buf f) 0 PtrNull 0 s = Inr (r, t)"
    "delivered (sf_fd f) (calls t) = delivered (sf_fd f) (calls s) @ (if neg r then [] else take (unat r) (sf_buf f))"
    "\<not> neg r \<longrightarrow> unat r \<le> length (sf_buf f)" "ev_ret (last (calls t)) = r"
    "\<exists>rest w. r = fst (K 44 (reg_i32 (sf_fd f) # PtrBytes (sf_buf f) # rest) w)"
    by (rule sendto_effect[OF assms])
  let ?t = "if r = -11 then t\<lparr>io_reg := registers (sf_registered f) (sf_fd f) 0x0004 cx (io_reg t)\<rparr> else t"
  have "poll_send K f cx s = Inr (if r = -11 then Pending (f\<lparr>sf_registered := True\<rparr>) else Ready r, ?t)"
    using rt(1) by (auto simp: poll_send_def register_fd_waker_def clone_waker_def registers_def)
  with rt show thesis by (intro that[of ?t r]) auto
qed

text \<open>The send as the log shows it: \<open>r\<close> was the answer to a send of \<open>u\<close> from offset \<open>off\<close> on, and not \<open>EAGAIN\<close>.\<close>

definition answered :: "i32 \<Rightarrow> sysevent list \<Rightarrow> bytes \<Rightarrow> nat \<Rightarrow> isize \<Rightarrow> bool" where
  "answered fd evs u off r \<longleftrightarrow> off < length u \<and> r \<noteq> -11 \<and>
     (\<exists>rest. \<lparr>ev_nr = 44, ev_args = reg_i32 fd # PtrBytes (drop off u) # rest, ev_ret = r\<rparr> \<in> set evs)"

lemma poll_send_log:
  assumes "poll_send K f cx s = Inr (p, t)"
  shows "\<exists>rest. calls t = calls s @
      [\<lparr>ev_nr = 44, ev_args = reg_i32 (sf_fd f) # PtrBytes (sf_buf f) # rest, ev_ret = ev_ret (last (calls t))\<rparr>]"
  using assms
  by (auto simp: poll_send_def sendto_def ret_of_def raw_syscalls do_syscall_def register_fd_waker_def bind_p_def
      split: prod.splits if_splits)

lemma poll_send_answered:
  assumes "poll_send K f cx s = Inr (p, t)" and "sf_buf f = drop off u" and "off < length u" and "ev_ret (last (calls t)) \<noteq> -11"
  shows "answered (sf_fd f) [last (calls t)] u off (ev_ret (last (calls t)))"
proof -
  from poll_send_log[OF assms(1)] obtain rest where
    "calls t = calls s @ [\<lparr>ev_nr = 44, ev_args = reg_i32 (sf_fd f) # PtrBytes (sf_buf f) # rest, ev_ret = ev_ret (last (calls t))\<rparr>]" ..
  then have "last (calls t) = \<lparr>ev_nr = 44, ev_args = reg_i32 (sf_fd f) # PtrBytes (drop off u) # rest, ev_ret = ev_ret (last (calls t))\<rparr>"
    using assms(2) by (metis last_snoc)
  then show ?thesis using assms(3,4) unfolding answered_def by (metis list.set_intros(1))
qed

section \<open>What a call leaves alone\<close>

text \<open>
  A connection as its peer sees it: the sends and receives on the descriptor, and what the kernel still
  holds for it, \<open>inbox\<close>. No call but a receive on the descriptor takes from the inbox.
\<close>

definition talk :: "i32 \<Rightarrow> sysevent list \<Rightarrow> sysevent list" where
  "talk fd evs = filter (\<lambda>ev. (ev_nr ev = 44 \<or> ev_nr ev = 45) \<and> hd (ev_args ev) = reg_i32 fd) evs"

definition chat :: "i32 \<Rightarrow> ('w \<Rightarrow> 'i) \<Rightarrow> ('w, 'z) machine_scheme \<Rightarrow> sysevent list \<times> 'i" where
  "chat fd inbox s = (talk fd (calls s), inbox (kst s))"

lemma delivered_talk: "delivered fd (talk fd evs) = delivered fd evs"
proof -
  have "sent_by fd ev = []" if "\<not> ((ev_nr ev = 44 \<or> ev_nr ev = 45) \<and> hd (ev_args ev) = reg_i32 fd)" for ev
    using that by (auto simp: sent_by_def split: list.splits sysarg.splits)
  then show ?thesis by (induction evs) (auto simp: delivered_def talk_def)
qed

lemma chatD:
  assumes "chat fd inbox t = chat fd inbox s"
  shows "delivered fd (calls t) = delivered fd (calls s)" "inbox (kst t) = inbox (kst s)" "talk fd (calls t) = talk fd (calls s)"
  using assms delivered_talk[of fd "calls t"] delivered_talk[of fd "calls s"] by (simp_all add: chat_def)

definition undisturbed :: "'w kernel \<Rightarrow> i32 \<Rightarrow> ('w \<Rightarrow> 'i) \<Rightarrow> bool" where
  "undisturbed K fd inbox \<longleftrightarrow>
     (\<forall>nr args w. nr \<noteq> 45 \<or> hd args \<noteq> reg_i32 fd \<longrightarrow> inbox (snd (snd (K nr args w))) = inbox w)"

lemma undisturbed_trivial [simp]: "undisturbed K fd (\<lambda>_. ())"
  by (simp add: undisturbed_def)

lemma quiet_chat_syscall:
  assumes "undisturbed K fd inbox" and "nr \<noteq> 44" and "nr \<noteq> 45"
  shows "quiet (chat fd inbox) (do_syscall K nr args)"
proof (rule quietI)
  fix s :: "('a, 'c) machine_scheme"
  obtain r out w where K: "K nr args (kst s) = (r, out, w)" by (metis prod_cases3)
  then have "inbox w = inbox (kst s)"
    using assms(1,3) unfolding undisturbed_def by (metis snd_conv)
  with K assms(2,3) show "\<exists>a t. do_syscall K nr args s = Inr (a, t) \<and> chat fd inbox t = chat fd inbox s"
    by (simp add: do_syscall_def chat_def talk_def)
qed

lemma quiet_chat_calls:
  assumes "undisturbed K fd inbox"
  shows "quiet (chat fd inbox) (sys_write K fd' buf)"
    and "quiet (chat fd inbox) (close K fd')"
    and "quiet (chat fd inbox) (fcntl K fd' cmd arg)"
    and "quiet (chat fd inbox) (eventfd_call K initval flags)"
  unfolding sys_write_def close_def fcntl_def eventfd_call_def ret_of_def fd_or_minus1_def raw_syscalls
  by (intro quiet_intros quiet_chat_syscall assms; simp)+

lemma quiet_chat:
  assumes "undisturbed K fd inbox"
  shows "quiet (chat fd inbox) (log_write K msg)"
    and "quiet (chat fd inbox) (log_usize K n)"
    and "quiet (chat fd inbox) (log_line K tag fd' rest)"
    and "quiet (chat fd inbox) (unregister_fd K fd')"
proof -
  note calls = quiet_chat_calls[OF assms]
  show w: "quiet (chat fd inbox) (log_write K msg)" for msg
    unfolding log_write_def by (intro quiet_intros calls)
  show u: "quiet (chat fd inbox) (log_usize K n)" for n
    unfolding log_usize_def write_usize_eq by (intro quiet_intros calls)
  show "quiet (chat fd inbox) (log_line K tag fd' rest)"
    unfolding log_line_def by (rule quiet_seqs) (auto intro: w u)
  show "quiet (chat fd inbox) (unregister_fd K fd')"
    unfolding unregister_fd_def signal_eventfd_def ensure_eventfd_def
    by (intro quiet_intros calls) (simp_all add: chat_def)
qed

section \<open>Sending a payload\<close>

text \<open>What holds at the \<open>.await\<close> of \<open>send_ws_payload\<close>.\<close>

definition ws_sending :: "bytes \<Rightarrow> ws_send \<Rightarrow> ('w, 'z) machine_scheme \<Rightarrow> bool" where
  "ws_sending base st s \<longleftrightarrow>
     ws_off st < length (ws_out st) \<and> sf_fd (ws_fut st) = ws_fd st \<and>
     sf_buf (ws_fut st) = drop (ws_off st) (ws_out st) \<and>
     delivered (ws_fd st) (calls s) = base @ take (ws_off st) (ws_out st)"

lemma take_take_drop: "take (m + n) xs = take m xs @ take n (drop m xs)"
  by (simp add: take_add)

text \<open>A send the kernel refused for good: an error other than \<open>EAGAIN\<close>, or nothing taken.\<close>

definition send_failed :: "'w kernel \<Rightarrow> i32 \<Rightarrow> isize \<Rightarrow> bool" where
  "send_failed K fd r \<longleftrightarrow> sint r \<le> 0 \<and> r \<noteq> -11 \<and>
     (\<exists>buf rest w. buf \<noteq> [] \<and> r = fst (K 44 (reg_i32 fd # PtrBytes buf # rest) w))"

lemma ws_send_loop_spec:
  assumes "send_ok K" and "ws_sending base st s" and "length (ws_out st) - ws_off st \<le> n"
  shows "(\<exists>st' t. ws_send_loop K n st cx s = Inr (Pending st', t) \<and> ws_sending base st' t \<and>
        ws_fd st' = ws_fd st \<and> ws_out st' = ws_out st) \<or>
    (\<exists>k t. ws_send_loop K n st cx s = Inr (Ready (), t) \<and> k \<le> length (ws_out st) \<and>
        delivered (ws_fd st) (calls t) = base @ take k (ws_out st) \<and>
        (k = length (ws_out st) \<or> send_failed K (ws_fd st) (ev_ret (last (calls t))) \<and>
           answered (ws_fd st) [last (calls t)] (ws_out st) k (ev_ret (last (calls t)))))"
  using assms(2,3)
proof (induction n arbitrary: st s)
  case 0
  then show ?case by (simp add: ws_sending_def)
next
  case (Suc n)
  let ?out = "ws_out st" and ?off = "ws_off st"
  have inv: "?off < length ?out" "sf_fd (ws_fut st) = ws_fd st" "sf_buf (ws_fut st) = drop ?off ?out"
    "delivered (ws_fd st) (calls s) = base @ take ?off ?out"
    using Suc.prems(1) by (simp_all add: ws_sending_def)
  obtain r t where raw: "delivered (sf_fd (ws_fut st)) (calls t) =
      delivered (sf_fd (ws_fut st)) (calls s) @ (if neg r then [] else take (unat r) (sf_buf (ws_fut st)))"
    "\<not> neg r \<longrightarrow> unat r \<le> length (sf_buf (ws_fut st))" "ev_ret (last (calls t)) = r"
    "\<exists>rest w. r = fst (K 44 (reg_i32 (sf_fd (ws_fut st)) # PtrBytes (sf_buf (ws_fut st)) # rest) w)"
    "poll_send K (ws_fut st) cx s = Inr (if r = -11 then Pending ((ws_fut st)\<lparr>sf_registered := True\<rparr>) else Ready r, t)"
    by (rule poll_send_effect[OF assms(1)])
  then have rt: "delivered (ws_fd st) (calls t) = base @ take ?off ?out @ (if neg r then [] else take (unat r) (drop ?off ?out))"
    "\<not> neg r \<longrightarrow> unat r \<le> length ?out - ?off" "ev_ret (last (calls t)) = r"
    "poll_send K (ws_fut st) cx s = Inr (if r = -11 then Pending ((ws_fut st)\<lparr>sf_registered := True\<rparr>) else Ready r, t)"
    by (simp_all add: inv)
  have failed: "send_failed K (ws_fd st) r" if "sint r \<le> 0" "r \<noteq> -11"
    using that raw(4) inv(1-3) unfolding send_failed_def by (metis drop_eq_Nil not_le)
  have log: "answered (ws_fd st) [last (calls t)] ?out ?off r" if "r \<noteq> -11"
    using poll_send_answered[OF raw(5) inv(3,1)] that by (simp add: raw(3) inv(2))
  consider (eagain) "r = -11" | (err) "neg r" "r \<noteq> -11" | (zero) "r = 0" | (wrote) "\<not> neg r" "0 < unat r"
    by (metis unat_gt_0)
  then show ?case
  proof cases
    case eagain
    then have "ws_sending base (st\<lparr>ws_fut := (ws_fut st)\<lparr>sf_registered := True\<rparr>\<rparr>) t"
      using inv rt(1) by (simp add: ws_sending_def)
    with eagain rt(4) show ?thesis by (intro disjI1) simp
  next
    case err
    with rt inv failed log show ?thesis by (intro disjI2 exI[of _ ?off] exI[of _ t]) simp
  next
    case zero
    with rt inv failed log show ?thesis by (intro disjI2 exI[of _ ?off] exI[of _ t]) simp
  next
    case wrote
    let ?off' = "?off + unat r"
    have del: "delivered (ws_fd st) (calls t) = base @ take ?off' ?out"
      using rt(1) wrote by (simp add: take_take_drop)
    have not_eagain: "r \<noteq> -11" using wrote(1) by auto
    show ?thesis
    proof (cases "?off' < length ?out")
      case True
      let ?st = "st\<lparr>ws_off := ?off', ws_fut := send_new (ws_fd st) (drop ?off' ?out)\<rparr>"
      have "ws_sending base ?st t" using True del by (simp add: ws_sending_def send_new_def)
      moreover have "length (ws_out ?st) - ws_off ?st \<le> n" using Suc.prems(2) wrote(2) by simp
      ultimately show ?thesis
        using Suc.IH[of ?st t] rt(4) wrote not_eagain True by (simp add: Let_def)
    next
      case False
      with rt(2) wrote(1) have "?off' = length ?out" using inv(1) by simp
      with del rt(4) wrote not_eagain False show ?thesis
        by (intro disjI2 exI[of _ ?off'] exI[of _ t]) simp
    qed
  qed
qed

text \<open>The frame of \<open>send_ws_payload\<close> is the frame builder's with the binary opcode.\<close>

lemma ws_payload_frame_eq: "ws_payload_frame payload = build_websocket_frame 2 payload"
  by (simp add: ws_payload_frame_def build_websocket_frame_def)

lemma ws_payload_frame_nonempty: "0 < length (ws_payload_frame payload)"
  by (simp add: ws_payload_frame_def Let_def)

lemma ws_sending_start:
  "ws_sending (delivered fd (calls s)) (send_ws_payload fd payload) s"
  using ws_payload_frame_nonempty by (simp add: ws_sending_def send_ws_payload_def send_new_def Let_def)

section \<open>The handshake\<close>

lemma fcntl_delivered:
  obtains a t where "fcntl K fd' cmd arg s = Inr (a, t)" and "delivered fd (calls t) = delivered fd (calls s)"
  using quietE[OF quiet_chat_calls(3)[OF undisturbed_trivial], of K fd' cmd arg s fd] that chatD(1) by metis

lemma handshake_loop_spec:
  assumes "send_ok K" and "off \<le> length resp"
  shows "\<exists>e t. handshake_loop K fd resp n off s = Inr (e, t) \<and>
    (case e of
       Sent \<Rightarrow> delivered fd (calls t) = delivered fd (calls s) @ drop off resp
     | Left_Over off' \<Rightarrow> off \<le> off' \<and> off' < length resp \<and>
         delivered fd (calls t) = delivered fd (calls s) @ take (off' - off) (drop off resp))"
  using assms(2)
proof (induction n arbitrary: off s)
  case 0
  obtain a t where "fcntl K fd F_SETFL O_NONBLOCK s = Inr (a, t)" "delivered fd (calls t) = delivered fd (calls s)"
    by (rule fcntl_delivered)
  with 0 show ?case by auto
next
  case (Suc n)
  show ?case
  proof (cases "off < length resp")
    case False
    with Suc.prems show ?thesis by simp
  next
    case True
    obtain r t where rt: "sendto K fd (drop off resp) 0 PtrNull 0 s = Inr (r, t)"
      "delivered fd (calls t) = delivered fd (calls s) @ (if neg r then [] else take (unat r) (drop off resp))"
      "\<not> neg r \<longrightarrow> unat r \<le> length (drop off resp)"
      by (rule sendto_effect[OF assms(1), of fd "drop off resp" 0 PtrNull 0 s])
    obtain a u where u: "fcntl K fd F_SETFL O_NONBLOCK t = Inr (a, u)" "delivered fd (calls u) = delivered fd (calls t)"
      by (rule fcntl_delivered)
    consider (eagain) "r = -11" | (stop) "r \<noteq> -11" "neg r \<or> unat r = 0" | (go) "r \<noteq> -11" "\<not> neg r" "unat r \<noteq> 0"
      by blast
    then show ?thesis
    proof cases
      case eagain
      with Suc.IH[of off t] Suc.prems rt True show ?thesis by (auto split: handshake_end.splits)
    next
      case stop
      with rt u True show ?thesis by (auto simp: split: if_splits)
    next
      case go
      then have le: "off + unat r \<le> length resp" using rt(3) Suc.prems by simp
      have cat: "take (unat r) (drop off resp) @ drop (off + unat r) resp = drop off resp"
        by (metis add.commute append_take_drop_id drop_drop)
      have cat': "take (unat r) (drop off resp) @ take (off' - (off + unat r)) (drop (off + unat r) resp) =
          take (off' - off) (drop off resp)" if "off + unat r \<le> off'" for off'
        using take_take_drop[of "unat r" "off' - (off + unat r)" "drop off resp"] that
        by (simp add: add.commute)
      from Suc.IH[OF le, of t] obtain e v where ev: "handshake_loop K fd resp n (off + unat r) t = Inr (e, v)"
        "case e of Sent \<Rightarrow> delivered fd (calls v) = delivered fd (calls t) @ drop (off + unat r) resp
         | Left_Over off' \<Rightarrow> off + unat r \<le> off' \<and> off' < length resp \<and>
             delivered fd (calls v) = delivered fd (calls t) @ take (off' - (off + unat r)) (drop (off + unat r) resp)"
        by blast
      then show ?thesis using go rt True by (intro exI[of _ e] exI[of _ v]) (auto simp: cat cat' split: handshake_end.splits)
    qed
  qed
qed

text \<open>The accept key: Base64 of the SHA-1 digest of the key without blanks and the GUID.\<close>

lemma accept_key_eq:
  "accept_key key = Inr (b64_ref (sha1_standard (trim_end (trim_start key) @ WS_GUID)))"
  by (simp add: accept_key_def sha1_standard_eq base64_encode_eq)

lemma handshake_done_spec:
  assumes "undisturbed K fd inbox"
  obtains t where "handshake_done K fd s = Inr (Ws_Welcome fd (send_ws_payload fd welcome_text), t)"
    and "chat fd inbox t = chat fd inbox s"
proof -
  note q = quiet_chat[OF assms] quiet_chat_calls[OF assms]
  have "quiet (chat fd inbox) (handshake_done K fd)"
    unfolding handshake_done_def by (intro quiet_intros q)
  then obtain st t where t: "handshake_done K fd s = Inr (st, t)" "chat fd inbox t = chat fd inbox s"
    by (rule quietE)
  moreover have "st = Ws_Welcome fd (send_ws_payload fd welcome_text)"
    using t(1) by (auto simp: handshake_done_def bind_p_eq_Inr)
  ultimately show thesis by (intro that[of t]) auto
qed

lemma start_log:
  obtains t where "log_line K tag fd' rest s = Inr ((), t)" and "delivered fd (calls t) = delivered fd (calls s)"
  using quietE[OF quiet_chat(3)[OF undisturbed_trivial], of K tag fd' rest s fd] that chatD(1) by (metis (full_types) old.unit.exhaust)

section \<open>What a call logs\<close>

text \<open>
  The log only grows, here by events of a kind \<open>P\<close>, while the event descriptor of the runtime satisfies
  \<open>J\<close>.
\<close>

definition logs :: "(sysevent \<Rightarrow> bool) \<Rightarrow> ('w, 'z) machine_scheme \<Rightarrow> ('w, 'z) machine_scheme \<Rightarrow> bool" where
  "logs P s t \<longleftrightarrow> (\<exists>evs. calls t = calls s @ evs \<and> list_all P evs)"

abbreviation logging :: "(sysevent \<Rightarrow> bool) \<Rightarrow> (i32 \<Rightarrow> bool) \<Rightarrow> (('w, 'z) io_machine_scheme, 'a) prog \<Rightarrow> bool" where
  "logging P J m \<equiv> upholds UNIV (\<lambda>s. J (eventfd s)) (logs P) m"

lemma logs_preorder [upholds_intros, simp]: "reflp (logs P)" "transp (logs P)"
  by (auto simp: reflp_def transp_def logs_def)

lemma loggingD: "logging P J m \<Longrightarrow> J (eventfd s) \<Longrightarrow> m s = Inr (a, t) \<Longrightarrow> J (eventfd t) \<and> logs P s t"
  by (erule upholdsE[where s = s]) auto

lemma logging_syscall:
  "(\<And>r. P \<lparr>ev_nr = nr, ev_args = args, ev_ret = r\<rparr>) \<Longrightarrow> logging P J (do_syscall K nr args)"
  by (rule upholdsI) (auto simp: do_syscall_def logs_def split: prod.splits)

lemma logging_modify:
  "(\<And>s. J (eventfd s) \<Longrightarrow> J (eventfd (g s)) \<and> calls (g s) = calls s) \<Longrightarrow> logging P J (modify_p g)"
  by (rule upholdsI) (auto simp: logs_def)

text \<open>All but the closes.\<close>

definition spares :: "(sysevent \<Rightarrow> bool) \<Rightarrow> bool" where
  "spares P \<longleftrightarrow> (\<forall>ev. ev_nr ev \<noteq> 3 \<longrightarrow> P ev)"

lemma logging_calls:
  assumes "spares P"
  shows "logging P J (sys_write K fd buf)" and "logging P J (fcntl K fd cmd arg)"
    and "logging P J (sendto K fd buf flags dest n)" and "logging P J (recvfrom K fd vec flags src srclen)"
    and "logging P J (eventfd_call K initval eflags)"
  using assms
  unfolding sys_write_def fcntl_def sendto_def recvfrom_def eventfd_call_def ret_of_def fd_or_minus1_def raw_syscalls spares_def
  by (intro upholds_intros logging_syscall; simp)+

lemma logging_writes:
  assumes "spares P"
  shows "logging P J (log_write K msg)" and "logging P J (log_usize K n)" and "logging P J (log_line K tag fd rest)"
    and "logging P J (register_fd_waker fd ev cx)" and "logging P J (poll_send K f cx)" and "logging P J (poll_recv K g cx)"
proof -
  note rules = upholds_intros logging_calls[OF assms]
  show w: "logging P J (log_write K msg)" for msg unfolding log_write_def by (intro rules)
  show u: "logging P J (log_usize K n)" for n unfolding log_usize_def write_usize_eq by (intro rules)
  show "logging P J (log_line K tag fd rest)" unfolding log_line_def by (intro upholds_intros) (auto intro: w u)
  show r: "logging P J (register_fd_waker fd ev cx)" for fd ev cx
    unfolding register_fd_waker_def by (rule logging_modify) simp
  show "logging P J (poll_send K f cx)" "logging P J (poll_recv K g cx)"
    unfolding poll_send_def poll_recv_def by (intro rules r)+
qed

text \<open>
  \<open>unregister_fd\<close> closes a descriptor only when the static of the event descriptor is negative and not \<open>-1\<close>, its initial value.
\<close>

lemma logging_unregister:
  fixes K :: "'w kernel"
  assumes "spares P" and J: "\<And>e. \<not> neg e \<Longrightarrow> J e" and P: "\<And>e ev. J e \<Longrightarrow> neg e \<Longrightarrow> e \<noteq> -1 \<Longrightarrow> P ev"
  shows "logging P J (unregister_fd K fd :: (('w, 'z) io_machine_scheme, unit) prog)"
proof -
  have "logging P J (ensure_eventfd K :: (('w, 'z) io_machine_scheme, i32) prog)"
  proof (rule upholdsI, rule disjI1)
    fix s :: "('w, 'z) io_machine_scheme" assume s: "J (eventfd s)"
    obtain r out w where K: "K 290 [Reg 0, Reg 0] (kst s) = (r, out, w)" by (metis prod_cases3)
    have ev: "P \<lparr>ev_nr = 290, ev_args = a, ev_ret = r\<rparr>" for a r using assms(1) by (simp add: spares_def)
    show "\<exists>a t. ensure_eventfd K s = Inr (a, t) \<and> J (eventfd t) \<and> logs P s t"
      using s K ev J P[OF s]
      by (auto simp: ensure_eventfd_def eventfd_call_def close_def fd_or_minus1_def raw_syscalls do_syscall_def bind_p_def
          ignore_p_def logs_def split: prod.splits)
  qed
  then show ?thesis
    unfolding unregister_fd_def signal_eventfd_def
    by (intro upholds_intros logging_modify logging_calls[OF assms(1)]) simp_all
qed

lemma logging_handshake:
  assumes "spares P"
  shows "logging P J (handshake_loop K fd resp n off)" and "logging P J (handshake_done K fd)"
  unfolding handshake_done_def
  by (induction n arbitrary: off) (auto intro!: upholds_intros logging_calls[OF assms] logging_writes[OF assms])

text \<open>No call of the task but a receive takes from the inbox.\<close>

lemma keeps_inbox_chat: "quiet (chat fd inbox) m \<Longrightarrow> keeps (\<lambda>s. inbox (kst s)) m"
  by (rule quiet_keeps, erule quiet_coarse) (rule chatD(2))

lemma keeps_inbox_send [keeps_intros]:
  assumes "undisturbed K fd inbox"
  shows "keeps (\<lambda>s. inbox (kst s)) (sendto K fd' buf flags dest n)" and "keeps (\<lambda>s. inbox (kst s)) (poll_send K f cx)"
proof -
  have "quiet (\<lambda>s. inbox (kst s)) (do_syscall K 44 args)" for args
    unfolding quiet_def
  proof
    fix s
    have "inbox (snd (snd (K 44 args (kst s)))) = inbox (kst s)" using assms by (simp add: undisturbed_def)
    then show "\<exists>a t. do_syscall K 44 args s = Inr (a, t) \<and> inbox (kst t) = inbox (kst s)"
      by (auto simp: do_syscall_def split: prod.splits)
  qed
  note call = this[THEN quiet_keeps]
  show "keeps (\<lambda>s. inbox (kst s)) (sendto K fd' buf flags dest n)"
    unfolding sendto_def ret_of_def raw_syscalls by (intro keeps_intros call)
  show "keeps (\<lambda>s. inbox (kst s)) (poll_send K f cx)"
    unfolding poll_send_def register_fd_waker_def sendto_def ret_of_def raw_syscalls
    by (intro keeps_intros call) simp_all
qed

lemma keeps_inbox_start:
  assumes "undisturbed K fd inbox"
  shows "keeps (\<lambda>s. inbox (kst s)) (ws_start K fd request)"
proof -
  note q = quiet_chat[OF assms, THEN keeps_inbox_chat] quiet_chat_calls[OF assms, THEN keeps_inbox_chat]
  have "keeps (\<lambda>s. inbox (kst s)) (handshake_loop K fd resp n off)" for resp n off
    by (induction n arbitrary: off) (auto intro!: keeps_intros q keeps_inbox_send[OF assms])
  then show ?thesis
    unfolding ws_start_def ws_reject_def handshake_done_def Let_def
    by (intro keeps_intros q) (auto intro!: keeps_intros q split: handshake_end.splits)
qed

lemma logging_start: "logging (\<lambda>_. True) (\<lambda>_. True) (ws_start K fd request)"
proof -
  have P: "spares (\<lambda>_. True)" by (simp add: spares_def)
  note rules = upholds_intros logging_calls[OF P] logging_writes[OF P] logging_handshake[OF P] logging_unregister[OF P]
  show ?thesis
    unfolding ws_start_def ws_reject_def Let_def close_def fd_or_minus1_def raw_syscalls
    by (intro rules logging_syscall) (auto intro!: rules split: handshake_end.splits)
qed

lemma handshake_start:
  assumes "send_ok K" and "undisturbed K fd inbox" and "find_header_value request ''Sec-WebSocket-Key'' = Inr (Some key)"
    and "resp = handshake_response (b64_ref (sha1_standard (trim_end (trim_start key) @ WS_GUID)))"
  shows "\<exists>t. inbox (kst t) = inbox (kst s) \<and> logs (\<lambda>_. True) s t \<and>
     ((ws_start K fd request s = Inr (Some (Ws_Welcome fd (send_ws_payload fd welcome_text)), t) \<and>
        delivered fd (calls t) = delivered fd (calls s) @ resp) \<or>
      (\<exists>off < length resp. ws_start K fd request s = Inr (Some (Ws_Handshake fd (send_new fd (drop off resp))), t) \<and>
        delivered fd (calls t) = delivered fd (calls s) @ take off resp))"
proof -
  obtain u where u: "log_line K ''[WS] fd='' fd '' handshake start\<newline>'' s = Inr ((), u)"
    "delivered fd (calls u) = delivered fd (calls s)" by (rule start_log)
  obtain a v where v: "fcntl K fd F_SETFL 0 u = Inr (a, v)" "delivered fd (calls v) = delivered fd (calls u)"
    by (rule fcntl_delivered)
  obtain e w where w: "handshake_loop K fd resp 1000 0 v = Inr (e, w)"
    "case e of Sent \<Rightarrow> delivered fd (calls w) = delivered fd (calls v) @ resp
     | Left_Over off \<Rightarrow> off < length resp \<and> delivered fd (calls w) = delivered fd (calls v) @ take off resp"
    using handshake_loop_spec[OF assms(1), of 0 resp fd 1000 v]
    by (auto cong: handshake_end.case_cong)
  have start: "ws_start K fd request s = (case e of
      Sent \<Rightarrow> bind_p (handshake_done K fd) (\<lambda>st. return_p (Some st))
    | Left_Over off \<Rightarrow> return_p (Some (Ws_Handshake fd (send_new fd (drop off resp))))) w"
    using u(1) v(1) w(1) assms(3)
    by (simp add: ws_start_def accept_key_eq assms(4)[symmetric] Let_def del: handshake_loop.simps)
  obtain x where x: "handshake_done K fd w = Inr (Ws_Welcome fd (send_ws_payload fd welcome_text), x)"
    "delivered fd (calls x) = delivered fd (calls w)"
    using handshake_done_spec[OF undisturbed_trivial, of K fd w] chatD(1) by metis
  note keep = keepsD[OF keeps_inbox_start[OF assms(2)], of request s]
  note grow = loggingD[OF logging_start TrueI, of K fd request s]
  show ?thesis
  proof (cases e)
    case Sent
    then show ?thesis using start w(2) x u(2) v(2) keep[of _ x] grow[of _ x] by (intro exI[of _ x]) simp
  next
    case (Left_Over off)
    then show ?thesis using start w(2) u(2) v(2) keep[of _ w] grow[of _ w] by (intro exI[of _ w]) auto
  qed
qed

section \<open>Properties\<close>

text \<open>
  C23: A payload is written in full and in order. Sending a payload starts with its frame, none
  of it written. Every poll ends, after at most one send per byte left, in one of two ways: the
  task is pending, a prefix of the frame has been written and exactly the rest is still to be
  sent; or it is over, and the whole frame was written unless the last send failed or wrote
  nothing. Nothing but a prefix of the frame is ever written.
\<close>

theorem send_ws_payload_exact:
  assumes "send_ok K"
  shows "ws_sending (delivered fd (calls s0)) (send_ws_payload fd payload) s0 \<and>
    ws_out (send_ws_payload fd payload) = build_websocket_frame 2 payload \<and>
    (ws_sending base st s \<longrightarrow>
      (\<exists>st' t. poll_ws_send K st cx s = Inr (Pending st', t) \<and> ws_sending base st' t \<and>
          ws_fd st' = ws_fd st \<and> ws_out st' = ws_out st) \<or>
      (\<exists>k t. poll_ws_send K st cx s = Inr (Ready (), t) \<and> k \<le> length (ws_out st) \<and>
          delivered (ws_fd st) (calls t) = base @ take k (ws_out st) \<and>
          (k = length (ws_out st) \<or> send_failed K (ws_fd st) (ev_ret (last (calls t))))))"
  using ws_send_loop_spec[OF assms, of base st s "length (ws_out st) - ws_off st" cx] ws_sending_start[of fd s0 payload]
  by (auto simp: poll_ws_send_def send_ws_payload_def ws_payload_frame_eq Let_def)

text \<open>A kernel that accepts every buffer whole.\<close>

definition whole_kernel :: "unit kernel" where
  "whole_kernel nr args w =
     (case args of f # PtrBytes buf # rest \<Rightarrow> (of_nat (length buf), OutNone, w) | _ \<Rightarrow> (0, OutNone, w))"

lemma whole_kernel_ok: "send_ok whole_kernel"
  by (simp add: send_ok_def whole_kernel_def unat_of_nat take_bit_nat_less_eq_self)

theorem send_ws_payload_exact_witness:
  "\<exists>k t. poll_ws_send whole_kernel (send_ws_payload 5 [104, 105]) 77 fresh_sched = Inr (Ready (), t) \<and>
     delivered 5 (calls t) = take k (build_websocket_frame 2 [104, 105]) \<and> k = 4"
proof -
  have p: "poll_ws_send whole_kernel (send_ws_payload 5 [104, 105]) 77 fresh_sched =
      Inr (Ready (), fresh_sched\<lparr>calls := [\<lparr>ev_nr = 44, ev_args = [reg_i32 5, PtrBytes [130, 2, 104, 105], reg_len 4,
        reg_i32 0, PtrNull, Reg 0], ev_ret = 4\<rparr>]\<rparr>)"
    by (simp add: poll_ws_send_def send_ws_payload_def ws_payload_frame_def send_new_def poll_send_def sendto_def
        ret_of_def raw_syscalls do_syscall_def whole_kernel_def bind_p_def Let_def fresh_sched_def)
  from send_ws_payload_exact[OF whole_kernel_ok, of 5 fresh_sched "[104, 105]" "[]" "send_ws_payload 5 [104, 105]" fresh_sched 77]
  show ?thesis using p by (auto simp: fresh_sched_def build_websocket_frame_def send_ws_payload_def send_failed_def Let_def)
qed

text \<open>
  C24: The opening handshake. For a request with a key the task never panics and never loops:
  the response carries the accept key RFC 6455 asks for (Base64 of the SHA-1 digest of the key
  without its blanks followed by the GUID), and either the whole response was delivered and the
  task goes on with the welcome message, or a proper prefix was delivered and the task is about to
  send exactly the rest.
\<close>

theorem handshake_delivers:
  assumes "send_ok K" and "find_header_value request ''Sec-WebSocket-Key'' = Inr (Some key)"
    and "resp = handshake_response (b64_ref (sha1_standard (trim_end (trim_start key) @ WS_GUID)))"
  shows "\<exists>t. (ws_start K fd request s = Inr (Some (Ws_Welcome fd (send_ws_payload fd welcome_text)), t) \<and>
        delivered fd (calls t) = delivered fd (calls s) @ resp) \<or>
      (\<exists>off < length resp. ws_start K fd request s = Inr (Some (Ws_Handshake fd (send_new fd (drop off resp))), t) \<and>
        delivered fd (calls t) = delivered fd (calls s) @ take off resp)"
  using handshake_start[OF assms(1) undisturbed_trivial assms(2,3), of s fd] by blast

theorem handshake_delivers_witness:
  "\<exists>st t. ws_start whole_kernel 5 (str ''Sec-WebSocket-Key: dGhl'' @ CRLF) fresh_sched = Inr (Some st, t) \<and>
     prefix (delivered 5 (calls t)) (handshake_response (b64_ref (sha1_standard (str ''dGhl'' @ WS_GUID))))"
proof -
  define req where "req = str ''Sec-WebSocket-Key: dGhl'' @ CRLF"
  define key where "key = str ''dGhl''"
  have found: "find_header_value req ''Sec-WebSocket-Key'' = Inr (Some key)"
    unfolding req_def key_def CRLF_def by code_simp
  have trim: "trim_end (trim_start key) = key" by (simp add: key_def trim_end.simps)
  have none: "delivered 5 (calls fresh_sched) = []" by (simp add: fresh_sched_def)
  have "\<exists>st t. ws_start whole_kernel 5 req fresh_sched = Inr (Some st, t) \<and>
      prefix (delivered 5 (calls t)) (handshake_response (b64_ref (sha1_standard (key @ WS_GUID))))"
    using handshake_delivers[OF whole_kernel_ok found refl, of 5 fresh_sched] unfolding trim none append_Nil
    by (metis prefix_order.refl take_is_prefix)
  then show ?thesis unfolding req_def key_def .
qed

end
