(* ===== verification/Conversation.thy ===== *)
theory Conversation
  imports Session
begin

text \<open>
  What a WebSocket connection says, as a function of the key of its request and the frames its
  client sends: the handshake response, the welcome message, every message echoed and followed by a ping,
  every ping answered, until a close frame. The state machine of theory Websocket implements this
  function on a stream socket of the documented kind, however it cuts the stream into chunks, defers, shortens or
  refuses writes, ends or fails, and whatever other tasks do in between; where a write is lost, the log of
  system calls shows the send that lost it.
\<close>

section \<open>The specification\<close>

datatype ws_event = Message bytes | Pinged bytes | Closed

text \<open>The messages and control frames of a stream; \<open>m\<close> is the message whose fragments are being collected.\<close>

fun events :: "bytes option \<Rightarrow> (bool \<times> u8 \<times> bytes) list \<Rightarrow> ws_event list" where
  "events m [] = []"
| "events m ((fin, opcode, payload) # fs) =
     (if opcode = 0
      then case m of
             None \<Rightarrow> events None fs
           | Some acc \<Rightarrow>
               if fin then Message (acc @ payload) # events None fs
               else events (Some (acc @ payload)) fs
      else if opcode = 1 \<or> opcode = 2
      then if fin then Message payload # events m fs else events (Some payload) fs
      else if opcode = 8 then [Closed]
      else if opcode = 9 then Pinged payload # events m fs
      else events m fs)"

text \<open>What a connection writes as a unit: the handshake response, a data frame, a ping or pong.\<close>

datatype utterance = Response bytes | Payload bytes | Control bytes

fun bytes_of :: "utterance \<Rightarrow> bytes" where
  "bytes_of (Response b) = b"
| "bytes_of (Payload b) = b"
| "bytes_of (Control b) = b"

fun answer :: "ws_event \<Rightarrow> utterance list" where
  "answer (Message msg) = [Payload (build_websocket_frame 2 msg), Control PING]"
| "answer (Pinged payload) = [Control (build_websocket_frame 0xA payload)]"
| "answer Closed = []"

definition answers :: "bytes option \<Rightarrow> (bool \<times> u8 \<times> bytes) list \<Rightarrow> utterance list" where
  "answers m fs = concat (map answer (events m fs))"

definition conversation :: "bytes \<Rightarrow> ws_frame list \<Rightarrow> utterance list" where
  "conversation key fs =
     Response (handshake_response (b64_ref (sha1_standard (trim_end (trim_start key) @ WS_GUID)))) #
     Payload (build_websocket_frame 2 welcome_text) # answers None (map ws_view fs)"

text \<open>
  What of an utterance reaches the client: all of it, or else the part before a send that the log shows
  and what that send took. A data frame is only cut by a send that failed or took nothing, a
  ping or pong by its only send.
\<close>

definition uttered :: "i32 \<Rightarrow> sysevent list \<Rightarrow> utterance \<Rightarrow> bytes \<Rightarrow> bool" where
  "uttered fd evs u p \<longleftrightarrow> p = bytes_of u \<or>
     (\<exists>off r. answered fd evs (bytes_of u) off r \<and>
        p = take off (bytes_of u) @ (if neg r then [] else take (unat r) (drop off (bytes_of u))) \<and>
        (case u of Response _ \<Rightarrow> True | Payload _ \<Rightarrow> sint r \<le> 0 | Control _ \<Rightarrow> off = 0))"

text \<open>
  The sends and receives on the descriptor since \<open>past\<close> fall into one stretch for each of the utterances
  \<open>us\<close>, in order, which has written it, and a last stretch that has written \<open>part\<close>, the part of the next one.
\<close>

definition spoken :: "i32 \<Rightarrow> sysevent list \<Rightarrow> utterance list \<Rightarrow> bytes \<Rightarrow> sysevent list \<Rightarrow> bool" where
  "spoken fd past us part evs \<longleftrightarrow>
     (\<exists>segs rest. talk fd evs = past @ concat segs @ rest \<and> delivered fd rest = part \<and>
        list_all2 (\<lambda>u seg. uttered fd seg u (delivered fd seg)) us segs)"

text \<open>A receive on the descriptor since \<open>past\<close> that failed.\<close>

definition recv_failed :: "i32 \<Rightarrow> sysevent list \<Rightarrow> sysevent list \<Rightarrow> bool" where
  "recv_failed fd past evs \<longleftrightarrow> (\<exists>new. talk fd evs = past @ new \<and>
     (\<exists>ev \<in> set new. ev_nr ev = 45 \<and> neg (ev_ret ev) \<and> ev_ret ev \<noteq> -11))"

lemma uttered_mono: "uttered fd evs u p \<Longrightarrow> set evs \<subseteq> set evs' \<Longrightarrow> uttered fd evs' u p"
  unfolding uttered_def answered_def by blast

lemma talk_append [simp]: "talk fd (as @ bs) = talk fd as @ talk fd bs"
  by (simp add: talk_def)

text \<open>The log grows by \<open>evs\<close>: more of the utterance under way, or all it will ever be.\<close>

lemma spoken_grows:
  assumes "spoken fd past us part (calls s)" and "calls t = calls s @ evs"
  shows "spoken fd past us (part @ delivered fd evs) (calls t)"
proof -
  obtain segs rest where n: "talk fd (calls s) = past @ concat segs @ rest" "delivered fd rest = part"
    "list_all2 (\<lambda>u seg. uttered fd seg u (delivered fd seg)) us segs"
    using assms(1) by (auto simp: spoken_def)
  then show ?thesis
    unfolding spoken_def using assms(2)
    by (intro exI[of _ segs] exI[of _ "rest @ talk fd evs"]) (simp add: delivered_talk)
qed

lemma spoken_utters:
  assumes "spoken fd past us part (calls s)" and "calls t = calls s @ evs"
    and "uttered fd (talk fd evs) u (part @ delivered fd evs)"
  shows "spoken fd past (us @ [u]) [] (calls t)"
proof -
  obtain segs rest where n: "talk fd (calls s) = past @ concat segs @ rest" "delivered fd rest = part"
    "list_all2 (\<lambda>u seg. uttered fd seg u (delivered fd seg)) us segs"
    using assms(1) by (auto simp: spoken_def)
  let ?seg = "rest @ talk fd evs"
  have "uttered fd ?seg u (delivered fd ?seg)"
    using uttered_mono[OF assms(3), of ?seg] n(2) by (simp add: delivered_talk)
  with n show ?thesis
    unfolding spoken_def using assms(2)
    by (intro exI[of _ "segs @ [?seg]"] exI[of _ "[]"]) (simp add: list_all2_appendI)
qed

lemma spoken_chat: "chat fd inbox t = chat fd inbox s \<Longrightarrow> spoken fd past us part (calls s) \<Longrightarrow> spoken fd past us part (calls t)"
  using chatD(3)[of fd inbox t s] by (simp add: spoken_def)

lemma recv_failed_chat: "chat fd inbox t = chat fd inbox s \<Longrightarrow> recv_failed fd past (calls s) \<Longrightarrow> recv_failed fd past (calls t)"
  using chatD(3)[of fd inbox t s] by (simp add: recv_failed_def)

lemma answered_talk: "answered fd [ev] u off r \<Longrightarrow> ev \<in> set evs \<Longrightarrow> answered fd (talk fd evs) u off r"
  unfolding answered_def by (auto simp: talk_def)

section \<open>The frame handler refines the specification\<close>

definition conn_ok :: "ws_conn \<Rightarrow> bool" where
  "conn_ok c \<longleftrightarrow> frag_opcode c \<in> {None, Some 1, Some 2}"

definition open_msg :: "ws_conn \<Rightarrow> bytes option" where
  "open_msg c = (if frag_opcode c = None then None else Some (frag_payload c))"

lemma open_msg_buf_acc [simp]: "open_msg (c\<lparr>buf_acc := b\<rparr>) = open_msg c"
  by (simp add: open_msg_def)

definition after_frame :: "(bool \<times> u8 \<times> bytes) list \<Rightarrow> ws_action \<Rightarrow> utterance list" where
  "after_frame fs act =
     (case act of
        Skip c \<Rightarrow> answers (open_msg c) fs
      | Echo c full \<Rightarrow> Payload (ws_payload_frame full) # Control PING # answers (open_msg c) fs
      | Pong c payload \<Rightarrow> Control (build_websocket_frame 0xA payload) # answers (open_msg c) fs
      | Close \<Rightarrow> [])"

fun conn_after :: "ws_action \<Rightarrow> ws_conn option" where
  "conn_after (Skip c) = Some c"
| "conn_after (Echo c full) = Some c"
| "conn_after (Pong c payload) = Some c"
| "conn_after Close = None"

lemma handle_frame_answers:
  assumes "conn_ok c"
  shows "answers (open_msg c) ((fin, opcode, payload) # fs) = after_frame fs (handle_frame c fin opcode payload)"
  using assms
  by (auto simp: handle_frame_def answers_def after_frame_def open_msg_def conn_ok_def ws_payload_frame_eq Let_def
      split: option.splits)

lemma handle_frame_conn:
  assumes "conn_ok c" and "conn_after (handle_frame c fin opcode payload) = Some c'"
  shows "conn_ok c' \<and> buf_acc c' = buf_acc c"
  using assms by (auto simp: handle_frame_def conn_ok_def Let_def split: option.splits if_splits)

section \<open>The socket\<close>

text \<open>
  A stream socket as the manual describes it: a send never claims to have taken more than it was given; a
  receive fails and leaves the stream as it is, or returns 0 when the peer has shut down and nothing is
  left, or returns the number of bytes it has taken from the front of what is under way. Nothing
  else takes from the stream.
\<close>

definition stream_socket :: "'w kernel \<Rightarrow> i32 \<Rightarrow> ('w \<Rightarrow> bytes) \<Rightarrow> bool" where
  "stream_socket K fd inbox \<longleftrightarrow> undisturbed K fd inbox \<and> send_ok K \<and>
     (\<forall>n rest w r out w'. 0 < n \<and> K 45 (reg_i32 fd # PtrBuf n # rest) w = (r, out, w') \<longrightarrow>
        neg r \<and> inbox w' = inbox w \<or>
        r = 0 \<and> inbox w = [] \<and> inbox w' = [] \<or>
        (\<exists>bs. out = OutBytes bs \<and> bs \<noteq> [] \<and> length bs \<le> n \<and> r = of_nat (length bs) \<and> inbox w = bs @ inbox w'))"

lemma stream_socketD:
  assumes "stream_socket K fd inbox"
  shows "undisturbed K fd inbox" and "send_ok K"
  using assms by (simp_all add: stream_socket_def)

lemma keeps_inbox_ws_send:
  assumes "undisturbed K fd inbox"
  shows "keeps (\<lambda>s. inbox (kst s)) (poll_ws_send K st cx)"
proof -
  have "keeps (\<lambda>s. inbox (kst s)) (ws_send_loop K n st cx)" for n
    by (induction n arbitrary: st) (auto intro!: keeps_intros keeps_inbox_send[OF assms] simp: Let_def)
  then show ?thesis by (simp add: poll_ws_send_def)
qed

lemma ws_send_log:
  assumes "poll_ws_send K st cx s = Inr (p, t)"
  shows "\<exists>evs. calls t = calls s @ evs \<and> evs \<noteq> []"
proof -
  have "\<exists>evs. calls t = calls s @ evs \<and> evs \<noteq> []" if "ws_send_loop K n st cx s = Inr (p, t)" for n
    using that
  proof (induction n arbitrary: st s)
    case (Suc n)
    from Suc.prems obtain q u where q: "poll_send K (ws_fut st) cx s = Inr (q, u)" by (auto simp: bind_p_eq_Inr)
    from poll_send_log[OF q] obtain ev where ev: "calls u = calls s @ [ev]" by blast
    have "calls t = calls u \<or> (\<exists>evs. calls t = calls u @ evs)"
      using Suc.prems q Suc.IH by (fastforce simp: Let_def split: poll.splits if_splits)
    with ev show ?case by auto
  qed (simp add: raise_p_def)
  with assms show ?thesis by (simp add: poll_ws_send_def)
qed

section \<open>The invariant of a conversation\<close>

fun conn_of :: "ws_state \<Rightarrow> ws_conn" where
  "conn_of (Ws_Handshake fd f) = new_conn"
| "conn_of (Ws_Welcome fd st) = new_conn"
| "conn_of (Ws_Recv fd c f) = c"
| "conn_of (Ws_Echo fd c st) = c"
| "conn_of (Ws_Ping fd c f) = c"
| "conn_of (Ws_Pong fd c f) = c"

text \<open>
  What the await at hand still has to write: \<open>us\<close> is behind it, \<open>out\<close> is what it is
  writing and what follows without another frame.
\<close>

definition sending :: "i32 \<Rightarrow> sysevent list \<Rightarrow> utterance list \<Rightarrow> ws_send \<Rightarrow> ('w, 'z) machine_scheme \<Rightarrow> bool" where
  "sending fd past us w s \<longleftrightarrow> ws_fd w = fd \<and> (\<exists>base. ws_sending base w s) \<and>
     spoken fd past us (take (ws_off w) (ws_out w)) (calls s)"

definition sending_once :: "i32 \<Rightarrow> sysevent list \<Rightarrow> utterance list \<Rightarrow> bytes \<Rightarrow> nat \<Rightarrow> send_future \<Rightarrow> ('w, 'z) machine_scheme \<Rightarrow> bool" where
  "sending_once fd past us b off f s \<longleftrightarrow> sf_fd f = fd \<and> off < length b \<and> sf_buf f = drop off b \<and>
     spoken fd past us (take off b) (calls s)"

fun pending_ok :: "i32 \<Rightarrow> sysevent list \<Rightarrow> utterance list \<Rightarrow> ws_state \<Rightarrow> utterance list \<Rightarrow> ('w, 'z) machine_scheme \<Rightarrow> bool" where
  "pending_ok fd past us (Ws_Handshake fd' f) out s \<longleftrightarrow> fd' = fd \<and>
     (\<exists>resp off. out = [Response resp, Payload (ws_payload_frame welcome_text)] \<and> sending_once fd past us resp off f s)"
| "pending_ok fd past us (Ws_Welcome fd' w) out s \<longleftrightarrow> fd' = fd \<and> out = [Payload (ws_out w)] \<and> sending fd past us w s"
| "pending_ok fd past us (Ws_Recv fd' c f) out s \<longleftrightarrow> fd' = fd \<and> rf_fd f = fd \<and> length (rf_buf f) = 4096 \<and> out = [] \<and>
     parse_websocket_frame (buf_acc c) = Inr None \<and> spoken fd past us [] (calls s)"
| "pending_ok fd past us (Ws_Echo fd' c w) out s \<longleftrightarrow> fd' = fd \<and> out = [Payload (ws_out w), Control PING] \<and> sending fd past us w s"
| "pending_ok fd past us (Ws_Ping fd' c f) out s \<longleftrightarrow> fd' = fd \<and> out = [Control PING] \<and> sending_once fd past us PING 0 f s"
| "pending_ok fd past us (Ws_Pong fd' c f) out s \<longleftrightarrow> fd' = fd \<and> out = [Control (sf_buf f)] \<and> sending_once fd past us (sf_buf f) 0 f s"

text \<open>
  The frames still to come are those whose encoding is the buffer and the inbox, up to an unfinished
  frame \<open>tail\<close>. What was said, what the await at hand will say and the answers to those
  frames make up \<open>goal\<close>.
\<close>

definition to_come :: "('w \<Rightarrow> bytes) \<Rightarrow> bytes \<Rightarrow> ws_conn \<Rightarrow> ws_frame list \<Rightarrow> ('w, 'z) machine_scheme \<Rightarrow> bool" where
  "to_come inbox tail c rs s \<longleftrightarrow> conn_ok c \<and> (\<forall>f \<in> set rs. valid_frame f) \<and> parse_websocket_frame tail = Inr None \<and>
     concat (map wire rs) @ tail = buf_acc c @ inbox (kst s)"

fun talking :: "i32 \<Rightarrow> ('w \<Rightarrow> bytes) \<Rightarrow> bytes \<Rightarrow> sysevent list \<Rightarrow> utterance list \<Rightarrow> ws_state option \<Rightarrow> ('w, 'z) machine_scheme \<Rightarrow> bool" where
  "talking fd inbox tail past goal None s \<longleftrightarrow>
     (\<exists>us vs. goal = us @ vs \<and> spoken fd past us [] (calls s) \<and> (vs = [] \<or> recv_failed fd past (calls s)))"
| "talking fd inbox tail past goal (Some st) s \<longleftrightarrow>
     (\<exists>rs us out. to_come inbox tail (conn_of st) rs s \<and> pending_ok fd past us st out s \<and>
        goal = us @ out @ answers (open_msg (conn_of st)) (map ws_view rs))"

lemma sending_chat: "chat fd inbox t = chat fd inbox s \<Longrightarrow> sending fd past us w s \<Longrightarrow> sending fd past us w t"
  unfolding sending_def ws_sending_def using chatD(1)[of fd inbox t s] spoken_chat[of fd inbox t s] by metis

lemma sending_once_chat:
  "chat fd inbox t = chat fd inbox s \<Longrightarrow> sending_once fd past us b off f s \<Longrightarrow> sending_once fd past us b off f t"
  unfolding sending_once_def using spoken_chat[of fd inbox t s] by metis

lemma pending_ok_chat:
  assumes "chat fd inbox t = chat fd inbox s" and "pending_ok fd past us st out s"
  shows "pending_ok fd past us st out t"
  using assms sending_chat[OF assms(1)] sending_once_chat[OF assms(1)] spoken_chat[OF assms(1)]
  by (cases st) (auto, blast)

lemma talking_chat:
  assumes chat: "chat fd inbox t = chat fd inbox s" and "talking fd inbox tail past goal st s"
  shows "talking fd inbox tail past goal st t"
proof (cases st)
  case None
  then show ?thesis
    using assms(2) spoken_chat[OF chat] recv_failed_chat[OF chat] by (simp only: talking.simps) blast
next
  case (Some st')
  then obtain rs us out where "to_come inbox tail (conn_of st') rs s" "pending_ok fd past us st' out s"
    "goal = us @ out @ answers (open_msg (conn_of st')) (map ws_view rs)"
    using assms(2) by auto
  moreover from this(1) have "to_come inbox tail (conn_of st') rs t" using chatD(2)[OF chat] by (simp add: to_come_def)
  ultimately show ?thesis using Some pending_ok_chat[OF chat] by (simp only: talking.simps) blast
qed

section \<open>The frame loop\<close>

lemma wire_parse:
  assumes "valid_frame f"
  shows "parse_websocket_frame (wire f @ rest) = Inr (Some (of_nat (length (wire f)), f_fin f, of_nat (f_opcode f), f_payload f))"
  using ref_parse_wire[OF assms, of rest] by (simp add: parse_websocket_frame_eq)

lemma parse_None: "parse_websocket_frame buf = Inr None \<longleftrightarrow> ref_parse buf = Inr None"
  by (cases "ref_parse buf") (auto simp: parse_websocket_frame_eq)

text \<open>
  A buffer that is the front of a stream of valid frames and an unfinished one is incomplete or starts
  with the first of them.
\<close>

lemma parse_stream:
  assumes "\<forall>f \<in> set rs. valid_frame f" and "parse_websocket_frame tail = Inr None" and "concat (map wire rs) @ tail = buf @ rest"
  shows "parse_websocket_frame buf = Inr None \<or>
    (\<exists>f rs'. rs = f # rs' \<and> buf = wire f @ drop (length (wire f)) buf \<and>
       parse_websocket_frame buf = Inr (Some (of_nat (length (wire f)), ws_view f)) \<and>
       unat (of_nat (length (wire f)) :: usize) = length (wire f))"
proof (cases "ref_parse buf = Inr None")
  case True
  then show ?thesis by (simp add: parse_None)
next
  case False
  have all: "ref_parse (concat (map wire rs) @ tail) = ref_parse buf"
    using ref_parse_append[OF False, of rest] assms(3) by simp
  show ?thesis
  proof (cases rs)
    case Nil
    then show ?thesis using all False assms(2) by (simp add: parse_None)
  next
    case (Cons f rs')
    then have v: "valid_frame f" using assms(1) by simp
    have p: "ref_parse buf = Inr (Some (length (wire f), f_fin f, of_nat (f_opcode f), f_payload f))"
      using all ref_parse_wire[OF v, of "concat (map wire rs') @ tail"] Cons by simp
    have len: "length (wire f) \<le> length buf" "length (wire f) < 2 ^ 64"
      using ref_parse_consumed[OF p] ref_parse_bound[OF p] by auto
    have "take (length (wire f)) buf = take (length (wire f)) (buf @ rest)" using len(1) by simp
    also have "\<dots> = wire f" using Cons by (simp add: assms(3)[symmetric])
    finally have "buf = wire f @ drop (length (wire f)) buf" by (metis append_take_drop_id)
    then show ?thesis
      using Cons p len(2) by (auto simp: parse_websocket_frame_eq ws_view_def unat_of_nat_small)
  qed
qed

lemma stream_done:
  assumes "to_come inbox tail c rs s" and "parse_websocket_frame (buf_acc c) = Inr None" and "inbox (kst s) = []"
  shows "rs = []"
proof (cases rs)
  case (Cons f rs')
  then have "valid_frame f" "buf_acc c = wire f @ concat (map wire rs') @ tail"
    using assms(1,3) by (auto simp: to_come_def)
  with wire_parse[of f "concat (map wire rs') @ tail"] assms(2) show ?thesis by simp
qed

lemma wire_length_ge2: "valid_frame f \<Longrightarrow> 2 \<le> length (wire f)"
  using ref_parse_wire[of f "[]"] ref_parse_consumed by fastforce

text \<open>A measure of the work a connection still has with what it received and will receive.\<close>

fun rank :: "ws_state \<Rightarrow> nat" where
  "rank (Ws_Handshake fd f) = 2"
| "rank (Ws_Welcome fd st) = 1"
| "rank (Ws_Recv fd c f) = 0"
| "rank (Ws_Echo fd c st) = 2"
| "rank (Ws_Ping fd c f) = 1"
| "rank (Ws_Pong fd c f) = 1"

definition effort :: "('w \<Rightarrow> bytes) \<Rightarrow> ws_conn \<Rightarrow> ('w, 'z) machine_scheme \<Rightarrow> nat" where
  "effort inbox c s = 3 * length (buf_acc c) + 4 * length (inbox (kst s)) + 1"

fun within :: "('w \<Rightarrow> bytes) \<Rightarrow> nat \<Rightarrow> ws_state option \<Rightarrow> ('w, 'z) machine_scheme \<Rightarrow> bool" where
  "within inbox n None s \<longleftrightarrow> True"
| "within inbox n (Some st) s \<longleftrightarrow> effort inbox (conn_of st) s + rank st \<le> n"

lemma within_mono: "within inbox m st s \<Longrightarrow> m \<le> n \<Longrightarrow> within inbox n st s"
  by (cases st) auto

lemma frame_nonempty: "build_websocket_frame opcode payload \<noteq> []"
  by (simp add: build_websocket_frame_def Let_def)

lemma close_talks:
  assumes "undisturbed K fd inbox"
  obtains t where "bind_p (unregister_fd K fd) (\<lambda>_. bind_p (close K fd) (\<lambda>_. return_p None)) s = Inr (None, t)"
    and "chat fd inbox t = chat fd inbox s"
proof -
  obtain a u where u: "unregister_fd K fd s = Inr (a, u)" "chat fd inbox u = chat fd inbox s"
    by (rule quietE[OF quiet_chat(4)[OF assms]])
  obtain b t where "close K fd u = Inr (b, t)" "chat fd inbox t = chat fd inbox u"
    by (rule quietE[OF quiet_chat_calls(2)[OF assms]])
  with u show thesis by (intro that[of t]) simp_all
qed

lemma spoken_starts:
  assumes "spoken fd past us [] (calls s)"
  shows "sending fd past us (send_ws_payload fd payload) s" and "b \<noteq> [] \<Longrightarrow> sending_once fd past us b 0 (send_new fd b) s"
  using assms ws_sending_start[of fd s payload]
  by (auto simp: sending_def sending_once_def send_ws_payload_def send_new_def Let_def)

text \<open>What the loop does with a frame that is not merely skipped.\<close>

lemma act_talks:
  assumes "undisturbed K fd inbox" and "goal = us @ after_frame (map ws_view rs) act" and said: "spoken fd past us [] (calls s)"
    and conn: "\<And>c'. conn_after act = Some c' \<Longrightarrow> to_come inbox tail c' rs s \<and> effort inbox c' s + 6 \<le> e"
    and skip: "\<And>c'. act = Skip c' \<Longrightarrow> \<exists>st t. go c' s = Inr (st, t) \<and> talking fd inbox tail past goal st t \<and>
      within inbox (effort inbox c' s) st t"
  shows "\<exists>st t. (case act of
          Skip c \<Rightarrow> go c
        | Echo c full \<Rightarrow> return_p (Some (Ws_Echo fd c (send_ws_payload fd full)))
        | Pong c payload \<Rightarrow> return_p (Some (Ws_Pong fd c (send_new fd (build_websocket_frame 0xA payload))))
        | Close \<Rightarrow> bind_p (unregister_fd K fd) (\<lambda>_. bind_p (close K fd) (\<lambda>_. return_p None))) s = Inr (st, t) \<and>
      talking fd inbox tail past goal st t \<and> within inbox e st t"
proof (cases act)
  case (Skip c')
  then show ?thesis
    using skip[of c'] conn[of c'] within_mono[of inbox "effort inbox c' s" _ _ e] by auto
next
  case (Echo c' full)
  let ?st = "Ws_Echo fd c' (send_ws_payload fd full)"
  have "pending_ok fd past us ?st [Payload (ws_payload_frame full), Control PING] s"
    using spoken_starts(1)[OF said, of full] by (simp add: send_ws_payload_def Let_def)
  then have "talking fd inbox tail past goal (Some ?st) s"
    using conn[of c'] assms(2) Echo by (auto simp: after_frame_def)
  then show ?thesis using Echo conn[of c'] by auto
next
  case (Pong c' payload)
  let ?b = "build_websocket_frame 0xA payload"
  let ?st = "Ws_Pong fd c' (send_new fd ?b)"
  have "pending_ok fd past us ?st [Control ?b] s"
    using spoken_starts(2)[OF said frame_nonempty] by (simp add: send_new_def)
  then have "talking fd inbox tail past goal (Some ?st) s"
    using conn[of c'] assms(2) Pong by (auto simp: after_frame_def)
  then show ?thesis using Pong conn[of c'] by auto
next
  case Close
  obtain t where t: "bind_p (unregister_fd K fd) (\<lambda>_. bind_p (close K fd) (\<lambda>_. return_p None)) s = Inr (None :: ws_state option, t)"
    "chat fd inbox t = chat fd inbox s"
    by (rule close_talks[OF assms(1)])
  then show ?thesis using Close assms(2) spoken_chat[OF t(2) said] by (auto simp: after_frame_def)
qed

lemma frame_loop_talks:
  assumes "undisturbed K fd inbox" and "to_come inbox tail c rs s" and "length (buf_acc c) < n"
    and "goal = us @ answers (open_msg c) (map ws_view rs)" and said: "spoken fd past us [] (calls s)"
  shows "\<exists>st t. frame_loop K n fd c s = Inr (st, t) \<and> talking fd inbox tail past goal st t \<and>
    within inbox (effort inbox c s) st t"
  using assms(2-4)
proof (induction n arbitrary: c rs)
  case (Suc n)
  note tc = Suc.prems(1)[unfolded to_come_def]
  from parse_stream[of rs tail] tc consider
    (more) "parse_websocket_frame (buf_acc c) = Inr None" |
    (frame) f rs' where "rs = f # rs'" "buf_acc c = wire f @ drop (length (wire f)) (buf_acc c)"
      "parse_websocket_frame (buf_acc c) = Inr (Some (of_nat (length (wire f)), ws_view f))"
      "unat (of_nat (length (wire f)) :: usize) = length (wire f)" by blast
  then show ?case
  proof cases
    case more
    have "pending_ok fd past us (Ws_Recv fd c (recv_new fd 4096)) [] s"
      using more said by (simp add: recv_new_def vec_with_len_def)
    then have "talking fd inbox tail past goal (Some (Ws_Recv fd c (recv_new fd 4096))) s"
      using Suc.prems by (simp only: talking.simps conn_of.simps) (metis append_Nil)
    then show ?thesis using more by (auto simp: effort_def)
  next
    case frame
    let ?c = "c\<lparr>buf_acc := drop (length (wire f)) (buf_acc c)\<rparr>"
    let ?act = "handle_frame ?c (f_fin f) (of_nat (f_opcode f)) (f_payload f)"
    have f: "2 \<le> length (wire f)" using tc frame(1) wire_length_ge2[of f] by auto
    have len: "length (wire f) + length (buf_acc ?c) = length (buf_acc c)"
      using arg_cong[OF frame(2), of length] by simp
    have c: "conn_ok ?c" using tc by (simp add: conn_ok_def)
    have "wire f @ concat (map wire rs') @ tail = wire f @ buf_acc ?c @ inbox (kst s)"
      using tc frame(1) arg_cong[OF frame(2), of "\<lambda>b. b @ inbox (kst s)"] by simp
    then have rest: "concat (map wire rs') @ tail = buf_acc ?c @ inbox (kst s)" by simp
    have goal: "goal = us @ after_frame (map ws_view rs') ?act"
      using Suc.prems(3) handle_frame_answers[OF c] by (simp add: frame(1) ws_view_def[of f])
    have tc': "to_come inbox tail c' rs' s \<and> effort inbox c' s + 6 \<le> effort inbox c s" if "conn_after ?act = Some c'" for c'
      using handle_frame_conn[OF c that] rest tc frame(1) f len by (auto simp: to_come_def effort_def)
    have "\<exists>st t. frame_loop K n fd c' s = Inr (st, t) \<and> talking fd inbox tail past goal st t \<and> within inbox (effort inbox c' s) st t"
      if "?act = Skip c'" for c'
      using that tc'[of c'] goal handle_frame_conn[OF c, of "f_fin f" "of_nat (f_opcode f)" "f_payload f" c'] len f Suc.prems(2)
      by (intro Suc.IH[of c' rs']) (auto simp: after_frame_def)
    from act_talks[where go = "frame_loop K n fd", OF assms(1) goal said tc' this] frame(3,4) show ?thesis
      by (simp add: ws_view_def)
  qed
qed simp

section \<open>One await\<close>

lemma sint_le_0: "sint (r :: i64) \<le> 0 \<Longrightarrow> (if neg r then [] else take (unat r) xs) = []"
  by (metis less_le sint_0 signed_eq_0_iff take_0 unat_0)

lemma poll_ws_send_talks:
  assumes "stream_socket K fd inbox" and "sending fd past us w s"
  shows "(\<exists>w' t. poll_ws_send K w cx s = Inr (Pending w', t) \<and> sending fd past us w' t \<and>
        ws_out w' = ws_out w \<and> inbox (kst t) = inbox (kst s)) \<or>
    (\<exists>t. poll_ws_send K w cx s = Inr (Ready (), t) \<and> spoken fd past (us @ [Payload (ws_out w)]) [] (calls t) \<and>
        inbox (kst t) = inbox (kst s))"
proof -
  obtain base where w: "ws_fd w = fd" "ws_sending base w s" "spoken fd past us (take (ws_off w) (ws_out w)) (calls s)"
    using assms(2) by (auto simp: sending_def)
  note keep = keepsD[OF keeps_inbox_ws_send[OF stream_socketD(1)[OF assms(1)]], of w cx s]
  have now: "delivered fd (calls s) = base @ take (ws_off w) (ws_out w)" using w(1,2) by (simp add: ws_sending_def)
  from ws_send_loop_spec[OF stream_socketD(2)[OF assms(1)] w(2), of "length (ws_out w) - ws_off w" cx]
  consider (wait) w' t where "poll_ws_send K w cx s = Inr (Pending w', t)" "ws_sending base w' t"
      "ws_fd w' = fd" "ws_out w' = ws_out w"
    | (over) k t where "poll_ws_send K w cx s = Inr (Ready (), t)" "delivered fd (calls t) = base @ take k (ws_out w)"
      "k = length (ws_out w) \<or> send_failed K fd (ev_ret (last (calls t))) \<and> answered fd [last (calls t)] (ws_out w) k (ev_ret (last (calls t)))"
    unfolding poll_ws_send_def w(1) by blast
  then show ?thesis
  proof cases
    case wait
    obtain evs where evs: "calls t = calls s @ evs" using ws_send_log[OF wait(1)] by blast
    have "take (ws_off w) (ws_out w) @ delivered fd evs = take (ws_off w') (ws_out w')"
      using now wait(2,3) evs by (simp add: ws_sending_def)
    then have "sending fd past us w' t"
      using wait(2,3) spoken_grows[OF w(3) evs] by (auto simp: sending_def)
    with wait keep[OF wait(1)] show ?thesis by blast
  next
    case over
    let ?r = "ev_ret (last (calls t))"
    obtain evs where evs: "calls t = calls s @ evs" "evs \<noteq> []" using ws_send_log[OF over(1)] by blast
    have now': "take (ws_off w) (ws_out w) @ delivered fd evs = take k (ws_out w)" using now over(2) evs(1) by simp
    have "uttered fd (talk fd evs) (Payload (ws_out w)) (take k (ws_out w))"
    proof (cases "k = length (ws_out w)")
      case False
      with over(3) have r: "sint ?r \<le> 0" "answered fd [last (calls t)] (ws_out w) k ?r" by (auto simp: send_failed_def)
      have "answered fd (talk fd evs) (ws_out w) k ?r" by (rule answered_talk[OF r(2)]) (use evs in simp)
      moreover have "take k (ws_out w) = take k (ws_out w) @ (if neg ?r then [] else take (unat ?r) (drop k (ws_out w)))"
        unfolding sint_le_0[OF r(1)] by (rule append_Nil2[symmetric])
      ultimately show ?thesis
        using r(1) unfolding uttered_def bytes_of.simps utterance.case by blast
    qed (simp add: uttered_def)
    then have "spoken fd past (us @ [Payload (ws_out w)]) [] (calls t)"
      by (intro spoken_utters[OF w(3) evs(1)]) (simp add: now')
    with over(1) keep[OF over(1)] show ?thesis by blast
  qed
qed

lemma poll_send_talks:
  assumes "stream_socket K fd inbox" and once: "sending_once fd past us b off f s"
    and u: "u = Response b \<or> u = Control b \<and> off = 0"
  shows "(\<exists>f' t. poll_send K f cx s = Inr (Pending f', t) \<and> sending_once fd past us b off f' t \<and> sf_buf f' = sf_buf f \<and>
        inbox (kst t) = inbox (kst s)) \<or>
    (\<exists>r t. poll_send K f cx s = Inr (Ready r, t) \<and> spoken fd past (us @ [u]) [] (calls t) \<and> inbox (kst t) = inbox (kst s))"
proof -
  have f: "sf_fd f = fd" "off < length b" "sf_buf f = drop off b" and sp: "spoken fd past us (take off b) (calls s)"
    using once by (auto simp: sending_once_def)
  obtain r t where rt: "delivered (sf_fd f) (calls t) = delivered (sf_fd f) (calls s) @ (if neg r then [] else take (unat r) (sf_buf f))"
    "ev_ret (last (calls t)) = r"
    "poll_send K f cx s = Inr (if r = -11 then Pending (f\<lparr>sf_registered := True\<rparr>) else Ready r, t)"
    by (rule poll_send_effect[OF stream_socketD(2)[OF assms(1)], of f s cx])
  have keep: "inbox (kst t) = inbox (kst s)"
    using keepsD[OF keeps_inbox_send(2)[OF stream_socketD(1)[OF assms(1)]] rt(3)] .
  obtain ev where ev: "calls t = calls s @ [ev]" using poll_send_log[OF rt(3)] by blast
  have now: "delivered fd [ev] = (if neg r then [] else take (unat r) (drop off b))" using rt(1) ev f by simp
  show ?thesis
  proof (cases "r = -11")
    case True
    then have "sending_once fd past us b off (f\<lparr>sf_registered := True\<rparr>) t"
      using spoken_grows[OF sp ev] f now by (simp add: sending_once_def)
    with True rt(3) keep show ?thesis by simp
  next
    case False
    have "answered fd [last (calls t)] b off r"
      using poll_send_answered[OF rt(3) f(3,2)] False by (simp add: rt(2) f(1))
    then have "answered fd (talk fd [ev]) b off r" by (rule answered_talk) (simp add: ev)
    then have "uttered fd (talk fd [ev]) u (take off b @ delivered fd [ev])"
      unfolding uttered_def now using u by (intro disjI2 exI[of _ off] exI[of _ r]) auto
    from spoken_utters[OF sp ev this] False rt(3) keep show ?thesis by simp
  qed
qed

lemma length_fill_buf [simp]: "length (fill_buf buf out) = length buf"
  by (auto simp: fill_buf_def split: sysout.splits)

lemma socket_recv:
  assumes "stream_socket K fd inbox" and "0 < n" and "K 45 (reg_i32 fd # PtrBuf n # rest) w = (r, out, w')"
  shows "neg r \<and> inbox w' = inbox w \<or> r = 0 \<and> inbox w = [] \<and> inbox w' = [] \<or>
    (\<exists>bs. out = OutBytes bs \<and> bs \<noteq> [] \<and> length bs \<le> n \<and> r = of_nat (length bs) \<and> inbox w = bs @ inbox w')"
  using assms(1)[unfolded stream_socket_def, THEN conjunct2, THEN conjunct2, rule_format, OF conjI[OF assms(2,3)]] .

lemma poll_recv_talks:
  assumes "stream_socket K fd inbox" and "rf_fd f = fd" and "0 < length (rf_buf f)" and "length (rf_buf f) < 2 ^ 63"
    and said: "spoken fd past us [] (calls s)"
  shows "(\<exists>f' t. poll_recv K f cx s = Inr (Pending f', t) \<and> rf_fd f' = fd \<and> length (rf_buf f') = length (rf_buf f) \<and>
        spoken fd past us [] (calls t) \<and> inbox (kst t) = inbox (kst s)) \<or>
    (\<exists>bs t. poll_recv K f cx s = Inr (Ready bs, t) \<and> spoken fd past us [] (calls t) \<and> inbox (kst s) = bs @ inbox (kst t) \<and>
        (bs = [] \<longrightarrow> inbox (kst t) = [] \<or> recv_failed fd past (calls t)))"
proof -
  let ?args = "[reg_i32 fd, PtrBuf (length (rf_buf f)), reg_len (length (rf_buf f)), reg_i32 0, PtrNull, PtrNull]"
  obtain r out w where K: "K 45 ?args (kst s) = (r, out, w)" by (metis prod_cases3)
  let ?t = "s\<lparr>kst := w, calls := calls s @ [\<lparr>ev_nr = 45, ev_args = ?args, ev_ret = r\<rparr>]\<rparr>"
  have call: "recvfrom K (rf_fd f) (rf_buf f) 0 PtrNull PtrNull s = Inr ((r, fill_buf (rf_buf f) out), ?t)"
    using K assms(2) by (simp add: recvfrom_def raw_syscalls do_syscall_def bind_p_def)
  have del: "spoken fd past us [] (calls ?t)"
    using spoken_grows[OF said, of ?t "[\<lparr>ev_nr = 45, ev_args = ?args, ev_ret = r\<rparr>]"] by (simp add: delivered_def sent_by_def)
  from socket_recv[OF assms(1,3) K] consider (again) "r = -11" "inbox w = inbox (kst s)" |
    (failed) "neg r" "r \<noteq> -11" "inbox w = inbox (kst s)" | (shut) "r = 0" "inbox (kst s) = []" "inbox w = []" |
    (got) bs where "out = OutBytes bs" "bs \<noteq> []" "length bs \<le> length (rf_buf f)" "r = of_nat (length bs)" "inbox (kst s) = bs @ inbox w"
    by blast
  then show ?thesis
  proof cases
    case again
    then have "poll_recv K f cx s = Inr (Pending (f\<lparr>rf_buf := fill_buf (rf_buf f) out, rf_registered := True\<rparr>),
        ?t\<lparr>io_reg := registers (rf_registered f) (rf_fd f) 0x0001 cx (io_reg s)\<rparr>)"
      using call by (simp add: poll_recv_def register_fd_waker_def clone_waker_def registers_def)
    then show ?thesis using again del assms(2) by auto
  next
    case failed
    then have "poll_recv K f cx s = Inr (Ready [], ?t)" using call by (simp add: poll_recv_def set_vec_len_def)
    moreover obtain new where "talk fd (calls s) = past @ new" using said by (auto simp: spoken_def)
    then have "recv_failed fd past (calls ?t)"
      using failed(1,2) unfolding recv_failed_def by (intro exI[of _ "new @ talk fd [\<lparr>ev_nr = 45, ev_args = ?args, ev_ret = r\<rparr>]"]) (simp add: talk_def)
    ultimately show ?thesis using failed(3) del by (intro disjI2 exI[of _ "[]"] exI[of _ ?t]) simp
  next
    case shut
    then have "poll_recv K f cx s = Inr (Ready [], ?t)" using call by (simp add: poll_recv_def set_vec_len_def)
    then show ?thesis using shut del by (intro disjI2 exI[of _ "[]"] exI[of _ ?t]) simp
  next
    case got
    have len: "length bs < 2 ^ 63" using got(3) assms(4) by simp
    have "sint r = int (length bs)"
      using len by (simp add: got(4) sint_uint uint_nat unat_of_nat_small signed_take_bit_int_eq_self)
    moreover have "unat r = length bs" using len by (simp add: got(4) unat_of_nat_small)
    ultimately have "poll_recv K f cx s = Inr (Ready bs, ?t)"
      using got(1-3) call by (simp add: poll_recv_def set_vec_len_def fill_buf_def)
    then show ?thesis using got del by (intro disjI2 exI[of _ bs] exI[of _ ?t]) simp
  qed
qed


lemma ws_received_talks:
  assumes "undisturbed K fd inbox" and "bs \<noteq> []" and "to_come inbox tail (c\<lparr>buf_acc := buf_acc c @ bs\<rparr>) rs s"
    and "goal = us @ answers (open_msg c) (map ws_view rs)" and "spoken fd past us [] (calls s)"
  shows "\<exists>st t. ws_received K fd c bs s = Inr (st, t) \<and> talking fd inbox tail past goal st t \<and>
    within inbox (effort inbox (c\<lparr>buf_acc := buf_acc c @ bs\<rparr>) s) st t"
proof -
  note q = quiet_chat[OF assms(1)]
  let ?c = "c\<lparr>buf_acc := buf_acc c @ bs\<rparr>"
  obtain a u where u: "log_line K ''[WS] fd='' fd '' recv '' s = Inr (a, u)" "chat fd inbox u = chat fd inbox s"
    by (rule quietE[OF q(3)])
  obtain b v where v: "log_usize K (of_nat (length bs)) u = Inr (b, v)" "chat fd inbox v = chat fd inbox u"
    by (rule quietE[OF q(2)])
  obtain d w where w: "log_write K (str '' bytes\<newline>'') v = Inr (d, w)" "chat fd inbox w = chat fd inbox v"
    by (rule quietE[OF q(1)])
  have chat: "chat fd inbox w = chat fd inbox s" using u(2) v(2) w(2) by simp
  have run: "ws_received K fd c bs s = next_frames K fd ?c w"
    using u(1) v(1) w(1) assms(2) by (simp add: ws_received_def)
  have "to_come inbox tail ?c rs w" using assms(3) chatD(2)[OF chat] by (simp add: to_come_def)
  from frame_loop_talks[OF assms(1) this, of "length (buf_acc ?c) + 1" goal us] assms(4) spoken_chat[OF chat assms(5)] chatD(2)[OF chat]
  show ?thesis unfolding run next_frames_def by (simp add: effort_def)
qed

text \<open>An empty receive ends the connection: the stream is used up, or the receive has failed.\<close>

lemma ws_received_over:
  assumes "undisturbed K fd inbox" and "goal = us @ vs" and "spoken fd past us [] (calls s)" and "vs = [] \<or> recv_failed fd past (calls s)"
  shows "\<exists>t. ws_received K fd c [] s = Inr (None, t) \<and> talking fd inbox tail past goal None t"
proof -
  obtain a u where u: "log_line K ''[WS] fd='' fd '' client disconnected\<newline>'' s = Inr (a, u)" "chat fd inbox u = chat fd inbox s"
    by (rule quietE[OF quiet_chat(3)[OF assms(1)]])
  obtain t where t: "bind_p (unregister_fd K fd) (\<lambda>_. bind_p (close K fd) (\<lambda>_. return_p None)) u = Inr (None :: ws_state option, t)"
    "chat fd inbox t = chat fd inbox u"
    by (rule close_talks[OF assms(1)])
  have chat: "chat fd inbox t = chat fd inbox s" using u(2) t(2) by simp
  have "talking fd inbox tail past goal None t"
    using assms(2,4) spoken_chat[OF chat assms(3)] recv_failed_chat[OF chat] by auto
  with u(1) t(1) show ?thesis by (auto simp: ws_received_def)
qed

text \<open>
  A step stays on course when it is pending or goes on to a state of the same conversation; one that
  goes on leaves less to do.
\<close>

definition on_course :: "i32 \<Rightarrow> ('w \<Rightarrow> bytes) \<Rightarrow> bytes \<Rightarrow> sysevent list \<Rightarrow> utterance list \<Rightarrow> nat \<Rightarrow>
    (fault \<times> ('w, 'z) machine_scheme) + ((ws_state option, ws_state) poll \<times> ('w, 'z) machine_scheme) \<Rightarrow> bool" where
  "on_course fd inbox tail past goal todo r \<longleftrightarrow>
     (\<exists>st t. r = Inr (Pending st, t) \<and> talking fd inbox tail past goal (Some st) t) \<or>
     (\<exists>st t n. r = Inr (Ready st, t) \<and> talking fd inbox tail past goal st t \<and> n < todo \<and> within inbox n st t)"

lemma on_course_pending: "m s = Inr (Pending f, t) \<Longrightarrow> talking fd inbox tail past goal (Some (wrap f)) t \<Longrightarrow>
    on_course fd inbox tail past goal todo (lift_poll wrap m k s)"
  by (auto simp: on_course_def lift_poll_def simp del: talking.simps)

lemma on_course_ready: "m s = Inr (Ready out, t) \<Longrightarrow>
    \<exists>st u. k out t = Inr (st, u) \<and> talking fd inbox tail past goal st u \<and> within inbox n st u \<Longrightarrow> n < todo \<Longrightarrow>
    on_course fd inbox tail past goal todo (lift_poll wrap m k s)"
  by (auto simp: on_course_def lift_poll_def simp del: talking.simps)

lemma talkingI:
  assumes "to_come inbox tail (conn_of st) rs s" and "pending_ok fd past us st out s"
    and "goal = us @ out @ answers (open_msg (conn_of st)) (map ws_view rs)"
  shows "talking fd inbox tail past goal (Some st) s"
  using assms by (simp only: talking.simps) blast

lemma to_come_inbox: "to_come inbox tail c rs s \<Longrightarrow> inbox (kst t) = inbox (kst s) \<Longrightarrow> to_come inbox tail c rs t"
  by (simp add: to_come_def)

lemma effort_inbox: "inbox (kst t) = inbox (kst s) \<Longrightarrow> effort inbox c t = effort inbox c s"
  by (simp add: effort_def)

text \<open>A payload being past: the state stays or goes on to the next.\<close>

lemma sending_on_course:
  fixes s :: "('w, 'z) io_machine_scheme"
  assumes "stream_socket K fd inbox" and "sending fd past us w s"
    and pending: "\<And>w' (t :: ('w, 'z) io_machine_scheme). sending fd past us w' t \<Longrightarrow> ws_out w' = ws_out w \<Longrightarrow>
      inbox (kst t) = inbox (kst s) \<Longrightarrow> talking fd inbox tail past goal (Some (wrap w')) t"
    and ready: "\<And>t :: ('w, 'z) io_machine_scheme. spoken fd past (us @ [Payload (ws_out w)]) [] (calls t) \<Longrightarrow> inbox (kst t) = inbox (kst s) \<Longrightarrow>
      talking fd inbox tail past goal (Some st') t \<and> within inbox n (Some st') t"
    and "n < todo"
  shows "on_course fd inbox tail past goal todo (lift_poll wrap (poll_ws_send K w cx) (\<lambda>_. return_p (Some st')) s)"
  using poll_ws_send_talks[OF assms(1,2), of cx]
proof (elim disjE exE conjE)
  fix w' t assume "poll_ws_send K w cx s = Inr (Pending w', t)" "sending fd past us w' t"
    "ws_out w' = ws_out w" "inbox (kst t) = inbox (kst s)"
  then show ?thesis by (intro on_course_pending pending)
next
  fix t assume "poll_ws_send K w cx s = Inr (Ready (), t)" "spoken fd past (us @ [Payload (ws_out w)]) [] (calls t)"
    "inbox (kst t) = inbox (kst s)"
  with ready[of t] assms(5) show ?thesis by (intro on_course_ready) (auto simp del: talking.simps)
qed

text \<open>A response, ping or pong being past, after which the task goes on with \<open>k\<close>.\<close>

lemma once_on_course:
  fixes s :: "('w, 'z) io_machine_scheme"
  assumes "stream_socket K fd inbox" and "sending_once fd past us b off f s"
    and "u = Response b \<or> u = Control b \<and> off = 0"
    and pending: "\<And>f' (t :: ('w, 'z) io_machine_scheme). sending_once fd past us b off f' t \<Longrightarrow> sf_buf f' = sf_buf f \<Longrightarrow>
      inbox (kst t) = inbox (kst s) \<Longrightarrow> talking fd inbox tail past goal (Some (wrap f')) t"
    and ready: "\<And>t :: ('w, 'z) io_machine_scheme. spoken fd past (us @ [u]) [] (calls t) \<Longrightarrow> inbox (kst t) = inbox (kst s) \<Longrightarrow>
      \<exists>st v. k t = Inr (st, v) \<and> talking fd inbox tail past goal st v \<and> within inbox n st v"
    and "n < todo"
  shows "on_course fd inbox tail past goal todo (lift_poll wrap (poll_send K f cx) (\<lambda>_. k) s)"
  using poll_send_talks[OF assms(1-3), of cx]
proof (elim disjE exE conjE)
  fix f' t assume "poll_send K f cx s = Inr (Pending f', t)" "sending_once fd past us b off f' t"
    "sf_buf f' = sf_buf f" "inbox (kst t) = inbox (kst s)"
  then show ?thesis by (intro on_course_pending pending)
next
  fix r t assume "poll_send K f cx s = Inr (Ready r, t)" "spoken fd past (us @ [u]) [] (calls t)"
    "inbox (kst t) = inbox (kst s)"
  with ready[of t] assms(6) show ?thesis by (intro on_course_ready)
qed

lemma next_frames_talks:
  assumes "stream_socket K fd inbox" and "to_come inbox tail c rs s" and "inbox (kst t) = inbox (kst s)"
    and "goal = us @ answers (open_msg c) (map ws_view rs)" and "spoken fd past us [] (calls t)"
  shows "\<exists>st v. next_frames K fd c t = Inr (st, v) \<and> talking fd inbox tail past goal st v \<and>
    within inbox (effort inbox c s) st v"
  using frame_loop_talks[OF stream_socketD(1)[OF assms(1)] to_come_inbox[OF assms(2,3)], of "length (buf_acc c) + 1" goal us]
    assms(4,5) effort_inbox[OF assms(3)] by (simp add: next_frames_def del: frame_loop.simps)

lemma recv_on_course:
  assumes "stream_socket K fd inbox" and "rf_fd f = fd" and "length (rf_buf f) = 4096" and tc: "to_come inbox tail c rs s"
    and goal: "goal = us @ answers (open_msg c) (map ws_view rs)" and said: "spoken fd past us [] (calls s)"
    and more: "parse_websocket_frame (buf_acc c) = Inr None"
  shows "on_course fd inbox tail past goal (effort inbox c s) (lift_poll (Ws_Recv fd c) (poll_recv K f cx) (ws_received K fd c) s)"
proof -
  note ud = stream_socketD(1)[OF assms(1)]
  have "0 < length (rf_buf f)" "length (rf_buf f) < 2 ^ 63" using assms(3) by simp_all
  from poll_recv_talks[OF assms(1,2) this said, of cx] show ?thesis
  proof (elim disjE exE conjE)
    fix f' t assume t: "poll_recv K f cx s = Inr (Pending f', t)" "rf_fd f' = fd" "length (rf_buf f') = length (rf_buf f)"
      "spoken fd past us [] (calls t)" "inbox (kst t) = inbox (kst s)"
    have "talking fd inbox tail past goal (Some (Ws_Recv fd c f')) t"
      by (rule talkingI[where us = us and out = "[]" and rs = rs])
        (use assms(3) t to_come_inbox[OF tc t(5)] goal more in simp_all)
    with t(1) show ?thesis by (rule on_course_pending)
  next
    fix bs t assume t: "poll_recv K f cx s = Inr (Ready bs, t)" "spoken fd past us [] (calls t)" "inbox (kst s) = bs @ inbox (kst t)"
      "bs = [] \<longrightarrow> inbox (kst t) = [] \<or> recv_failed fd past (calls t)"
    let ?c = "c\<lparr>buf_acc := buf_acc c @ bs\<rparr>"
    show ?thesis
    proof (cases "bs = []")
      case True
      then have "rs = [] \<or> recv_failed fd past (calls t)"
        using t(3,4) stream_done[OF tc more] by auto
      then have "answers (open_msg c) (map ws_view rs) = [] \<or> recv_failed fd past (calls t)" by (auto simp: answers_def)
      from ws_received_over[OF ud goal t(2) this, of c tail] show ?thesis
        using t(1) True by (intro on_course_ready[where n = 0]) (auto simp: effort_def simp del: talking.simps)
    next
      case False
      have "to_come inbox tail ?c rs t" using tc t(3) by (simp add: to_come_def conn_ok_def)
      from ws_received_talks[OF ud False this goal t(2)] show ?thesis
        using False t(1,3) by (intro on_course_ready[where out = bs]) (auto simp: effort_def simp flip: length_greater_0_conv)
    qed
  qed
qed

lemma handshake_on_course:
  assumes sock: "stream_socket K fd inbox" and once: "sending_once fd past us resp off f s" and tc: "to_come inbox tail new_conn rs s"
    and goal: "goal = us @ [Response resp, Payload (ws_payload_frame welcome_text)] @ answers (open_msg new_conn) (map ws_view rs)"
  shows "on_course fd inbox tail past goal (effort inbox new_conn s + 2) (ws_step K (Ws_Handshake fd f) cx s)"
proof -
  let ?greet = "Ws_Welcome fd (send_ws_payload fd welcome_text)" and ?out = "[Payload (ws_payload_frame welcome_text)]"
  have k: "\<exists>st' v. bind_p (handshake_done K fd) (\<lambda>st. return_p (Some st)) t = Inr (st', v) \<and>
      talking fd inbox tail past goal st' v \<and> within inbox (effort inbox new_conn s + 1) st' v"
    if t: "spoken fd past (us @ [Response resp]) [] (calls t)" "inbox (kst t) = inbox (kst s)" for t
  proof -
    obtain v where v: "handshake_done K fd t = Inr (?greet, v)" "chat fd inbox v = chat fd inbox t"
      by (rule handshake_done_spec[OF stream_socketD(1)[OF sock]])
    have in': "inbox (kst v) = inbox (kst s)" using chatD(2)[OF v(2)] t(2) by simp
    have "talking fd inbox tail past goal (Some ?greet) v"
      by (rule talkingI[OF to_come_inbox[OF _ in'], where us = "us @ [Response resp]" and out = ?out])
        (use tc goal spoken_starts(1)[OF spoken_chat[OF v(2) t(1)], of welcome_text] in \<open>simp_all add: send_ws_payload_def Let_def\<close>)
    with v(1) effort_inbox[where c = new_conn, OF in'] show ?thesis by (auto simp del: talking.simps)
  qed
  show ?thesis
    unfolding ws_step.simps
    by (rule once_on_course[OF sock once disjI1[OF refl] _ k])
      (auto simp: goal simp del: talking.simps intro!: to_come_inbox[OF tc]
        talkingI[where rs = rs and us = us and out = "Response resp # ?out"])
qed

lemma welcome_on_course:
  fixes s :: "('w, 'z) io_machine_scheme"
  assumes sock: "stream_socket K fd inbox" and w: "sending fd past us w s" and tc: "to_come inbox tail new_conn rs s"
    and goal: "goal = us @ [Payload (ws_out w)] @ answers (open_msg new_conn) (map ws_view rs)"
  shows "on_course fd inbox tail past goal (effort inbox new_conn s + 1) (ws_step K (Ws_Welcome fd w) cx s)"
  unfolding ws_step.simps
proof (rule sending_on_course[OF sock w, where n = "effort inbox new_conn s"])
  fix w' and t :: "('w, 'z) io_machine_scheme"
  assume t: "sending fd past us w' t" "ws_out w' = ws_out w" "inbox (kst t) = inbox (kst s)"
  show "talking fd inbox tail past goal (Some (Ws_Welcome fd w')) t"
    by (rule talkingI[where us = us and out = "[Payload (ws_out w')]" and rs = rs]) (use t goal to_come_inbox[OF tc t(3)] in simp_all)
next
  let ?recv = "Ws_Recv fd new_conn (recv_new fd 4096)"
  fix t :: "('w, 'z) io_machine_scheme"
  assume t: "spoken fd past (us @ [Payload (ws_out w)]) [] (calls t)" "inbox (kst t) = inbox (kst s)"
  have "parse_websocket_frame (buf_acc new_conn) = Inr None" by (simp add: new_conn_def parse_websocket_frame_def)
  then have "talking fd inbox tail past goal (Some ?recv) t"
    by (intro talkingI[where us = "us @ [Payload (ws_out w)]" and out = "[]" and rs = rs])
      (use t goal to_come_inbox[OF tc t(2)] in \<open>simp_all add: recv_new_def vec_with_len_def\<close>)
  then show "talking fd inbox tail past goal (Some ?recv) t \<and> within inbox (effort inbox new_conn s) (Some ?recv) t"
    using effort_inbox[OF t(2), of new_conn] by (simp del: talking.simps)
qed simp

lemma echo_on_course:
  fixes s :: "('w, 'z) io_machine_scheme"
  assumes sock: "stream_socket K fd inbox" and w: "sending fd past us w s" and tc: "to_come inbox tail c rs s"
    and goal: "goal = us @ [Payload (ws_out w), Control PING] @ answers (open_msg c) (map ws_view rs)"
  shows "on_course fd inbox tail past goal (effort inbox c s + 2) (ws_step K (Ws_Echo fd c w) cx s)"
  unfolding ws_step.simps
proof (rule sending_on_course[OF sock w, where n = "effort inbox c s + 1"])
  fix w' and t :: "('w, 'z) io_machine_scheme"
  assume t: "sending fd past us w' t" "ws_out w' = ws_out w" "inbox (kst t) = inbox (kst s)"
  show "talking fd inbox tail past goal (Some (Ws_Echo fd c w')) t"
    by (rule talkingI[where us = us and out = "[Payload (ws_out w'), Control PING]" and rs = rs])
      (use t goal to_come_inbox[OF tc t(3)] in simp_all)
next
  let ?ping = "Ws_Ping fd c (send_new fd PING)"
  fix t :: "('w, 'z) io_machine_scheme"
  assume t: "spoken fd past (us @ [Payload (ws_out w)]) [] (calls t)" "inbox (kst t) = inbox (kst s)"
  have "talking fd inbox tail past goal (Some ?ping) t"
    by (rule talkingI[where us = "us @ [Payload (ws_out w)]" and out = "[Control PING]" and rs = rs])
      (use t goal to_come_inbox[OF tc t(2)] spoken_starts(2)[OF t(1), of PING] in \<open>simp_all add: PING_def\<close>)
  then show "talking fd inbox tail past goal (Some ?ping) t \<and> within inbox (effort inbox c s + 1) (Some ?ping) t"
    using effort_inbox[OF t(2), of c] by (simp del: talking.simps)
qed simp

text \<open>A ping or pong: the state \<open>wrap f\<close> stays, or the frame loop goes on.\<close>

lemma control_on_course:
  fixes s :: "('w, 'z) io_machine_scheme"
  assumes sock: "stream_socket K fd inbox" and f: "sending_once fd past us b 0 f s" and tc: "to_come inbox tail c rs s"
    and goal: "goal = us @ [Control b] @ answers (open_msg c) (map ws_view rs)"
    and wrap: "\<And>f' (t :: ('w, 'z) io_machine_scheme). sf_buf f' = sf_buf f \<Longrightarrow> sending_once fd past us b 0 f' t \<Longrightarrow>
      pending_ok fd past us (wrap f') [Control b] t \<and> conn_of (wrap f') = c"
  shows "on_course fd inbox tail past goal (effort inbox c s + 1) (lift_poll wrap (poll_send K f cx) (\<lambda>_. next_frames K fd c) s)"
proof (rule once_on_course[OF sock f, where u = "Control b" and n = "effort inbox c s"])
  fix f' and t :: "('w, 'z) io_machine_scheme"
  assume t: "sending_once fd past us b 0 f' t" "sf_buf f' = sf_buf f" "inbox (kst t) = inbox (kst s)"
  show "talking fd inbox tail past goal (Some (wrap f')) t"
    by (rule talkingI[where us = us and out = "[Control b]" and rs = rs]) (use wrap[OF t(2,1)] goal to_come_inbox[OF tc t(3)] in simp_all)
next
  fix t :: "('w, 'z) io_machine_scheme"
  assume "spoken fd past (us @ [Control b]) [] (calls t)" "inbox (kst t) = inbox (kst s)"
  then show "\<exists>st v. next_frames K fd c t = Inr (st, v) \<and> talking fd inbox tail past goal st v \<and> within inbox (effort inbox c s) st v"
    using goal by (intro next_frames_talks[OF sock tc]) simp_all
qed simp_all

lemma ws_step_talks:
  assumes sock: "stream_socket K fd inbox" and "talking fd inbox tail past goal (Some st) s"
  shows "on_course fd inbox tail past goal (effort inbox (conn_of st) s + rank st) (ws_step K st cx s)"
proof -
  obtain rs us out where tc: "to_come inbox tail (conn_of st) rs s" and ok: "pending_ok fd past us st out s"
    and goal: "goal = us @ out @ answers (open_msg (conn_of st)) (map ws_view rs)"
    using assms(2) by auto
  show ?thesis
  proof (cases st)
    case (Ws_Handshake fd' f)
    then obtain resp off where r: "fd' = fd" "out = [Response resp, Payload (ws_payload_frame welcome_text)]"
      "sending_once fd past us resp off f s" using ok by auto
    show ?thesis
      unfolding Ws_Handshake r(1) conn_of.simps rank.simps
      by (rule handshake_on_course[OF sock r(3) tc[unfolded Ws_Handshake conn_of.simps]])
        (simp only: goal r Ws_Handshake conn_of.simps)
  next
    case (Ws_Welcome fd' w)
    with ok have w: "fd' = fd" "out = [Payload (ws_out w)]" "sending fd past us w s" by simp_all
    show ?thesis
      unfolding Ws_Welcome w(1) conn_of.simps rank.simps
      by (rule welcome_on_course[OF sock w(3) tc[unfolded Ws_Welcome conn_of.simps]])
        (simp only: goal w Ws_Welcome conn_of.simps)
  next
    case (Ws_Echo fd' c w)
    with ok have w: "fd' = fd" "out = [Payload (ws_out w), Control PING]" "sending fd past us w s" by simp_all
    show ?thesis
      unfolding Ws_Echo w(1) conn_of.simps rank.simps
      by (rule echo_on_course[OF sock w(3) tc[unfolded Ws_Echo conn_of.simps]]) (simp only: goal w Ws_Echo conn_of.simps)
  next
    case (Ws_Recv fd' c f)
    then show ?thesis using recv_on_course[OF sock, of f tail c rs s goal us past cx] tc goal ok by simp
  next
    case (Ws_Ping fd' c f)
    then show ?thesis
      using ok goal control_on_course[OF sock _ tc, of past us PING f goal "Ws_Ping fd c" cx] by simp
  next
    case (Ws_Pong fd' c f)
    then show ?thesis
      using ok goal control_on_course[OF sock _ tc, of past us "sf_buf f" f goal "Ws_Pong fd c" cx] by simp
  qed
qed

section \<open>The connection among other tasks\<close>

text \<open>
  The connection's awaits interleaved with everything else that happens: other tasks and the
  readiness loop may change the machine in any way that neither sends on the descriptor nor
  receives from it.
\<close>

inductive session_step :: "'w kernel \<Rightarrow> i32 \<Rightarrow> ('w \<Rightarrow> bytes) \<Rightarrow>
    ws_state option \<times> ('w, 'z) io_machine_scheme \<Rightarrow> ws_state option \<times> ('w, 'z) io_machine_scheme \<Rightarrow> bool"
  for K fd inbox where
  waits: "ws_step K st cx s = Inr (Pending st', t) \<Longrightarrow> session_step K fd inbox (Some st, s) (Some st', t)"
| goes_on: "ws_step K st cx s = Inr (Ready st', t) \<Longrightarrow> session_step K fd inbox (Some st, s) (st', t)"
| others: "chat fd inbox t = chat fd inbox s \<Longrightarrow> session_step K fd inbox (st, s) (st, t)"

definition session_inv :: "'w kernel \<Rightarrow> i32 \<Rightarrow> ('w \<Rightarrow> bytes) \<Rightarrow> bytes \<Rightarrow> sysevent list \<Rightarrow> utterance list \<Rightarrow>
    ws_state option \<times> ('w, 'z) io_machine_scheme \<Rightarrow> bool" where
  "session_inv K fd inbox tail past goal p \<longleftrightarrow>
     stream_socket K fd inbox \<and> talking fd inbox tail past goal (fst p) (snd p)"

text \<open>
  A connection starts as \<open>accept_and_run\<close> has left it at its first await, called with a request that has a
  key: \<open>past\<close> are the sends and receives on the descriptor before, the frames \<open>fs\<close> and an unfinished one are
  under way. Everything it will say is then determined.
\<close>

definition session_init :: "'w kernel \<Rightarrow> i32 \<Rightarrow> ('w \<Rightarrow> bytes) \<Rightarrow> bytes \<Rightarrow> bytes \<Rightarrow> ws_frame list \<Rightarrow> bytes \<Rightarrow> sysevent list \<Rightarrow>
    ws_state option \<times> ('w, 'z) io_machine_scheme \<Rightarrow> bool" where
  "session_init K fd inbox request key fs tail past p \<longleftrightarrow>
     stream_socket K fd inbox \<and> find_header_value request ''Sec-WebSocket-Key'' = Inr (Some key) \<and>
     (\<forall>f \<in> set fs. valid_frame f) \<and> parse_websocket_frame tail = Inr None \<and>
     (\<exists>s. ws_start K fd request s = Inr p \<and> talk fd (calls s) = past \<and> inbox (kst s) = concat (map wire fs) @ tail)"

lemma spoken_start:
  assumes "talk fd (calls s) = past" and "logs P s t" and "delivered fd (calls t) = delivered fd (calls s) @ part"
  shows "spoken fd past [] part (calls t)"
proof -
  obtain evs where evs: "calls t = calls s @ evs" using assms(2) by (auto simp: logs_def)
  have "spoken fd past [] [] (calls s)" using assms(1) by (simp add: spoken_def)
  from spoken_grows[OF this evs] show ?thesis using assms(3) evs by simp
qed

lemma spoken_response:
  assumes "spoken fd past [] resp evs"
  shows "spoken fd past [Response resp] [] evs"
proof -
  obtain seg where "talk fd evs = past @ seg" "delivered fd seg = resp" using assms by (auto simp: spoken_def)
  then show ?thesis
    unfolding spoken_def by (intro exI[of _ "[seg]"] exI[of _ "[]"]) (simp add: uttered_def)
qed

lemma session_init_inv:
  assumes "session_init K fd inbox request key fs tail past p"
  shows "session_inv K fd inbox tail past (conversation key fs) p"
proof -
  let ?resp = "handshake_response (b64_ref (sha1_standard (trim_end (trim_start key) @ WS_GUID)))"
  let ?hello = "[Payload (ws_payload_frame welcome_text)]" and ?as = "answers (open_msg new_conn) (map ws_view fs)"
  obtain s where sock: "stream_socket K fd inbox" and key: "find_header_value request ''Sec-WebSocket-Key'' = Inr (Some key)"
    and p: "ws_start K fd request s = Inr p" "talk fd (calls s) = past" "inbox (kst s) = concat (map wire fs) @ tail"
    and fs: "\<forall>f \<in> set fs. valid_frame f" "parse_websocket_frame tail = Inr None"
    using assms by (auto simp: session_init_def)
  have goal: "conversation key fs = [Response ?resp] @ ?hello @ ?as"
    by (simp add: conversation_def ws_payload_frame_eq open_msg_def new_conn_def)
  from handshake_start[OF stream_socketD(2,1)[OF sock] key refl, of s] obtain t where
    t: "inbox (kst t) = inbox (kst s)" "logs (\<lambda>_. True) s t" and
    cases: "p = (Some (Ws_Welcome fd (send_ws_payload fd welcome_text)), t) \<and> delivered fd (calls t) = delivered fd (calls s) @ ?resp \<or>
      (\<exists>off < length ?resp. p = (Some (Ws_Handshake fd (send_new fd (drop off ?resp))), t) \<and>
        delivered fd (calls t) = delivered fd (calls s) @ take off ?resp)"
    unfolding p(1) by auto
  have tc: "to_come inbox tail new_conn fs t"
    using fs p(3) t(1) by (simp add: to_come_def conn_ok_def new_conn_def)
  from cases have "talking fd inbox tail past (conversation key fs) (fst p) (snd p)"
  proof (elim disjE exE conjE)
    assume w: "p = (Some (Ws_Welcome fd (send_ws_payload fd welcome_text)), t)" "delivered fd (calls t) = delivered fd (calls s) @ ?resp"
    from spoken_starts(1)[OF spoken_response[OF spoken_start[OF p(2) t(2) w(2)]], of welcome_text] show ?thesis
      unfolding w(1) fst_conv snd_conv
      by (intro talkingI[where us = "[Response ?resp]" and out = ?hello and rs = fs])
        (use tc goal in \<open>simp_all add: send_ws_payload_def Let_def\<close>)
  next
    fix off assume w: "off < length ?resp" "p = (Some (Ws_Handshake fd (send_new fd (drop off ?resp))), t)"
      "delivered fd (calls t) = delivered fd (calls s) @ take off ?resp"
    have "sending_once fd past [] ?resp off (send_new fd (drop off ?resp)) t"
      using spoken_start[OF p(2) t(2) w(3)] w(1) by (simp add: sending_once_def send_new_def)
    then show ?thesis
      unfolding w(2) fst_conv snd_conv
      by (intro talkingI[where us = "[]" and out = "Response ?resp # ?hello" and rs = fs])
        (use tc goal in \<open>simp_all, blast\<close>)
  qed
  with sock show ?thesis by (simp add: session_inv_def)
qed

lemma session_inv_step:
  assumes "session_step K fd inbox p q" and "session_inv K fd inbox tail past goal p"
  shows "session_inv K fd inbox tail past goal q"
  using assms
proof (induction rule: session_step.induct)
  case (waits st cx s st' t)
  then show ?case
    using ws_step_talks[of K fd inbox tail past goal st s cx] by (auto simp: session_inv_def on_course_def simp del: talking.simps)
next
  case (goes_on st cx s st' t)
  then show ?case
    using ws_step_talks[of K fd inbox tail past goal st s cx] by (auto simp: session_inv_def on_course_def simp del: talking.simps)
next
  case (others t s st)
  then show ?case using talking_chat by (auto simp: session_inv_def simp del: talking.simps)
qed

interpretation session: safe_system "session_init K fd inbox request key fs tail past" "session_step K fd inbox"
    "session_inv K fd inbox tail past (conversation key fs)"
  for K fd inbox request key fs tail past
  by unfold_locales (auto intro: session_init_inv session_inv_step)

text \<open>Nothing but the goal is ever said; all of it once the input is used up.\<close>

lemma talking_spoken:
  assumes "talking fd inbox tail past goal st s"
  shows "\<exists>us vs part. goal = us @ vs \<and> spoken fd past us part (calls s) \<and>
    (part = [] \<or> (\<exists>v vs'. vs = v # vs' \<and> strict_prefix part (bytes_of v))) \<and>
    (st = None \<longrightarrow> part = [] \<and> (vs = [] \<or> recv_failed fd past (calls s))) \<and>
    ((\<exists>c f. st = Some (Ws_Recv fd c f)) \<longrightarrow> inbox (kst s) = [] \<longrightarrow> part = [] \<and> vs = [])"
proof (cases st)
  case None
  with assms obtain us vs where "goal = us @ vs" "spoken fd past us [] (calls s)" "vs = [] \<or> recv_failed fd past (calls s)" by auto
  with None show ?thesis by (intro exI[of _ us] exI[of _ vs] exI[of _ "[]"]) simp
next
  case (Some st')
  with assms obtain rs us out where tc: "to_come inbox tail (conn_of st') rs s" and ok: "pending_ok fd past us st' out s"
    and goal: "goal = us @ out @ answers (open_msg (conn_of st')) (map ws_view rs)" by auto
  have cut: "strict_prefix (take n b) b" if "n < length b" for n and b :: bytes
    using that by (metis append_take_drop_id drop_eq_Nil not_le prefixI prefix_order.less_le self_append_conv)
  have "\<exists>part. spoken fd past us part (calls s) \<and> (part = [] \<or> (\<exists>v vs'. out = v # vs' \<and> strict_prefix part (bytes_of v)))"
    using ok cut by (cases st') (auto simp: sending_def sending_once_def ws_sending_def)
  then obtain part where part: "spoken fd past us part (calls s)" "part = [] \<or> (\<exists>v vs'. out = v # vs' \<and> strict_prefix part (bytes_of v))" by blast
  show ?thesis
  proof (cases "(\<exists>c f. st' = Ws_Recv fd c f) \<and> inbox (kst s) = []")
    case True
    then obtain c where c: "conn_of st' = c" "out = []" "parse_websocket_frame (buf_acc c) = Inr None" "spoken fd past us [] (calls s)"
      using ok by auto
    have "rs = []" using stream_done[OF tc[unfolded c(1)] c(3)] True by blast
    with c goal Some show ?thesis
      by (intro exI[of _ us] exI[of _ "[]"]) (simp add: answers_def)
  next
    case False
    with part goal Some show ?thesis
      by (intro exI[of _ us] exI[of _ "out @ answers (open_msg (conn_of st')) (map ws_view rs)"] exI[of _ part]) auto
  qed
qed

section \<open>A whole poll\<close>

text \<open>A peer that never makes the connection wait: sends never answer \<open>EAGAIN\<close>, receives only when nothing is left.\<close>

definition eager :: "'w kernel \<Rightarrow> i32 \<Rightarrow> ('w \<Rightarrow> bytes) \<Rightarrow> bool" where
  "eager K fd inbox \<longleftrightarrow>
     (\<forall>buf rest w. fst (K 44 (reg_i32 fd # PtrBytes buf # rest) w) \<noteq> -11) \<and>
     (\<forall>n rest w. fst (K 45 (reg_i32 fd # PtrBuf n # rest) w) = -11 \<longrightarrow> 0 < n \<longrightarrow> inbox w = [])"

lemma eager_send:
  assumes "eager K fd inbox" and "sf_fd f = fd"
  shows "poll_send K f cx s \<noteq> Inr (Pending f', t)"
proof -
  have "fst (K 44 (reg_i32 fd # PtrBytes (sf_buf f) # rest) w) \<noteq> -11" for rest w
    using assms(1) by (simp add: eager_def)
  then have "\<forall>t. sendto K (sf_fd f) (sf_buf f) 0 PtrNull 0 s \<noteq> Inr (-11, t)"
    using assms(2) by (auto simp: sendto_def ret_of_def raw_syscalls do_syscall_def bind_p_def split: prod.splits) (metis fst_conv)
  then show ?thesis by (auto simp: poll_send_def bind_p_eq_Inr split: if_splits)
qed

lemma eager_ws_send:
  assumes "eager K fd inbox" and "ws_fd st = fd" and "sf_fd (ws_fut st) = fd"
  shows "poll_ws_send K st cx s \<noteq> Inr (Pending st', t)"
proof -
  have "ws_send_loop K n st cx s \<noteq> Inr (Pending st', t)" for n
    using assms(2,3)
  proof (induction n arbitrary: st s)
    case (Suc n)
    then show ?case
      using eager_send[OF assms(1) Suc.prems(2), of cx s]
      by (auto simp: bind_p_eq_Inr Let_def send_new_def split: poll.splits if_splits)
  qed (simp add: raise_p_def)
  then show ?thesis by (simp add: poll_ws_send_def)
qed

lemma eager_recv:
  assumes "eager K fd inbox" and "rf_fd f = fd" and "0 < length (rf_buf f)"
    and "poll_recv K f cx s = Inr (Pending f', t)"
  shows "inbox (kst s) = []"
proof -
  let ?args = "[reg_i32 fd, PtrBuf (length (rf_buf f)), reg_len (length (rf_buf f)), reg_i32 0, PtrNull, PtrNull]"
  have "fst (K 45 ?args (kst s)) = -11"
    using assms(2,4) by (auto simp: poll_recv_def recvfrom_def raw_syscalls do_syscall_def bind_p_def split: prod.splits if_splits)
  then show ?thesis using assms(1,3) by (simp add: eager_def)
qed

lemma poll_ws_talks:
  assumes "stream_socket K fd inbox"
  shows "talking fd inbox tail past goal (Some st) s \<Longrightarrow> effort inbox (conn_of st) s + rank st < n \<Longrightarrow>
    \<exists>r t. poll_ws K n st cx s = Inr (r, t) \<and>
      talking fd inbox tail past goal (case r of Ready _ \<Rightarrow> None | Pending st' \<Rightarrow> Some st') t"
proof (induction n arbitrary: st s)
  case (Suc n)
  from ws_step_talks[OF assms Suc.prems(1), of cx] show ?case
  proof (unfold on_course_def, elim disjE exE conjE)
    fix st' t m assume t: "ws_step K st cx s = Inr (Ready st', t)" "talking fd inbox tail past goal st' t"
      "m < effort inbox (conn_of st) s + rank st" "within inbox m st' t"
    show ?case
    proof (cases st')
      case (Some st'')
      then have "effort inbox (conn_of st'') t + rank st'' < n" using t(3,4) Suc.prems(2) by simp
      from Suc.IH[OF _ this] t(1,2) Some show ?thesis by (auto simp del: talking.simps)
    qed (use t in \<open>auto simp del: talking.simps\<close>)
  qed (auto simp del: talking.simps)
qed simp

lemma poll_ws_reaches:
  "reachable init (session_step K fd inbox) (Some st, s) \<Longrightarrow> poll_ws K n st cx s = Inr (r, t) \<Longrightarrow>
     reachable init (session_step K fd inbox) (case r of Ready _ \<Rightarrow> None | Pending st' \<Rightarrow> Some st', t)"
proof (induction n arbitrary: st s)
  case (Suc n)
  from Suc.prems(2) obtain p u where p: "ws_step K st cx s = Inr (p, u)"
    and rest: "(case p of Pending st \<Rightarrow> return_p (Pending st) | Ready None \<Rightarrow> return_p (Ready ())
      | Ready (Some st) \<Rightarrow> poll_ws K n st cx) u = Inr (r, t)"
    by (auto simp: bind_p_eq_Inr)
  show ?case
  proof (cases p)
    case (Pending st')
    with p have "session_step K fd inbox (Some st, s) (Some st', u)" by (auto intro: session_step.waits)
    with reachable.step[OF Suc.prems(1)] Pending rest show ?thesis by auto
  next
    case (Ready st')
    with p have "session_step K fd inbox (Some st, s) (st', u)" by (auto intro: session_step.goes_on)
    with reachable.step[OF Suc.prems(1)] have "reachable init (session_step K fd inbox) (st', u)" by blast
    with rest Ready Suc.IH show ?thesis by (cases st') auto
  qed
qed (simp add: raise_p_def)

lemma lift_poll_Pending:
  "lift_poll wrap m k s = Inr (Pending st, t) \<longleftrightarrow> (\<exists>f. m s = Inr (Pending f, t) \<and> st = wrap f)"
  by (auto simp: lift_poll_def bind_p_def split: sum.splits prod.splits poll.splits)

lemma eager_step:
  assumes "stream_socket K fd inbox" and "eager K fd inbox" and "talking fd inbox tail past goal (Some st) s"
    and "ws_step K st cx s = Inr (Pending st', t)"
  shows "\<exists>c f. st' = Ws_Recv fd c f \<and> inbox (kst t) = []"
proof -
  from assms(3) obtain us out where ok: "pending_ok fd past us st out s" by auto
  have lazy: "poll_send K f cx s = Inr (Pending f', t) \<Longrightarrow> sf_fd f = fd \<Longrightarrow> False"
    "poll_ws_send K w cx s = Inr (Pending w', t) \<Longrightarrow> ws_fd w = fd \<Longrightarrow> sf_fd (ws_fut w) = fd \<Longrightarrow> False" for f f' w w'
    using eager_send[OF assms(2)] eager_ws_send[OF assms(2)] by blast+
  show ?thesis
  proof (cases st)
    case (Ws_Recv fd' c f)
    then obtain f' where f': "poll_recv K f cx s = Inr (Pending f', t)" "st' = Ws_Recv fd c f'"
      using assms(4) ok by (auto simp: lift_poll_Pending)
    have f: "rf_fd f = fd" "length (rf_buf f) = 4096" "spoken fd past us [] (calls s)" using ok Ws_Recv by simp_all
    have "inbox (kst s) = []"
      using eager_recv[OF assms(2) f(1) _ f'(1)] f(2) by simp
    then show ?thesis
      using poll_recv_talks[OF assms(1) f(1) _ _ f(3), of cx] f(2) f' by auto
  qed (use ok assms(4) in \<open>auto simp: lift_poll_Pending sending_def sending_once_def ws_sending_def dest: lazy\<close>)
qed

lemma poll_ws_eager:
  assumes "stream_socket K fd inbox" and "eager K fd inbox"
  shows "talking fd inbox tail past goal (Some st) s \<Longrightarrow> poll_ws K n st cx s = Inr (Pending st', t) \<Longrightarrow>
    \<exists>c f. st' = Ws_Recv fd c f \<and> inbox (kst t) = []"
proof (induction n arbitrary: st s)
  case (Suc n)
  from Suc.prems(2) consider "ws_step K st cx s = Inr (Pending st', t)" |
    st'' u where "ws_step K st cx s = Inr (Ready (Some st''), u)" "poll_ws K n st'' cx u = Inr (Pending st', t)"
    by (auto simp: bind_p_def split: sum.splits prod.splits poll.splits option.splits)
  then show ?case
  proof cases
    case 1
    then show ?thesis by (rule eager_step[OF assms Suc.prems(1)])
  next
    case 2
    have "talking fd inbox tail past goal (Some st'') u"
      using ws_step_talks[OF assms(1) Suc.prems(1), of cx] 2(1) by (auto simp: on_course_def simp del: talking.simps)
    with Suc.IH 2(2) show ?thesis by blast
  qed
qed (simp add: raise_p_def)

section \<open>Properties\<close>

text \<open>
  C1: A WebSocket conversation, end to end. Take a stream socket of the documented kind, a request
  with a key, and the encodings of any well-formed frames \<open>fs\<close> under way, possibly followed by an unfinished
  frame; start \<open>accept_and_run\<close> on it. Whatever chunks the stream arrives in, whatever
  sends are deferred, cut short or refused, whenever a receive fails, and whatever other tasks do in
  between, in every reachable state the connection has said a front part of the conversation (the handshake
  response with the accept key, the welcome message, every message of the client reassembled from its
  fragments and echoed, each followed by a ping, every ping answered), in order and nothing
  else, plus a part of the next utterance. Every utterance has its own stretch of the log of system calls since the start, in
  which it was written completely or which shows the send that cut it: a data frame is only cut by a send that failed or took nothing, a ping or
  pong and the tail of the handshake response by a send that took less. The whole conversation has been said when the
  connection waits for input with none left, and when it has ended unless a receive failed; and
  no step of it can panic.
\<close>

theorem conversation_correct:
  assumes "reachable (session_init K fd inbox request key fs tail past) (session_step K fd inbox) (st, s)"
  shows "(\<exists>us vs part. conversation key fs = us @ vs \<and> spoken fd past us part (calls s) \<and>
      (part = [] \<or> (\<exists>v vs'. vs = v # vs' \<and> strict_prefix part (bytes_of v))) \<and>
      (st = None \<longrightarrow> part = [] \<and> (vs = [] \<or> recv_failed fd past (calls s))) \<and>
      ((\<exists>c f. st = Some (Ws_Recv fd c f)) \<longrightarrow> inbox (kst s) = [] \<longrightarrow> part = [] \<and> vs = [])) \<and>
    (\<forall>st' cx. st = Some st' \<longrightarrow> (\<exists>r t. ws_step K st' cx s = Inr (r, t)))"
proof -
  from session.reachable_inv[OF assms]
  have inv: "stream_socket K fd inbox" "talking fd inbox tail past (conversation key fs) st s"
    by (simp_all add: session_inv_def)
  have "\<exists>r t. ws_step K st' cx s = Inr (r, t)" if "st = Some st'" for st' cx
    using ws_step_talks[OF inv(1), of tail past "conversation key fs" st' s cx] inv(2) that
    unfolding on_course_def by blast
  with talking_spoken[OF inv(2)] show ?thesis by blast
qed

text \<open>
  C6: Polling a connection ends. For a connection started on a documented stream socket with well-formed
  frames under way, in any state it can reach, with three steps of fuel for every byte buffered, four for every byte in the
  inbox and four more, one poll of the task returns and does not panic. It returns because the task
  is over, with the whole conversation said unless a receive failed, or pending, in a state from which the
  conversation goes on; and when the peer never defers, a pending task has answered everything the
  client sent.
\<close>

theorem poll_ws_returns:
  assumes "reachable (session_init K fd inbox request key fs tail past) (session_step K fd inbox) (Some st, s)"
    and "3 * length (buf_acc (conn_of st)) + 4 * length (inbox (kst s)) + 3 < n"
  shows "\<exists>r t. poll_ws K n st cx s = Inr (r, t) \<and>
    (case r of
       Ready _ \<Rightarrow> \<exists>us vs. conversation key fs = us @ vs \<and> spoken fd past us [] (calls t) \<and>
         (vs = [] \<or> recv_failed fd past (calls t))
     | Pending st' \<Rightarrow>
         reachable (session_init K fd inbox request key fs tail past) (session_step K fd inbox) (Some st', t) \<and>
         (eager K fd inbox \<longrightarrow> spoken fd past (conversation key fs) [] (calls t)))"
proof -
  from session.reachable_inv[OF assms(1)]
  have inv: "stream_socket K fd inbox" "talking fd inbox tail past (conversation key fs) (Some st) s"
    by (simp_all add: session_inv_def del: talking.simps)
  have "rank st \<le> 2" by (cases st) auto
  with assms(2) have fuel: "effort inbox (conn_of st) s + rank st < n" by (simp add: effort_def)
  from poll_ws_talks[OF inv fuel] obtain r t where r: "poll_ws K n st cx s = Inr (r, t)"
    "talking fd inbox tail past (conversation key fs) (case r of Ready _ \<Rightarrow> None | Pending st' \<Rightarrow> Some st') t" by blast
  show ?thesis
  proof (cases r)
    case (Pending st')
    then have st': "poll_ws K n st cx s = Inr (Pending st', t)" "talking fd inbox tail past (conversation key fs) (Some st') t"
      using r by simp_all
    have "spoken fd past (conversation key fs) [] (calls t)" if "eager K fd inbox"
      using poll_ws_eager[OF inv(1) that inv(2) st'(1)] talking_spoken[OF st'(2)] by auto
    with poll_ws_reaches[OF assms(1) st'(1)] st'(1) show ?thesis by (intro exI[of _ "Pending st'"] exI[of _ t]) simp
  qed (use r in auto)
qed

text \<open>A socket that receives one byte at a time and sends at most 127.\<close>

definition byte_kernel :: "bytes kernel" where
  "byte_kernel nr args w =
     (if nr = 45 \<and> hd args = reg_i32 5
      then case args of
             f # PtrBuf n # rest \<Rightarrow>
               if w = [] \<or> n = 0 then (-11, OutNone, w) else (1, OutBytes (take 1 w), drop 1 w)
           | _ \<Rightarrow> (-11, OutNone, w)
      else case args of
             f # PtrBytes buf # rest \<Rightarrow> (of_nat (min (length buf) 127), OutNone, w)
           | _ \<Rightarrow> (0, OutNone, w))"

definition byte_machine :: "bytes \<Rightarrow> bytes io_machine" where
  "byte_machine w =
     \<lparr>kst = w, calls = [], mem = Map.empty, heap_start = 0, heap_cur = 0, heap_end = 0,
      log_fd = 1, io_reg = [], eventfd = -1, event_pending = 0\<rparr>"

lemma sint_small: "n \<le> 127 \<Longrightarrow> sint (of_nat n :: 64 word) = int n"
  by (simp add: sint_uint uint_nat unat_of_nat_small signed_take_bit_int_eq_self)

lemma byte_kernel_socket: "stream_socket byte_kernel 5 id"
  unfolding stream_socket_def
proof (intro conjI allI impI)
  show "undisturbed byte_kernel 5 id"
    by (auto simp: undisturbed_def byte_kernel_def split: list.splits sysarg.splits)
  show "send_ok byte_kernel"
    by (auto simp: send_ok_def byte_kernel_def unat_of_nat_small)
  fix n rest w r out w' assume "0 < n \<and> byte_kernel 45 (reg_i32 5 # PtrBuf n # rest) w = (r, out, w')"
  then show "neg r \<and> id w' = id w \<or> r = 0 \<and> id w = [] \<and> id w' = [] \<or>
      (\<exists>bs. out = OutBytes bs \<and> bs \<noteq> [] \<and> length bs \<le> n \<and> r = of_nat (length bs) \<and> id w = bs @ id w')"
    by (cases w) (auto simp: byte_kernel_def split: if_splits)
qed

lemma byte_kernel_eager: "eager byte_kernel 5 id"
  unfolding eager_def
proof (intro conjI allI impI)
  fix buf :: bytes and rest w
  have "sint (of_nat (min (length buf) 127) :: 64 word) \<noteq> sint (-11 :: 64 word)"
    using sint_small[of "min (length buf) 127"] by simp
  then show "fst (byte_kernel 44 (reg_i32 5 # PtrBytes buf # rest) w) \<noteq> -11" by (auto simp: byte_kernel_def)
qed (auto simp: byte_kernel_def split: if_splits)

definition hello :: "ws_frame list" where
  "hello = [\<lparr>f_fin = False, f_opcode = 1, f_mask = Some [1, 2, 3, 4], f_payload = [104]\<rparr>,
            \<lparr>f_fin = True, f_opcode = 9, f_mask = None, f_payload = []\<rparr>,
            \<lparr>f_fin = True, f_opcode = 0, f_mask = None, f_payload = [105]\<rparr>]"

definition hello_request :: bytes where
  "hello_request = str ''Sec-WebSocket-Key: dGhl'' @ CRLF"

text \<open>The request, the three frames and the first byte of another.\<close>

lemma hello_session:
  obtains st t where
    "ws_start byte_kernel 5 hello_request (byte_machine (concat (map wire hello) @ [129])) = Inr (Some st, t)"
    and "reachable (session_init byte_kernel 5 id hello_request (str ''dGhl'') hello [129] []) (session_step byte_kernel 5 id) (Some st, t)"
    and "buf_acc (conn_of st) = []" and "kst t = concat (map wire hello) @ [129]"
proof -
  let ?s = "byte_machine (concat (map wire hello) @ [129])"
  have key: "find_header_value hello_request ''Sec-WebSocket-Key'' = Inr (Some (str ''dGhl''))"
    unfolding hello_request_def by code_simp
  from handshake_start[OF stream_socketD(2,1)[OF byte_kernel_socket] key refl, of ?s] obtain st t where
    t: "ws_start byte_kernel 5 hello_request ?s = Inr (Some st, t)" "id (kst t) = id (kst ?s)" "conn_of st = new_conn"
    by (metis conn_of.simps(1,2))
  have "session_init byte_kernel 5 id hello_request (str ''dGhl'') hello [129] [] (Some st, t)"
    using t(1) key unfolding session_init_def
    by (auto intro!: byte_kernel_socket exI[of _ ?s] simp: hello_def valid_frame_def byte_machine_def talk_def parse_websocket_frame_def)
  then have "reachable (session_init byte_kernel 5 id hello_request (str ''dGhl'') hello [129] []) (session_step byte_kernel 5 id) (Some st, t)"
    by (rule reachable.start)
  from that[OF t(1) this] t(2,3) show thesis
    by (simp add: new_conn_def byte_machine_def)
qed

theorem conversation_correct_witness:
  "\<exists>st t. ws_start byte_kernel 5 hello_request (byte_machine (concat (map wire hello) @ [129])) = Inr (Some st, t) \<and>
     (\<exists>us vs part. conversation (str ''dGhl'') hello = us @ vs \<and> spoken 5 [] us part (calls t)) \<and>
     (\<exists>r u. ws_step byte_kernel st 77 t = Inr (r, u))"
proof -
  obtain st t where t: "ws_start byte_kernel 5 hello_request (byte_machine (concat (map wire hello) @ [129])) = Inr (Some st, t)"
    "reachable (session_init byte_kernel 5 id hello_request (str ''dGhl'') hello [129] []) (session_step byte_kernel 5 id) (Some st, t)"
    by (rule hello_session)
  from conversation_correct[OF t(2)] t(1) show ?thesis by blast
qed

theorem poll_ws_returns_witness:
  "conversation (str ''dGhl'') hello =
     [Response (handshake_response (b64_ref (sha1_standard (str ''dGhl'' @ WS_GUID)))), Payload (build_websocket_frame 2 welcome_text),
      Control [138, 0], Payload [130, 2, 104, 105], Control PING] \<and>
   (\<exists>st t r u. ws_start byte_kernel 5 hello_request (byte_machine (concat (map wire hello) @ [129])) = Inr (Some st, t) \<and>
     poll_ws byte_kernel 1000 st 77 t = Inr (r, u) \<and>
     (case r of Ready _ \<Rightarrow> \<exists>us vs. conversation (str ''dGhl'') hello = us @ vs \<and> spoken 5 [] us [] (calls u)
      | Pending _ \<Rightarrow> spoken 5 [] (conversation (str ''dGhl'') hello) [] (calls u)))"
proof
  have "answers None (map ws_view hello) = [Control [138, 0], Payload [130, 2, 104, 105], Control PING]"
    by (simp add: answers_def hello_def ws_view_def build_websocket_frame_def)
  moreover have "trim_end (trim_start (str ''dGhl'')) = str ''dGhl''" by code_simp
  ultimately show "conversation (str ''dGhl'') hello =
     [Response (handshake_response (b64_ref (sha1_standard (str ''dGhl'' @ WS_GUID)))), Payload (build_websocket_frame 2 welcome_text),
      Control [138, 0], Payload [130, 2, 104, 105], Control PING]" by (simp only: conversation_def append.simps)
  obtain st t where t: "ws_start byte_kernel 5 hello_request (byte_machine (concat (map wire hello) @ [129])) = Inr (Some st, t)"
    "reachable (session_init byte_kernel 5 id hello_request (str ''dGhl'') hello [129] []) (session_step byte_kernel 5 id) (Some st, t)"
    "buf_acc (conn_of st) = []" "kst t = concat (map wire hello) @ [129]" by (rule hello_session)
  have "3 * length (buf_acc (conn_of st)) + 4 * length (id (kst t)) + 3 < (1000::nat)"
    by (simp add: t(3,4) hello_def wire_def wire_length_def apply_mask_def)
  from poll_ws_returns[OF t(2) this, of 77] obtain r u where r: "poll_ws byte_kernel 1000 st 77 t = Inr (r, u)"
    "case r of Ready _ \<Rightarrow> \<exists>us vs. conversation (str ''dGhl'') hello = us @ vs \<and> spoken 5 [] us [] (calls u) \<and>
         (vs = [] \<or> recv_failed 5 [] (calls u))
     | Pending st' \<Rightarrow> reachable (session_init byte_kernel 5 id hello_request (str ''dGhl'') hello [129] []) (session_step byte_kernel 5 id) (Some st', u) \<and>
         (eager byte_kernel 5 id \<longrightarrow> spoken 5 [] (conversation (str ''dGhl'') hello) [] (calls u))" by blast
  then have "case r of Ready _ \<Rightarrow> \<exists>us vs. conversation (str ''dGhl'') hello = us @ vs \<and> spoken 5 [] us [] (calls u)
      | Pending _ \<Rightarrow> spoken 5 [] (conversation (str ''dGhl'') hello) [] (calls u)"
    using byte_kernel_eager by (cases r) (simp_all, blast)
  with t(1) r(1) show "\<exists>st t r u. ws_start byte_kernel 5 hello_request (byte_machine (concat (map wire hello) @ [129])) = Inr (Some st, t) \<and>
     poll_ws byte_kernel 1000 st 77 t = Inr (r, u) \<and>
     (case r of Ready _ \<Rightarrow> \<exists>us vs. conversation (str ''dGhl'') hello = us @ vs \<and> spoken 5 [] us [] (calls u)
      | Pending _ \<Rightarrow> spoken 5 [] (conversation (str ''dGhl'') hello) [] (calls u))" by blast
qed

end
