(* ===== verification/Http.thy ===== *)
theory Http
  imports Conversation
begin

text \<open>
  The HTTP connection task of the http crate (src/crates/http/lib.rs): response headers, routing,
  and \<open>handle_http_connection\<close> as the state machine of its await points, which hands a
  WebSocket request over to the task of theory Websocket. The properties say what a request is
  answered with and that the task closes its descriptor exactly once, at its end.
\<close>

section \<open>The code\<close>

text \<open>\<open>include_bytes!\<close> of src/html/index.html.\<close>

definition INDEX_HTML :: bytes where
  \<open>INDEX_HTML =
     concat (map (\<lambda>line. line @ [LF])
     [str ''<!doctype html>'',
      str ''<html>'',
      str ''<head>'',
      str ''  <meta charset="utf-8">'',
      str ''  <title>Embedded xterm</title>'',
      str ''  <style>'',
      str ''    html, body { height: 100%; margin: 0; background: #1e1e1e; }'',
      str ''    #terminal { height: 100%; }'',
      str ''  </style>'',
      str ''  <!-- xterm.css CDN -->'',
      str ''  <link rel="stylesheet" href="https://cdn.jsdelivr.net/npm/xterm/css/xterm.css" />'',
      str ''</head>'',
      str ''<body>'',
      str ''  <div id="terminal"></div>'',
      [],
      str ''  <!-- xterm.js CDN -->'',
      str ''  <script src="https://cdn.jsdelivr.net/npm/xterm/lib/xterm.min.js"></script>'',
      str ''  <!-- xterm-addon-fit CDN -->'',
      str ''  <script src="https://cdn.jsdelivr.net/npm/xterm-addon-fit/lib/xterm-addon-fit.min.js"></script>'',
      str ''  <!-- xterm-addon-webgl CDN -->'',
      str ''  <script src="https://cdn.jsdelivr.net/npm/xterm-addon-webgl/lib/xterm-addon-webgl.min.js"></script>'',
      [],
      str ''  <script>'',
      str ''    (function(){'',
      str ''      const term = new Terminal({'',
      str ''        convertEol: true,'',
      str ''        cursorBlink: true,'',
      str ''        fontFamily: "monospace",'',
      str ''        theme: { background: "#1e1e1e" }'',
      str ''      });'',
      str ''      const fitAddon = new FitAddon.FitAddon();'',
      str ''      const webglAddon = new WebglAddon.WebglAddon();'',
      str ''      term.loadAddon(fitAddon);'',
      str ''      term.open(document.getElementById("terminal"));'',
      str ''      term.loadAddon(webglAddon);'',
      str ''      fitAddon.fit();'',
      [],
      str ''      const proto = location.protocol === "https:" ? "wss://" : "ws://";'',
      str ''      const ws = new WebSocket(proto + location.host + "/term");'',
      str ''      ws.binaryType = "arraybuffer";'',
      [],
      str ''      ws.onmessage = e => term.write(new Uint8Array(e.data));'',
      str ''      ws.onclose = () => term.write("'' @ [92] @ str ''r'' @ [92] @ str ''n[connection closed]'' @ [92] @ str ''r'' @ [92] @ str ''n");'',
      str ''      ws.onerror = () => term.write("'' @ [92] @ str ''r'' @ [92] @ str ''n[connection error]'' @ [92] @ str ''r'' @ [92] @ str ''n");'',
      [],
      str ''      term.onData(d => ws.send(new TextEncoder().encode(d)));'',
      str ''      window.addEventListener("resize", () => { try { fitAddon.fit(); } catch(e){} });'',
      str ''    })();'',
      str ''  </script>'',
      str ''</body>'',
      str ''</html>''])\<close>

definition http_response_headers :: "bytes \<Rightarrow> bytes \<Rightarrow> usize \<Rightarrow> bytes res" where
  "http_response_headers status content_type content_len =
     (let v = str ''HTTP/1.1 '' @ status @ CRLF @ str ''Content-Type: '' @ content_type @ CRLF @ str ''Content-Length: '';
          buf = replicate 20 0
      in bind_res
           (if content_len = 0 then bind_res (set_index buf 0 48) (\<lambda>buf. Inr (buf, 1))
            else bind_res (digits_loop buf 0 content_len) (\<lambda>(buf, i).
                 bind_res (reverse_loop buf 0 i) (\<lambda>buf. Inr (buf, i))))
           (\<lambda>(buf, i). bind_res (sub_slice buf 0 i) (\<lambda>num. Inr (v @ num @ CRLF @ CRLF))))"

definition starts_with :: "bytes \<Rightarrow> string \<Rightarrow> bool" where
  "starts_with buf p \<longleftrightarrow> take (length p) buf = str p"

text \<open>\<open>buf.windows(4).any(|w| w == CRLF CRLF)\<close>\<close>

fun has_complete_headers :: "bytes \<Rightarrow> bool" where
  "has_complete_headers [] \<longleftrightarrow> False"
| "has_complete_headers (b # bs) \<longleftrightarrow> take 4 (b # bs) = CRLF @ CRLF \<or> has_complete_headers bs"

datatype http_state =
    Http_Recv i32 recv_future
  | Http_More i32 bytes recv_future
  | Http_Send i32 send_future
  | Http_Ws ws_state

text \<open>An empty first receive ends the connection.\<close>

definition http_disconnected :: "'w kernel \<Rightarrow> i32 \<Rightarrow> (('w, 'z) io_machine_scheme, http_state option) prog" where
  "http_disconnected K fd =
     bind_p (log_line K ''[HTTP] fd='' fd '' empty recv, closing\<newline>'') (\<lambda>_.
     bind_p (unregister_fd K fd) (\<lambda>_.
     bind_p (close K fd) (\<lambda>_.
     return_p None)))"

text \<open>The end of the function, behind a response.\<close>

definition http_done :: "'w kernel \<Rightarrow> i32 \<Rightarrow> (('w, 'z) io_machine_scheme, http_state option) prog" where
  "http_done K fd =
     bind_p (log_line K ''[HTTP] fd='' fd '' done, closing\<newline>'') (\<lambda>_.
     bind_p (unregister_fd K fd) (\<lambda>_.
     bind_p (close K fd) (\<lambda>_.
     return_p None)))"

text \<open>The request, routed; up to the next \<open>.await\<close>.\<close>

definition http_route :: "'w kernel \<Rightarrow> i32 \<Rightarrow> bytes \<Rightarrow> (('w, 'z) io_machine_scheme, http_state option) prog" where
  "http_route K fd buf =
     (if starts_with buf ''GET / '' \<or> starts_with buf ''GET /HTTP'' \<or> starts_with buf ''GET / HTTP''
      then bind_p (log_line K ''[HTTP] fd='' fd '' route=/ (index)\<newline>'') (\<lambda>_.
           bind_p (lift_res (http_response_headers (str ''200 OK'') (str ''text/html; charset=utf-8'')
               (of_nat (length INDEX_HTML)))) (\<lambda>resp.
           return_p (Some (Http_Send fd (send_new fd (resp @ INDEX_HTML))))))
      else if starts_with buf ''GET /term '' \<or> starts_with buf ''GET /term'' \<or>
              starts_with buf ''GET /ws '' \<or> starts_with buf ''GET /ws''
      then bind_p (log_line K ''[HTTP] fd='' fd '' route=/ws (websocket upgrade)\<newline>'') (\<lambda>_.
           bind_p (ws_start K fd buf) (\<lambda>st.
           return_p (map_option Http_Ws st)))
      else bind_p (log_line K ''[HTTP] fd='' fd '' route=unknown (404)\<newline>'') (\<lambda>_.
           let body = str ''Not Found\<newline>''
           in bind_p (lift_res (http_response_headers (str ''404 Not Found'') (str ''text/plain'')
                (of_nat (length body)))) (\<lambda>resp.
              return_p (Some (Http_Send fd (send_new fd (resp @ body)))))))"

definition http_received :: "'w kernel \<Rightarrow> i32 \<Rightarrow> bytes \<Rightarrow> (('w, 'z) io_machine_scheme, http_state option) prog" where
  "http_received K fd buf =
     (if buf = [] then http_disconnected K fd
      else if \<not> has_complete_headers buf \<and> length buf = 2048
      then return_p (Some (Http_More fd buf (recv_new fd 1024)))
      else http_route K fd buf)"

text \<open>\<open>handle_http_connection\<close> up to its first \<open>.await\<close>, and one await.\<close>

definition http_start :: "'w kernel \<Rightarrow> i32 \<Rightarrow> (('w, 'z) io_machine_scheme, http_state) prog" where
  "http_start K fd =
     bind_p (log_line K ''[HTTP] fd='' fd '' recv request\<newline>'') (\<lambda>_.
     return_p (Http_Recv fd (recv_new fd 2048)))"

fun http_step :: "'w kernel \<Rightarrow> http_state \<Rightarrow> waker \<Rightarrow>
    (('w, 'z) io_machine_scheme, (http_state option, http_state) poll) prog" where
  "http_step K (Http_Recv fd f) cx = lift_poll (Http_Recv fd) (poll_recv K f cx) (http_received K fd)"
| "http_step K (Http_More fd buf f) cx =
     lift_poll (Http_More fd buf) (poll_recv K f cx) (\<lambda>extra. http_route K fd (buf @ extra))"
| "http_step K (Http_Send fd f) cx =
     lift_poll (Http_Send fd) (poll_send K f cx) (\<lambda>_. http_done K fd)"
| "http_step K (Http_Ws st) cx =
     lift_poll Http_Ws (ws_step K st cx) (\<lambda>st. return_p (map_option Http_Ws st))"

section \<open>What a request is answered with\<close>

lemma http_response_headers_eq:
  "http_response_headers status content_type n =
     Inr (str ''HTTP/1.1 '' @ status @ CRLF @ str ''Content-Type: '' @ content_type @ CRLF @ str ''Content-Length: '' @
          decimal (unat n) @ CRLF @ CRLF)"
proof -
  have "http_response_headers status content_type n =
      bind_res (format_usize n) (\<lambda>(buf, i). bind_res (sub_slice buf 0 i) (\<lambda>num.
        Inr (str ''HTTP/1.1 '' @ status @ CRLF @ str ''Content-Type: '' @ content_type @ CRLF @ str ''Content-Length: '' @
          num @ CRLF @ CRLF)))"
    by (simp add: http_response_headers_def format_usize_def Let_def)
  then show ?thesis by (simp add: format_usize_eq)
qed

text \<open>A whole response: status line, headers with the length of the body, body.\<close>

definition response :: "string \<Rightarrow> string \<Rightarrow> bytes \<Rightarrow> bytes" where
  "response status content_type body =
     str ''HTTP/1.1 '' @ str status @ CRLF @ str ''Content-Type: '' @ str content_type @ CRLF @ str ''Content-Length: '' @
     decimal (length body) @ CRLF @ CRLF @ body"

datatype route = Index | Upgrade | Unknown

text \<open>The routes as prefixes of the request.\<close>

definition route_of :: "bytes \<Rightarrow> route" where
  "route_of buf =
     (if prefix (str ''GET / '') buf \<or> prefix (str ''GET /HTTP'') buf then Index
      else if prefix (str ''GET /term'') buf \<or> prefix (str ''GET /ws'') buf then Upgrade
      else Unknown)"

lemma starts_with_prefix: "starts_with buf p \<longleftrightarrow> prefix (str p) buf"
  unfolding starts_with_def by (metis append_eq_conv_conj append_take_drop_id prefix_def str_simps(3))

lemma prefix_str_append: "prefix (str (p @ q)) buf \<Longrightarrow> prefix (str p) buf"
  by (auto simp: str_def prefix_def)

lemma route_cases:
  "starts_with buf ''GET / '' \<or> starts_with buf ''GET /HTTP'' \<or> starts_with buf ''GET / HTTP'' \<longleftrightarrow> route_of buf = Index"
  "starts_with buf ''GET /term '' \<or> starts_with buf ''GET /term'' \<or> starts_with buf ''GET /ws '' \<or> starts_with buf ''GET /ws''
     \<longleftrightarrow> route_of buf = Upgrade \<or> (route_of buf = Index \<and> (prefix (str ''GET /term'') buf \<or> prefix (str ''GET /ws'') buf))"
  using prefix_str_append[of "''GET / ''" "''HTTP''" buf] prefix_str_append[of "''GET /term''" "'' ''" buf]
    prefix_str_append[of "''GET /ws''" "'' ''" buf]
  unfolding starts_with_prefix route_of_def by auto

lemma INDEX_HTML_length: "length INDEX_HTML = 1730"
  unfolding INDEX_HTML_def by simp

lemma log_lineE:
  assumes "undisturbed K fd inbox"
  obtains t where "log_line K tag fd' rest s = Inr ((), t)" and "chat fd inbox t = chat fd inbox s"
  using quietE[OF quiet_chat(3)[OF assms], of tag fd' rest s] that by auto

lemma http_response_ok:
  assumes "length body < 2 ^ 64"
  obtains h where "http_response_headers (str status) (str content_type) (of_nat (length body)) = Inr h"
    and "h @ body = response status content_type body"
  using assms by (intro that) (simp_all add: http_response_headers_eq response_def unat_of_nat_small)

lemma http_route_answers:
  obtains t where "delivered fd (calls t) = delivered fd (calls s)"
    and "http_route K fd buf s =
      (case route_of buf of
         Index \<Rightarrow> Inr (Some (Http_Send fd (send_new fd (response ''200 OK'' ''text/html; charset=utf-8'' INDEX_HTML))), t)
       | Unknown \<Rightarrow> Inr (Some (Http_Send fd (send_new fd (response ''404 Not Found'' ''text/plain'' (str ''Not Found\<newline>'')))), t)
       | Upgrade \<Rightarrow> bind_p (ws_start K fd buf) (\<lambda>st. return_p (map_option Http_Ws st)) t)"
proof -
  note str_simps(2) [simp del]
  have log: "\<exists>t. log_line K ''[HTTP] fd='' fd msg s = Inr ((), t) \<and> delivered fd (calls t) = delivered fd (calls s)" for msg
    by (rule log_lineE[OF undisturbed_trivial, of K "''[HTTP] fd=''" fd msg s fd]) (auto dest: chatD(1))
  consider "route_of buf = Index" | "route_of buf = Upgrade" | "route_of buf = Unknown" by (cases "route_of buf") auto
  then show thesis
  proof cases
    case 1
    obtain h where "http_response_headers (str ''200 OK'') (str ''text/html; charset=utf-8'') (of_nat (length INDEX_HTML)) = Inr h"
      "h @ INDEX_HTML = response ''200 OK'' ''text/html; charset=utf-8'' INDEX_HTML"
      by (rule http_response_ok[of INDEX_HTML]) (simp_all add: INDEX_HTML_length)
    with log[of "'' route=/ (index)\<newline>''"] 1 show ?thesis
      by (elim exE conjE) (rule that, assumption, simp add: http_route_def route_cases)
  next
    case 2
    with log[of "'' route=/ws (websocket upgrade)\<newline>''"] show ?thesis
      by (elim exE conjE) (rule that, assumption, simp add: http_route_def route_cases)
  next
    case 3
    let ?body = "str ''Not Found\<newline>''"
    obtain h where "http_response_headers (str ''404 Not Found'') (str ''text/plain'') (of_nat (length ?body)) = Inr h"
      "h @ ?body = response ''404 Not Found'' ''text/plain'' ?body"
      by (rule http_response_ok[of ?body]) simp_all
    with log[of "'' route=unknown (404)\<newline>''"] 3 show ?thesis
      by (elim exE conjE) (rule that, assumption, simp add: http_route_def route_cases Let_def)
  qed
qed

lemma has_complete_headers_iff: "has_complete_headers buf \<longleftrightarrow> sublist (CRLF @ CRLF) buf"
proof (induction buf)
  case Nil
  then show ?case by (simp add: CRLF_def)
next
  case (Cons b bs)
  have len: "length (CRLF @ CRLF) = 4" by (simp add: CRLF_def)
  have "take 4 (b # bs) = CRLF @ CRLF \<longleftrightarrow> prefix (CRLF @ CRLF) (b # bs)"
    by (metis append_eq_conv_conj len prefix_def take_is_prefix)
  with Cons show ?case by (simp add: sublist_Cons_right)
qed

text \<open>A connection that is over: its descriptor closed by the last system call, and not waited for any more.\<close>

definition closed :: "i32 \<Rightarrow> ('w, 'z) io_machine_scheme \<Rightarrow> bool" where
  "closed fd s \<longleftrightarrow> (\<exists>evs r. calls s = evs @ [\<lparr>ev_nr = 3, ev_args = [reg_i32 fd], ev_ret = r\<rparr>]) \<and>
     (\<forall>e \<in> set (io_reg s). e_fd e \<noteq> fd)"

lemma close_closes:
  assumes "bind_p (unregister_fd K fd) (\<lambda>_. bind_p (close K fd) (\<lambda>_. return_p None)) s = Inr (r, t)"
  shows "closed fd t"
proof -
  obtain u where u: "signal_eventfd K (s\<lparr>io_reg := reg_remove fd (io_reg s)\<rparr>) = Inr ((), u)"
    "bind_p (close K fd) (\<lambda>_. return_p None) u = Inr (r, t)"
    using assms by (auto simp: unregister_fd_def bind_p_eq_Inr)
  have "io_reg u = reg_remove fd (io_reg s)"
    using quietE[OF quiet_signal_eventfd, of K "s\<lparr>io_reg := reg_remove fd (io_reg s)\<rparr>"] u(1)
    by (auto simp: beyond_eventfd_def)
  then show ?thesis
    using u(2) by (auto simp: closed_def reg_remove_def close_def fd_or_minus1_def raw_syscalls do_syscall_def bind_p_def
        split: prod.splits)
qed

lemma http_endE:
  assumes "undisturbed K fd inbox" and "m = http_disconnected K fd \<or> m = http_done K fd"
  obtains t where "m s = Inr (None, t)" and "chat fd inbox t = chat fd inbox s" and "closed fd t"
proof -
  obtain msg where m: "m = bind_p (log_line K ''[HTTP] fd='' fd msg) (\<lambda>_.
      bind_p (unregister_fd K fd) (\<lambda>_. bind_p (close K fd) (\<lambda>_. return_p None)))"
    using assms(2) by (auto simp: http_disconnected_def http_done_def)
  obtain u where u: "log_line K ''[HTTP] fd='' fd msg s = Inr ((), u)" "chat fd inbox u = chat fd inbox s"
    by (rule log_lineE[OF assms(1)])
  obtain t where t: "bind_p (unregister_fd K fd) (\<lambda>_. bind_p (close K fd) (\<lambda>_. return_p None)) u = Inr (None :: http_state option, t)"
    "chat fd inbox t = chat fd inbox u" by (rule close_talks[OF assms(1)])
  with u close_closes[OF t(1)] show thesis by (intro that[of t]) (simp_all add: m)
qed

section \<open>Properties\<close>

text \<open>What becomes of a request: a response about to be sent, or the start of the WebSocket task, with nothing written before.\<close>

definition routed :: "'w kernel \<Rightarrow> i32 \<Rightarrow> bytes \<Rightarrow> ('w, 'z) io_machine_scheme \<Rightarrow>
    (fault \<times> ('w, 'z) io_machine_scheme) + ((http_state option, http_state) poll \<times> ('w, 'z) io_machine_scheme) \<Rightarrow> bool" where
  "routed K fd req u r \<longleftrightarrow> (\<exists>t. delivered fd (calls t) = delivered fd (calls u) \<and>
     r = (case route_of req of
            Index \<Rightarrow> Inr (Ready (Some (Http_Send fd (send_new fd
              (response ''200 OK'' ''text/html; charset=utf-8'' INDEX_HTML)))), t)
          | Upgrade \<Rightarrow> bind_p (ws_start K fd req) (\<lambda>st. return_p (Ready (map_option Http_Ws st))) t
          | Unknown \<Rightarrow> Inr (Ready (Some (Http_Send fd (send_new fd
              (response ''404 Not Found'' ''text/plain'' (str ''Not Found\<newline>''))))), t)))"

lemma lift_poll_route:
  assumes "poll_recv K f cx s = Inr (Ready chunk, u)" and "k chunk u = http_route K fd req u"
  shows "routed K fd req u (lift_poll wrap (poll_recv K f cx) k s)"
proof -
  obtain t where "delivered fd (calls t) = delivered fd (calls u)"
    "http_route K fd req u = (case route_of req of
         Index \<Rightarrow> Inr (Some (Http_Send fd (send_new fd (response ''200 OK'' ''text/html; charset=utf-8'' INDEX_HTML))), t)
       | Unknown \<Rightarrow> Inr (Some (Http_Send fd (send_new fd (response ''404 Not Found'' ''text/plain'' (str ''Not Found\<newline>'')))), t)
       | Upgrade \<Rightarrow> bind_p (ws_start K fd req) (\<lambda>st. return_p (map_option Http_Ws st)) t)"
    by (rule http_route_answers)
  then show ?thesis
    using assms unfolding routed_def
    by (intro exI[of _ t]) (cases "route_of req"; simp add: lift_poll_def bind_p_def split: sum.splits prod.splits del: str_simps(2))
qed

text \<open>
  C25: Routing, on every branch. When the first receive of a connection is ready, an empty chunk closes the
  connection; a chunk that fills the buffer without the end of the headers in it makes the task read once more, up to 1024
  bytes, and the request is then both chunks; any other chunk is the request. A request is routed by its
  prefix alone: \<open>GET /\<close> to the embedded page, \<open>GET /term\<close> and \<open>GET /ws\<close> to the
  WebSocket task, started on exactly this request, everything else to 404. The responses have the right status,
  content type and decimal content length, followed by the body; nothing is written before.
\<close>

theorem http_request_routed:
  assumes "poll_recv K f cx s = Inr (Ready chunk, u)"
  shows "(chunk = [] \<longrightarrow> (\<exists>t. http_step K (Http_Recv fd f) cx s = Inr (Ready None, t) \<and> closed fd t \<and>
      delivered fd (calls t) = delivered fd (calls u))) \<and>
    (length chunk = 2048 \<and> \<not> sublist (CRLF @ CRLF) chunk \<longrightarrow>
      http_step K (Http_Recv fd f) cx s = Inr (Ready (Some (Http_More fd chunk (recv_new fd 1024))), u)) \<and>
    (chunk \<noteq> [] \<and> (length chunk \<noteq> 2048 \<or> sublist (CRLF @ CRLF) chunk) \<longrightarrow>
      routed K fd chunk u (http_step K (Http_Recv fd f) cx s)) \<and>
    routed K fd (first @ chunk) u (http_step K (Http_More fd first f) cx s)"
proof (intro conjI impI)
  assume "chunk = []"
  moreover obtain t where "http_disconnected K fd u = Inr (None, t)" "chat fd (\<lambda>_. ()) t = chat fd (\<lambda>_. ()) u" "closed fd t"
    by (rule http_endE[OF undisturbed_trivial disjI1[OF refl]])
  ultimately show "\<exists>t. http_step K (Http_Recv fd f) cx s = Inr (Ready None, t) \<and> closed fd t \<and> delivered fd (calls t) = delivered fd (calls u)"
    using assms chatD(1) by (intro exI[of _ t]) (auto simp: lift_poll_def http_received_def)
next
  assume "length chunk = 2048 \<and> \<not> sublist (CRLF @ CRLF) chunk"
  then show "http_step K (Http_Recv fd f) cx s = Inr (Ready (Some (Http_More fd chunk (recv_new fd 1024))), u)"
    using assms by (auto simp: lift_poll_def http_received_def has_complete_headers_iff)
next
  assume "chunk \<noteq> [] \<and> (length chunk \<noteq> 2048 \<or> sublist (CRLF @ CRLF) chunk)"
  then show "routed K fd chunk u (http_step K (Http_Recv fd f) cx s)"
    unfolding http_step.simps by (intro lift_poll_route[OF assms]) (auto simp: http_received_def has_complete_headers_iff)
qed (simp add: lift_poll_route[OF assms])

text \<open>
  C29: A response is sent with a single send. When the kernel defers it the task waits with
  the whole response; otherwise the task ends, its descriptor is closed by the last system call and no longer
  registered for readiness, and what the client has got is exactly what that one send took: a shorter write truncates the response.
\<close>

theorem http_response_single_send:
  assumes "send_ok K" and "sf_fd f = fd"
  shows "\<exists>r t. (\<exists>rest w. r = fst (K 44 (reg_i32 fd # PtrBytes (sf_buf f) # rest) w)) \<and>
    http_step K (Http_Send fd f) cx s =
      Inr (if r = -11 then Pending (Http_Send fd (f\<lparr>sf_registered := True\<rparr>)) else Ready None, t) \<and>
    delivered fd (calls t) = delivered fd (calls s) @ (if neg r then [] else take (unat r) (sf_buf f)) \<and>
    (r \<noteq> -11 \<longrightarrow> closed fd t)"
proof -
  obtain r u where u: "delivered (sf_fd f) (calls u) = delivered (sf_fd f) (calls s) @ (if neg r then [] else take (unat r) (sf_buf f))"
    "\<exists>rest w. r = fst (K 44 (reg_i32 (sf_fd f) # PtrBytes (sf_buf f) # rest) w)"
    "poll_send K f cx s = Inr (if r = -11 then Pending (f\<lparr>sf_registered := True\<rparr>) else Ready r, u)"
    by (rule poll_send_effect[OF assms(1), of f s cx])
  obtain t where t: "http_done K fd u = Inr (None, t)" "chat fd (\<lambda>_. ()) t = chat fd (\<lambda>_. ()) u" "closed fd t"
    by (rule http_endE[OF undisturbed_trivial disjI2[OF refl]])
  show ?thesis
  proof (cases "r = -11")
    case True
    then show ?thesis using u assms(2) by (intro exI[of _ r] exI[of _ u]) (simp add: lift_poll_def)
  next
    case False
    then show ?thesis using u t chatD(1)[OF t(2)] assms(2) by (intro exI[of _ r] exI[of _ t]) (simp add: lift_poll_def)
  qed
qed

text \<open>
  C30: An upgrade request without a key in what was read is refused. When the first receive gives a
  request to the WebSocket routes and is not a full buffer without the end of the headers, the task reads no further: if that chunk
  holds no \<open>Sec-WebSocket-Key\<close>, it closes the connection without a byte of response,
  even when the headers are still incomplete and the key is on its way.
\<close>

theorem partial_upgrade_rejected:
  assumes "poll_recv K f cx s = Inr (Ready buf, u)" and "route_of buf = Upgrade"
    and "sublist (CRLF @ CRLF) buf \<or> length buf \<noteq> 2048" and "find_header_value buf ''Sec-WebSocket-Key'' = Inr None"
  shows "\<exists>t. http_step K (Http_Recv fd f) cx s = Inr (Ready None, t) \<and> closed fd t \<and>
    delivered fd (calls t) = delivered fd (calls u)"
proof -
  note str_simps(2) [simp del]
  have ne: "buf \<noteq> []" using assms(2) by (auto simp: route_of_def str_simps(2) split: if_splits)
  have "routed K fd buf u (http_step K (Http_Recv fd f) cx s)"
    unfolding http_step.simps using ne assms(3)
    by (intro lift_poll_route[OF assms(1)]) (auto simp: http_received_def has_complete_headers_iff)
  then obtain v where v: "delivered fd (calls v) = delivered fd (calls u)"
    "http_step K (Http_Recv fd f) cx s = bind_p (ws_start K fd buf) (\<lambda>st. return_p (Ready (map_option Http_Ws st))) v"
    using assms(2) by (auto simp: routed_def)
  obtain w where w: "log_line K ''[WS] fd='' fd '' handshake start\<newline>'' v = Inr ((), w)"
    "delivered fd (calls w) = delivered fd (calls v)" by (rule start_log)
  obtain x where x: "log_line K ''[WS] fd='' fd '' ERROR: No Sec-WebSocket-Key, closing\<newline>'' w = Inr ((), x)"
    "delivered fd (calls x) = delivered fd (calls w)" by (rule start_log)
  obtain t where t: "bind_p (unregister_fd K fd) (\<lambda>_. bind_p (close K fd) (\<lambda>_. return_p None)) x = Inr (None :: ws_state option, t)"
    "chat fd (\<lambda>_. ()) t = chat fd (\<lambda>_. ()) x" by (rule close_talks[OF undisturbed_trivial])
  have "ws_start K fd buf v = Inr (None, t)"
    using w x t assms(4) by (simp add: ws_start_def ws_reject_def)
  with v w(2) x(2) chatD(1)[OF t(2)] close_closes[OF t(1)] show ?thesis by simp
qed

text \<open>A kernel that gives one request and takes at most 100 bytes of what is sent.\<close>

definition short_kernel :: "bytes \<Rightarrow> unit kernel" where
  "short_kernel req nr args w =
     (if nr = 45 then (of_nat (length req), OutBytes req, w)
      else case args of f # PtrBytes buf # rest \<Rightarrow> (of_nat (min (length buf) 100), OutNone, w) | _ \<Rightarrow> (0, OutNone, w))"

lemma short_kernel_recv:
  assumes "req \<noteq> []" and "length req \<le> 100"
  shows "\<exists>u. poll_recv (short_kernel req) (recv_new 5 2048) 77 fresh_sched = Inr (Ready req, u)"
proof -
  have "sint (of_nat (length req) :: i64) = int (length req)" using assms(2) by (simp add: sint_small)
  with assms show ?thesis
    by (simp add: poll_recv_def recvfrom_def raw_syscalls do_syscall_def short_kernel_def bind_p_def recv_new_def
        set_vec_len_def fill_buf_def vec_with_len_def unat_of_nat_small)
qed

theorem http_request_routed_witness:
  "\<exists>t. http_step (short_kernel (str ''GET /x'')) (Http_Recv 5 (recv_new 5 2048)) 77 fresh_sched =
     Inr (Ready (Some (Http_Send 5 (send_new 5
       (response ''404 Not Found'' ''text/plain'' (str ''Not Found\<newline>''))))), t)"
proof -
  obtain u where u: "poll_recv (short_kernel (str ''GET /x'')) (recv_new 5 2048) 77 fresh_sched = Inr (Ready (str ''GET /x''), u)"
    using short_kernel_recv[of "str ''GET /x''"] by auto
  have r: "route_of (str ''GET /x'') = Unknown" "str ''GET /x'' \<noteq> []" by (simp_all add: route_of_def)
  have "routed (short_kernel (str ''GET /x'')) 5 (str ''GET /x'') u (http_step (short_kernel (str ''GET /x'')) (Http_Recv 5 (recv_new 5 2048)) 77 fresh_sched)"
    using http_request_routed[OF u, of 5] r(2) by simp
  then show ?thesis unfolding routed_def r(1) route.case by blast
qed

theorem http_response_single_send_witness:
  "\<exists>t. http_step (short_kernel []) (Http_Send 5 (send_new 5 (replicate 300 7))) 77 fresh_sched = Inr (Ready None, t) \<and>
     delivered 5 (calls t) = replicate 100 7 \<and> closed 5 t"
proof -
  have ok: "send_ok (short_kernel [])"
    by (auto simp: send_ok_def short_kernel_def unat_of_nat_small)
  have sf: "sf_fd (send_new 5 x) = 5" "sf_buf (send_new 5 x) = x" for x by (simp_all add: send_new_def)
  obtain r t where rt: "\<exists>rest w. r = fst (short_kernel [] 44 (reg_i32 5 # PtrBytes (replicate 300 7) # rest) w)"
    "http_step (short_kernel []) (Http_Send 5 (send_new 5 (replicate 300 7))) 77 fresh_sched =
      Inr (if r = -11 then Pending (Http_Send 5 ((send_new 5 (replicate 300 7))\<lparr>sf_registered := True\<rparr>)) else Ready None, t)"
    "delivered 5 (calls t) = delivered 5 (calls fresh_sched) @ (if neg r then [] else take (unat r) (replicate 300 7))"
    "r \<noteq> -11 \<longrightarrow> closed 5 t"
    using http_response_single_send[OF ok sf(1), of "replicate 300 7" 77 fresh_sched] unfolding sf(2) by blast
  have "r = 100" using rt(1) by (auto simp: short_kernel_def)
  with rt(2-4) show ?thesis by (intro exI[of _ t]) (simp add: fresh_sched_def del: http_step.simps)
qed

theorem partial_upgrade_rejected_witness:
  "\<exists>t. http_step (short_kernel (str ''GET /ws HTTP/1.1'')) (Http_Recv 5 (recv_new 5 2048)) 77 fresh_sched = Inr (Ready None, t)"
proof -
  obtain u where u: "poll_recv (short_kernel (str ''GET /ws HTTP/1.1'')) (recv_new 5 2048) 77 fresh_sched =
      Inr (Ready (str ''GET /ws HTTP/1.1''), u)"
    using short_kernel_recv[of "str ''GET /ws HTTP/1.1''"] by auto
  have r: "route_of (str ''GET /ws HTTP/1.1'') = Upgrade" by (simp add: route_of_def)
  have h: "find_header_value (str ''GET /ws HTTP/1.1'') ''Sec-WebSocket-Key'' = Inr None" by code_simp
  from partial_upgrade_rejected[OF u r _ h, of 5] show ?thesis by (auto simp del: http_step.simps)
qed

end
