(* ===== verification/Descriptors.thy ===== *)
theory Descriptors
  imports Http
begin

text \<open>
  Who closes a connection's descriptor: the connection task does, once, with its last system call, on every path
  through theories Http and Websocket, and it closes nothing else. The task's own calls are told
  apart from those of other tasks that run between its awaits.
\<close>

section \<open>Calls that close nothing\<close>

definition not_close :: "sysevent \<Rightarrow> bool" where
  "not_close ev \<longleftrightarrow> ev_nr ev \<noteq> 3"

text \<open>
  The static of the event descriptor is \<open>-1\<close> or a descriptor; its writers \<open>ensure_eventfd\<close> and
  \<open>close_eventfd\<close> keep it so. Then \<open>ensure_eventfd\<close> never has a descriptor to give back.
\<close>

definition eventfd_ok :: "i32 \<Rightarrow> bool" where
  "eventfd_ok e \<longleftrightarrow> e = -1 \<or> \<not> neg e"

abbreviation mild :: "(('w, 'z) io_machine_scheme, 'a) prog \<Rightarrow> bool" where
  "mild m \<equiv> logging not_close eventfd_ok m"

lemma spares_not_close: "spares not_close"
  by (simp add: spares_def not_close_def)

lemmas mild_calls = upholds_intros logging_calls[OF spares_not_close] logging_writes[OF spares_not_close]
  logging_handshake[OF spares_not_close]

lemma mild_unregister: "mild (unregister_fd K fd)"
  by (rule logging_unregister[OF spares_not_close]) (auto simp: eventfd_ok_def)

lemma close_eventfd_ok: "close_eventfd K s = Inr (a, t) \<Longrightarrow> eventfd_ok (eventfd t)"
  by (auto simp: close_eventfd_def close_def fd_or_minus1_def raw_syscalls do_syscall_def bind_p_def ignore_p_def eventfd_ok_def
      split: prod.splits if_splits)

lemma mild_ws_send: "mild (poll_ws_send K st cx)"
proof -
  have "mild (ws_send_loop K n st cx)" for n
    by (induction n arbitrary: st) (auto intro!: mild_calls simp: Let_def)
  then show ?thesis by (simp add: poll_ws_send_def)
qed

section \<open>Ending a task\<close>

text \<open>
  A computation that ends the task closes its descriptor with its last call and closes nothing
  before; one that goes on closes nothing and goes on with a state of the same descriptor.
\<close>

definition ends_closing :: "i32 \<Rightarrow> sysevent list \<Rightarrow> bool" where
  "ends_closing fd evs \<longleftrightarrow> (\<exists>evs' r. evs = evs' @ [\<lparr>ev_nr = 3, ev_args = [reg_i32 fd], ev_ret = r\<rparr>] \<and> list_all not_close evs')"

definition calls_ok :: "('st \<Rightarrow> i32) \<Rightarrow> i32 \<Rightarrow> 'st option \<Rightarrow> sysevent list \<Rightarrow> bool" where
  "calls_ok owner fd st evs \<longleftrightarrow>
     (case st of None \<Rightarrow> ends_closing fd evs | Some st \<Rightarrow> owner st = fd \<and> list_all not_close evs)"

definition ends :: "('st \<Rightarrow> i32) \<Rightarrow> i32 \<Rightarrow> (('w, 'z) io_machine_scheme, 'st option) prog \<Rightarrow> bool" where
  "ends owner fd m \<longleftrightarrow> (\<forall>s st t. eventfd_ok (eventfd s) \<and> m s = Inr (st, t) \<longrightarrow>
     eventfd_ok (eventfd t) \<and> (\<exists>evs. calls t = calls s @ evs \<and> calls_ok owner fd st evs))"

named_theorems ends_intros \<open>introduction rules for computations that may end a task\<close>

lemma calls_ok_append: "list_all not_close as \<Longrightarrow> calls_ok owner fd st bs \<Longrightarrow> calls_ok owner fd st (as @ bs)"
  by (cases st) (force simp: calls_ok_def ends_closing_def)+

lemma endsD:
  assumes "ends owner fd m" and "eventfd_ok (eventfd s)" and "m s = Inr (st, t)"
  obtains evs where "eventfd_ok (eventfd t)" and "calls t = calls s @ evs" and "calls_ok owner fd st evs"
  using assms unfolding ends_def by blast

lemma ends_return [ends_intros]: "owner st = fd \<Longrightarrow> ends owner fd (return_p (Some st))"
  by (simp add: ends_def calls_ok_def)

lemma ends_raise [ends_intros]: "ends owner fd (raise_p e)"
  by (simp add: ends_def raise_p_def)

lemma ends_bind [ends_intros]:
  assumes "mild m" and "\<And>a. ends owner fd (g a)"
  shows "ends owner fd (bind_p m g)"
  unfolding ends_def
proof (intro allI impI, elim conjE)
  fix s st t assume s: "eventfd_ok (eventfd s)" and "bind_p m g s = Inr (st, t)"
  then obtain a u where u: "m s = Inr (a, u)" "g a u = Inr (st, t)" by (auto simp: bind_p_eq_Inr)
  obtain as where as: "eventfd_ok (eventfd u)" "calls u = calls s @ as" "list_all not_close as"
    using loggingD[OF assms(1) s u(1)] by (auto simp: logs_def)
  obtain bs where "eventfd_ok (eventfd t)" "calls t = calls u @ bs" "calls_ok owner fd st bs"
    by (rule endsD[OF assms(2) as(1) u(2)])
  with as show "eventfd_ok (eventfd t) \<and> (\<exists>evs. calls t = calls s @ evs \<and> calls_ok owner fd st evs)"
    by (auto intro: calls_ok_append)
qed

lemma ends_close [ends_intros]: "ends owner fd (bind_p (close K fd) (\<lambda>_. return_p None))"
  by (auto simp: ends_def bind_p_eq_Inr close_def fd_or_minus1_def raw_syscalls do_syscall_def bind_p_def calls_ok_def ends_closing_def
      split: prod.splits)

lemma ends_if [ends_intros]: "(c \<Longrightarrow> ends owner fd m) \<Longrightarrow> (\<not> c \<Longrightarrow> ends owner fd n) \<Longrightarrow> ends owner fd (if c then m else n)"
  by simp

lemma ends_case_option [ends_intros]:
  "ends owner fd m \<Longrightarrow> (\<And>a. ends owner fd (n a)) \<Longrightarrow> ends owner fd (case x of None \<Rightarrow> m | Some a \<Rightarrow> n a)"
  by (cases x) simp_all

lemma calls_ok_map: "(\<And>st. owner' (h st) = owner st) \<Longrightarrow> calls_ok owner' fd (map_option h st) evs = calls_ok owner fd st evs"
  by (cases st) (simp_all add: calls_ok_def)

lemma ends_map:
  assumes "ends owner fd m" and "\<And>st. owner' (h st) = owner st"
  shows "ends owner' fd (bind_p m (\<lambda>st. return_p (map_option h st)))"
  using assms(1) calls_ok_map[of owner' h owner, OF assms(2)] unfolding ends_def bind_p_eq_Inr by fastforce

text \<open>The same for a step of a task.\<close>

definition step_ends :: "('st \<Rightarrow> i32) \<Rightarrow> i32 \<Rightarrow> (('w, 'z) io_machine_scheme, ('st option, 'st) poll) prog \<Rightarrow> bool" where
  "step_ends owner fd m \<longleftrightarrow> (\<forall>s r t. eventfd_ok (eventfd s) \<and> m s = Inr (r, t) \<longrightarrow>
     eventfd_ok (eventfd t) \<and>
     (\<exists>evs. calls t = calls s @ evs \<and> calls_ok owner fd (case r of Ready st \<Rightarrow> st | Pending st \<Rightarrow> Some st) evs))"

lemma step_ends_lift:
  assumes "mild m" and "\<And>f. owner (wrap f) = fd" and "\<And>a. ends owner fd (k a)"
  shows "step_ends owner fd (lift_poll wrap m k)"
  unfolding step_ends_def
proof (intro allI impI, elim conjE)
  fix s r t assume s: "eventfd_ok (eventfd s)" and "lift_poll wrap m k s = Inr (r, t)"
  then obtain p u where p: "m s = Inr (p, u)" and rest: "(case p of Pending f \<Rightarrow> return_p (Pending (wrap f))
      | Ready out \<Rightarrow> bind_p (k out) (\<lambda>st. return_p (Ready st))) u = Inr (r, t)"
    by (auto simp: lift_poll_def bind_p_eq_Inr)
  obtain as where as: "eventfd_ok (eventfd u)" "calls u = calls s @ as" "list_all not_close as"
    using loggingD[OF assms(1) s p] by (auto simp: logs_def)
  show "eventfd_ok (eventfd t) \<and>
      (\<exists>evs. calls t = calls s @ evs \<and> calls_ok owner fd (case r of Ready st \<Rightarrow> st | Pending st \<Rightarrow> Some st) evs)"
  proof (cases p)
    case (Pending f)
    then show ?thesis using rest as assms(2) by (auto simp: calls_ok_def)
  next
    case (Ready out)
    then obtain st where st: "k out u = Inr (st, t)" "r = Ready st" using rest by (auto simp: bind_p_eq_Inr)
    obtain bs where "eventfd_ok (eventfd t)" "calls t = calls u @ bs" "calls_ok owner fd st bs"
      by (rule endsD[OF assms(3) as(1) st(1)])
    with as st(2) show ?thesis by (auto intro: calls_ok_append)
  qed
qed

section \<open>The WebSocket task\<close>

fun ws_owner :: "ws_state \<Rightarrow> i32" where
  "ws_owner (Ws_Handshake fd f) = fd"
| "ws_owner (Ws_Welcome fd st) = fd"
| "ws_owner (Ws_Recv fd c f) = fd"
| "ws_owner (Ws_Echo fd c st) = fd"
| "ws_owner (Ws_Ping fd c f) = fd"
| "ws_owner (Ws_Pong fd c f) = fd"

lemma ends_frame_loop: "ends ws_owner fd (frame_loop K n fd c)"
proof (induction n arbitrary: c)
  case (Suc n)
  show ?case
    unfolding frame_loop.simps
    by (intro ends_intros mild_calls) (auto intro!: ends_intros mild_calls mild_unregister Suc split: ws_action.splits)
qed (auto intro: ends_intros)

lemma ends_handshake_done: "ends ws_owner fd (bind_p (handshake_done K fd) (\<lambda>st. return_p (Some st)))"
proof -
  have "st = Ws_Welcome fd (send_ws_payload fd welcome_text)" if "handshake_done K fd s = Inr (st, t)" for s st t
    using that by (auto simp: handshake_done_def bind_p_eq_Inr)
  moreover have "mild (handshake_done K fd)" by (rule logging_handshake(2)[OF spares_not_close])
  ultimately show ?thesis
    unfolding ends_def bind_p_eq_Inr by (fastforce simp: calls_ok_def logs_def dest: loggingD)
qed

lemma ends_ws_start: "ends ws_owner fd (ws_start K fd request)"
  unfolding ws_start_def ws_reject_def Let_def
  by (intro ends_intros mild_calls)
    (auto intro!: ends_intros mild_calls ends_handshake_done mild_unregister split: handshake_end.splits)

lemma step_ends_ws:
  assumes "ws_owner st = fd"
  shows "step_ends ws_owner fd (ws_step K st cx)"
proof -
  have frames: "ends ws_owner fd (next_frames K fd c)" for c
    unfolding next_frames_def by (rule ends_frame_loop)
  have recv: "ends ws_owner fd (ws_received K fd c chunk)" for c chunk
    unfolding ws_received_def by (intro ends_intros mild_calls mild_unregister frames)
  show ?thesis
    using assms
    by (cases st) (auto intro!: step_ends_lift recv frames ends_handshake_done ends_intros mild_ws_send mild_calls)
qed

section \<open>The HTTP task\<close>

fun http_owner :: "http_state \<Rightarrow> i32" where
  "http_owner (Http_Recv fd f) = fd"
| "http_owner (Http_More fd buf f) = fd"
| "http_owner (Http_Send fd f) = fd"
| "http_owner (Http_Ws st) = ws_owner st"

lemma ends_http:
  "ends http_owner fd (http_disconnected K fd)" "ends http_owner fd (http_done K fd)" "ends http_owner fd (http_route K fd buf)"
  "ends http_owner fd (http_received K fd buf)"
proof -
  show d: "ends http_owner fd (http_disconnected K fd)" and "ends http_owner fd (http_done K fd)"
    unfolding http_disconnected_def http_done_def by (intro ends_intros mild_calls mild_unregister)+
  show r: "ends http_owner fd (http_route K fd buf)"
    unfolding http_route_def Let_def by (intro ends_intros mild_calls ends_map[OF ends_ws_start]) simp_all
  show "ends http_owner fd (http_received K fd buf)"
    unfolding http_received_def by (intro ends_intros d r) simp
qed

lemma step_ends_http:
  assumes "http_owner st = fd"
  shows "step_ends http_owner fd (http_step K st cx)"
proof (cases st)
  case (Http_Ws ws)
  have ws: "step_ends ws_owner fd (ws_step K ws cx)" using step_ends_ws assms Http_Ws by simp
  note owner = calls_ok_map[of http_owner Http_Ws ws_owner fd, OF http_owner.simps(4)]
  show ?thesis
    unfolding step_ends_def
  proof (intro allI impI, elim conjE)
    fix s r t assume s: "eventfd_ok (eventfd s)" and "http_step K st cx s = Inr (r, t)"
    then obtain p where p: "ws_step K ws cx s = Inr (p, t)"
      "r = (case p of Pending ws \<Rightarrow> Pending (Http_Ws ws) | Ready ws \<Rightarrow> Ready (map_option Http_Ws ws))"
      by (auto simp: Http_Ws lift_poll_def bind_p_def split: sum.splits prod.splits poll.splits)
    have "(case r of Ready st \<Rightarrow> st | Pending st \<Rightarrow> Some st) = map_option Http_Ws (case p of Ready st \<Rightarrow> st | Pending st \<Rightarrow> Some st)"
      using p(2) by (cases p) simp_all
    with ws[unfolded step_ends_def, rule_format, OF conjI[OF s p(1)]] owner show "eventfd_ok (eventfd t) \<and>
        (\<exists>evs. calls t = calls s @ evs \<and> calls_ok http_owner fd (case r of Ready st \<Rightarrow> st | Pending st \<Rightarrow> Some st) evs)"
      by simp
  qed
qed (use assms in \<open>auto intro!: step_ends_lift mild_calls ends_http\<close>)

section \<open>The connection among other tasks\<close>

text \<open>
  The connection's steps, the calls of each recorded as its own, between arbitrary actions of other tasks and the
  readiness loop: these may make any calls and change the machine in any way that leaves the static of the event
  descriptor as its writers do.
\<close>

type_synonym ('w, 'z) connection = "http_state option \<times> sysevent list \<times> ('w, 'z) io_machine_scheme"

definition calls_since :: "('w, 'z) machine_scheme \<Rightarrow> ('w, 'z) machine_scheme \<Rightarrow> sysevent list" where
  "calls_since s t = drop (length (calls s)) (calls t)"

inductive http_run :: "'w kernel \<Rightarrow> ('w, 'z) connection \<Rightarrow> ('w, 'z) connection \<Rightarrow> bool"
  for K where
  waits: "http_step K st cx s = Inr (Pending st', t) \<Longrightarrow> http_run K (Some st, own, s) (Some st', own @ calls_since s t, t)"
| goes_on: "http_step K st cx s = Inr (Ready st', t) \<Longrightarrow> http_run K (Some st, own, s) (st', own @ calls_since s t, t)"
| others: "eventfd_ok (eventfd t) \<Longrightarrow> http_run K (st, own, s) (st, own, t)"

text \<open>A new connection, at the first await of \<open>handle_http_connection\<close>.\<close>

definition http_init :: "'w kernel \<Rightarrow> i32 \<Rightarrow> ('w, 'z) connection \<Rightarrow> bool" where
  "http_init K fd p \<longleftrightarrow> (\<exists>s st t. eventfd_ok (eventfd s) \<and> http_start K fd s = Inr (st, t) \<and> p = (Some st, calls_since s t, t))"

definition closes_inv :: "i32 \<Rightarrow> ('w, 'z) connection \<Rightarrow> bool" where
  "closes_inv fd p \<longleftrightarrow> (case p of (st, own, s) \<Rightarrow> eventfd_ok (eventfd s) \<and> calls_ok http_owner fd st own)"

lemma http_init_inv:
  assumes "http_init K fd p"
  shows "closes_inv fd p"
proof -
  obtain s st t where s: "eventfd_ok (eventfd s)" "http_start K fd s = Inr (st, t)" "p = (Some st, calls_since s t, t)"
    using assms by (auto simp: http_init_def)
  have "mild (http_start K fd)" unfolding http_start_def by (intro mild_calls)
  from loggingD[OF this s(1,2)] have "eventfd_ok (eventfd t)" "list_all not_close (calls_since s t)"
    by (auto simp: logs_def calls_since_def)
  moreover have "http_owner st = fd" using s(2) by (auto simp: http_start_def bind_p_eq_Inr)
  ultimately show ?thesis by (simp add: closes_inv_def calls_ok_def s(3))
qed

lemma closes_inv_own:
  assumes "closes_inv fd (Some st, own, s)" and "http_step K st cx s = Inr (r, t)"
  shows "closes_inv fd (case r of Ready st \<Rightarrow> st | Pending st \<Rightarrow> Some st, own @ calls_since s t, t)"
proof -
  have s: "eventfd_ok (eventfd s)" "http_owner st = fd" "list_all not_close own"
    using assms(1) by (simp_all add: closes_inv_def calls_ok_def)
  obtain evs where "eventfd_ok (eventfd t)" "calls t = calls s @ evs"
    "calls_ok http_owner fd (case r of Ready st \<Rightarrow> st | Pending st \<Rightarrow> Some st) evs"
    using step_ends_http[OF s(2), of K cx] s(1) assms(2) unfolding step_ends_def by blast
  with s(3) show ?thesis by (simp add: closes_inv_def calls_since_def calls_ok_append)
qed

lemma closes_inv_step:
  assumes "http_run K p q" and "closes_inv fd p"
  shows "closes_inv fd q"
  using assms
proof (induction rule: http_run.induct)
  case (waits st cx s st' t own)
  then show ?case using closes_inv_own[of fd st own s K cx "Pending st'" t] by simp
next
  case (goes_on st cx s st' t own)
  then show ?case using closes_inv_own[of fd st own s K cx "Ready st'" t] by simp
qed (simp add: closes_inv_def)

interpretation connection: safe_system "http_init K fd" "http_run K" "closes_inv fd" for K fd
  by unfold_locales (auto intro: http_init_inv closes_inv_step)

section \<open>Properties\<close>

text \<open>
  C5: A connection's descriptor is closed exactly once, by the last system call of its task, and the task closes
  nothing else. In every state the HTTP task of a new connection can reach, through any route and the
  WebSocket task, with any answers of the kernel and any calls of other tasks in between, as long as the static of the event
  descriptor holds \<open>-1\<close> or a descriptor: while the task is running, none of its own calls is a
  close; when it is over, the last of its own calls is the close of its descriptor and no call before it is a close.
\<close>

theorem descriptor_closed_once:
  assumes "reachable (http_init K fd) (http_run K) (st, own, s)"
  shows "case st of
      Some st' \<Rightarrow> http_owner st' = fd \<and> (\<forall>ev \<in> set own. ev_nr ev \<noteq> 3)
    | None \<Rightarrow> \<exists>own' r. own = own' @ [\<lparr>ev_nr = 3, ev_args = [reg_i32 fd], ev_ret = r\<rparr>] \<and> (\<forall>ev \<in> set own'. ev_nr ev \<noteq> 3)"
  using connection.reachable_inv[OF assms]
  by (auto simp: closes_inv_def calls_ok_def ends_closing_def not_close_def list_all_iff split: option.splits)

text \<open>A kernel that gives a client's request and takes everything sent; event descriptors are number 9.\<close>

definition get_kernel :: "bytes \<Rightarrow> unit kernel" where
  "get_kernel req nr args w =
     (if nr = 45 then (of_nat (length req), OutBytes req, w)
      else if nr = 290 then (9, OutNone, w)
      else case args of f # PtrBytes buf # rest \<Rightarrow> (of_nat (length buf), OutNone, w) | _ \<Rightarrow> (0, OutNone, w))"

theorem descriptor_closed_once_witness:
  "\<exists>own (t :: unit sched_machine) own' r. reachable (http_init (get_kernel []) 5) (http_run (get_kernel [])) (None, own, t) \<and>
     own = own' @ [\<lparr>ev_nr = 3, ev_args = [reg_i32 5], ev_ret = r\<rparr>]"
proof -
  let ?K = "get_kernel []" and ?st = "Http_Recv 5 (recv_new 5 2048)"
  obtain s where s: "log_line ?K ''[HTTP] fd='' 5 '' recv request\<newline>'' fresh_sched = Inr ((), s)"
    by (rule log_lineE[OF undisturbed_trivial])
  have "http_init ?K 5 (Some ?st, calls_since fresh_sched s, s)"
    using s unfolding http_init_def by (intro exI[of _ fresh_sched]) (auto simp: http_start_def eventfd_ok_def fresh_sched_def)
  then have start: "reachable (http_init ?K 5) (http_run ?K) (Some ?st, calls_since fresh_sched s, s)" by (rule reachable.start)
  obtain u where u: "poll_recv ?K (recv_new 5 2048) 77 s = Inr (Ready [], u)"
    by (simp add: poll_recv_def recvfrom_def raw_syscalls do_syscall_def get_kernel_def bind_p_def recv_new_def set_vec_len_def)
  obtain t where t: "http_disconnected ?K 5 u = Inr (None, t)"
    by (rule http_endE[OF undisturbed_trivial disjI1[OF refl]])
  have "http_step ?K ?st 77 s = Inr (Ready None, t)"
    using u t by (simp add: lift_poll_def http_received_def)
  then have "http_run ?K (Some ?st, calls_since fresh_sched s, s) (None, calls_since fresh_sched s @ calls_since s t, t)"
    by (rule http_run.goes_on)
  note over = reachable.step[OF start this]
  from over descriptor_closed_once[OF over] show ?thesis by auto
qed

end
