(* ===== verification/Contracts.thy ===== *)
theory Contracts
  imports Descriptors
begin

text \<open>
  What polling a connection may do to the rest of the machine: it touches the IO registry (which
  stays well-formed), the event descriptor and the kernel, and nothing else; the only ways it can
  stop are the slice panic of the frame parser and the exhaustion of the model's fuel.
\<close>

section \<open>The contract\<close>

definition conn_faults :: "fault set" where
  "conn_faults = {Slice_Out_Of_Range, Out_Of_Fuel}"

lemma conn_faults_mem [simp]: "Slice_Out_Of_Range \<in> conn_faults" "Out_Of_Fuel \<in> conn_faults"
  by (simp_all add: conn_faults_def)

abbreviation reg_inv :: "('w, 'z) io_machine_scheme \<Rightarrow> bool" where
  "reg_inv s \<equiv> reg_ok (io_reg s)"

definition only_io :: "('w, 'z) io_machine_scheme \<Rightarrow> ('w, 'z) io_machine_scheme \<Rightarrow> bool" where
  "only_io s t \<longleftrightarrow> mem t = mem s \<and> heap_start t = heap_start s \<and> heap_cur t = heap_cur s \<and> heap_end t = heap_end s \<and>
     log_fd t = log_fd s \<and> io_machine.more t = io_machine.more s"

abbreviation tame :: "(('w, 'z) io_machine_scheme, 'a) prog \<Rightarrow> bool" where
  "tame m \<equiv> upholds conn_faults reg_inv only_io m"

lemma only_io_rel [intro, simp]: "reflp only_io" "transp only_io"
  by (auto simp: reflp_def transp_def only_io_def)

lemma tame_quiet: "quiet beyond_eventfd m \<Longrightarrow> tame m"
  by (erule upholds_quiet) (auto simp: beyond_eventfd_def only_io_def)

lemma tame_kernel: "quiet beyond_kernel m \<Longrightarrow> tame m"
  by (intro tame_quiet quiet_beyond_eventfd)

section \<open>The leaf operations\<close>

lemma tame_calls [upholds_intros]:
  "tame (sys_write K fd buf)"
  "tame (close K fd)"
  "tame (fcntl K fd cmd arg)"
  "tame (sendto K fd buf flags dest n)"
  "tame (log_write K msg)"
  "tame (log_usize K n)"
  by (intro tame_kernel quiet_intros)+

lemma tame_log_line [upholds_intros]: "tame (log_line K tag fd rest)"
  unfolding log_line_def by (intro upholds_intros) (auto intro: upholds_intros)

lemma tame_reg_remove: "tame (modify_p (\<lambda>s. s\<lparr>io_reg := reg_remove fd (io_reg s)\<rparr>))"
  by (rule upholdsI) (simp add: reg.invar_remove only_io_def)

lemma tame_unregister [upholds_intros]: "tame (unregister_fd K fd)"
  unfolding unregister_fd_def
  by (rule upholds_bind[OF _ tame_reg_remove tame_quiet[OF quiet_signal_eventfd]]) simp

lemma tame_leaf:
  assumes "\<And>s. \<exists>r t. m s = Inr (r, t) \<and> beyond_reg t = beyond_reg s \<and> (reg_inv s \<longrightarrow> reg_inv t)"
  shows "tame m"
  by (rule upholdsI) (use assms in \<open>fastforce simp: beyond_reg_def only_io_def\<close>)

lemma tame_polls [upholds_intros]:
  "tame (poll_recv K f cx)"
  "tame (poll_send K g cx)"
  "tame (poll_accept K a cx)"
proof -
  show "tame (poll_recv K f cx)"
    by (rule tame_leaf) (metis quietE recv.quiet_poll recv.reg_ok_poll)
  show "tame (poll_send K g cx)"
    by (rule tame_leaf) (metis quietE send.quiet_poll send.reg_ok_poll)
  show "tame (poll_accept K a cx)"
    by (rule tame_leaf) (metis quietE accept.quiet_poll accept.reg_ok_poll)
qed

lemma parse_fault: "parse_websocket_frame buf = Inl e \<Longrightarrow> e = Slice_Out_Of_Range"
  by (auto simp: parse_websocket_frame_eq ref_parse_def Let_def split: if_splits option.splits)

lemma find_header_value_total: "find_header_value req name \<noteq> Inl e"
  by (simp add: find_header_value_def find_header_from_eq)

section \<open>The connection tasks\<close>

lemma tame_ws_send [upholds_intros]: "tame (poll_ws_send K st cx)"
proof -
  have "tame (ws_send_loop K n st cx)" for n
    by (induction n arbitrary: st) (auto intro!: upholds_intros simp: Let_def)
  then show ?thesis by (simp add: poll_ws_send_def)
qed

lemma tame_handshake_loop [upholds_intros]: "tame (handshake_loop K fd resp n off)"
  by (induction n arbitrary: off) (auto intro!: upholds_intros)

lemma tame_handshake_done [upholds_intros]: "tame (handshake_done K fd)"
  unfolding handshake_done_def by (intro upholds_intros) auto

lemma tame_ws_start [upholds_intros]: "tame (ws_start K fd request)"
  unfolding ws_start_def ws_reject_def accept_key_eq Let_def
  by (intro upholds_intros)
    (auto intro!: upholds_intros simp: find_header_value_total split: handshake_end.splits)

lemma tame_next_frames [upholds_intros]: "tame (next_frames K fd c)"
proof -
  have "tame (frame_loop K n fd c)" for n
  proof (induction n arbitrary: c)
    case (Suc n)
    show ?case
      unfolding frame_loop.simps
      by (intro upholds_intros)
        (auto intro!: upholds_intros Suc dest: parse_fault split: ws_action.splits)
  qed (simp add: upholds_raise)
  then show ?thesis unfolding next_frames_def .
qed

lemma tame_lift_poll:
  "tame m \<Longrightarrow> (\<And>a. tame (k a)) \<Longrightarrow> tame (lift_poll wrap m k)"
  unfolding lift_poll_def by (intro upholds_intros) auto

lemma tame_ws_step [upholds_intros]: "tame (ws_step K st cx)"
proof -
  have "tame (ws_received K fd c chunk)" for fd c chunk
    unfolding ws_received_def by (intro upholds_intros) auto
  then show ?thesis
    by (cases st) (auto intro!: tame_lift_poll upholds_intros)
qed

lemma tame_http_route [upholds_intros]: "tame (http_route K fd buf)"
  unfolding http_route_def http_response_headers_eq Let_def
  by (intro upholds_intros) auto

lemma tame_http_step [upholds_intros]: "tame (http_step K st cx)"
proof -
  have c: "tame (http_disconnected K fd)" "tame (http_done K fd)" for fd
    unfolding http_disconnected_def http_done_def by (intro upholds_intros; auto)+
  then have "tame (http_received K fd buf)" for fd buf
    unfolding http_received_def by (intro upholds_intros c) auto
  with c show ?thesis
    by (cases st) (auto intro!: tame_lift_poll upholds_intros)
qed

end
