(* ===== verification/Tasks.thy ===== *)
theory Tasks
  imports Treiber
begin

text \<open>
  Task slots of the runtime crate (\<open>Slot\<close>, \<open>spawn\<close>, \<open>poll_task_safe\<close>;
  src/crates/runtime/scheduler.rs) and \<open>spawn_task\<close> (src/crates/runtime/lib.rs). A boxed
  future is a value of the type parameter \<open>'f\<close>; polling one is the parameter \<open>P\<close>,
  which yields the finished result or the future in its new state. The slot table is a
  generational arena: the interface \<open>task_arena\<close> states what a handle promises.

  The vectors and boxes of the slot table are taken to be allocated; scheduler nodes go through
  the allocator.
\<close>

section \<open>State\<close>

record 'f slot =
  generation :: usize
  inner :: "'f option"

record ('w, 'f) task_machine = "'w sched_machine" +
  slots :: "'f slot list option"
  free_slots :: "usize list"
  next_slot :: usize

section \<open>The code\<close>

definition MAX_TASK_SLOTS :: usize where
  "MAX_TASK_SLOTS = 1024"

definition new_slot :: "'f slot" where
  "new_slot = \<lparr>generation = 0, inner = None\<rparr>"

definition init_slots :: "(('w, 'f, 'z) task_machine_scheme, unit) prog" where
  "init_slots =
     bind_p (get_p slots) (\<lambda>g.
     if g = None then modify_p (\<lambda>s. s\<lparr>slots := Some (replicate (unat MAX_TASK_SLOTS) new_slot)\<rparr>)
     else return_p ())"

text \<open>\<open>FREE_SLOTS.lock().pop()\<close>, else \<open>NEXT_SLOT.fetch_add(1)\<close> with the capacity check.\<close>

definition take_slot :: "(('w, 'f, 'z) task_machine_scheme, usize) prog" where
  "take_slot =
     bind_p (get_p free_slots) (\<lambda>free.
     if free \<noteq> []
     then bind_p (modify_p (\<lambda>s. s\<lparr>free_slots := butlast free\<rparr>)) (\<lambda>_. return_p (last free))
     else bind_p (get_p next_slot) (\<lambda>idx.
          bind_p (modify_p (\<lambda>s. s\<lparr>next_slot := idx + 1\<rparr>)) (\<lambda>_.
          if MAX_TASK_SLOTS \<le> idx then raise_p No_Free_Task_Slots else return_p idx)))"

definition unwrap_slots :: "(('w, 'f, 'z) task_machine_scheme, 'f slot list) prog" where
  "unwrap_slots = bind_p (get_p slots) (\<lambda>g. case g of None \<Rightarrow> raise_p Unwrap_None | Some v \<Rightarrow> return_p v)"

text \<open>An update of one slot of the table, through its atomics and its mutex.\<close>

definition set_slot :: "nat \<Rightarrow> ('f slot \<Rightarrow> 'f slot) \<Rightarrow> (('w, 'f, 'z) task_machine_scheme, unit) prog" where
  "set_slot i f =
     bind_p unwrap_slots (\<lambda>v.
     bind_p (lift_res (index v i)) (\<lambda>sl.
     modify_p (\<lambda>s. s\<lparr>slots := Some (v[i := f sl])\<rparr>)))"

definition spawn :: "'f \<Rightarrow> (('w, 'f, 'z) task_machine_scheme, usize) prog" where
  "spawn task =
     bind_p init_slots (\<lambda>_.
     bind_p take_slot (\<lambda>slot_idx.
     bind_p unwrap_slots (\<lambda>v.
     bind_p (lift_res (index v (unat slot_idx))) (\<lambda>sl.
     bind_p (set_slot (unat slot_idx) (\<lambda>sl. sl\<lparr>generation := generation sl + 1\<rparr>)) (\<lambda>_.
     bind_p (set_slot (unat slot_idx) (\<lambda>sl. sl\<lparr>inner := Some task\<rparr>)) (\<lambda>_.
     return_p (push_bit 32 slot_idx OR (generation sl AND 0xFFFFFFFF))))))))"

definition spawn_task :: "'w kernel \<Rightarrow> 'f \<Rightarrow> (('w, 'f, 'z) task_machine_scheme, usize) prog" where
  "spawn_task K future =
     bind_p (spawn future) (\<lambda>handle.
     bind_p (wake_handle K handle) (\<lambda>_.
     return_p handle))"

definition poll_task_safe ::
    "('f \<Rightarrow> waker \<Rightarrow> (('w, 'f, 'z) task_machine_scheme, (unit, 'f) poll) prog) \<Rightarrow>
      usize \<Rightarrow> waker \<Rightarrow> (('w, 'f, 'z) task_machine_scheme, bool) prog" where
  "poll_task_safe P handle cx =
     (let slot_idx = drop_bit 32 handle AND 0x3FF;
          gen = handle AND 0xFFFFFFFF
      in bind_p unwrap_slots (\<lambda>v.
         if length v \<le> unat slot_idx then return_p True
         else bind_p (lift_res (index v (unat slot_idx))) (\<lambda>sl.
         if generation sl \<noteq> gen \<and> generation sl \<noteq> gen + 1 then return_p True
         else case inner sl of
             None \<Rightarrow> return_p True
           | Some task \<Rightarrow>
               bind_p (P task cx) (\<lambda>result.
               case result of
                 Ready _ \<Rightarrow>
                   bind_p (set_slot (unat slot_idx) (\<lambda>sl. sl\<lparr>inner := None\<rparr>)) (\<lambda>_.
                   bind_p (modify_p (\<lambda>s. s\<lparr>free_slots := free_slots s @ [slot_idx]\<rparr>)) (\<lambda>_.
                   return_p True))
               | Pending task' \<Rightarrow>
                   bind_p (set_slot (unat slot_idx) (\<lambda>sl. sl\<lparr>inner := Some task'\<rparr>)) (\<lambda>_.
                   return_p False)))))"

section \<open>Handles\<close>

abbreviation slot_of :: "usize \<Rightarrow> usize" where
  "slot_of handle \<equiv> drop_bit 32 handle AND 0x3FF"

abbreviation gen_of :: "usize \<Rightarrow> usize" where
  "gen_of handle \<equiv> handle AND 0xFFFFFFFF"

lemma mask_literals: "(0xFFFFFFFF :: usize) = mask 32" "(0x3FF :: usize) = mask 10"
  by (simp_all add: mask_eq_exp_minus_1)

lemma bit_small: "unat (w :: 'a::len word) < 2 ^ k \<Longrightarrow> bit w n \<Longrightarrow> n < k"
proof (rule ccontr)
  assume w: "unat w < 2 ^ k" "bit w n" "\<not> n < k"
  from w(1) have "take_bit k (unat w) = unat w" by (simp add: take_bit_nat_eq_self)
  then have "take_bit k w = w" by (metis unsigned_take_bit_eq unsigned_word_eqI)
  with w(2,3) show False by (metis bit_take_bit_iff)
qed

lemma slot_of_handle: "unat i < 1024 \<Longrightarrow> slot_of (push_bit 32 i OR (g AND 0xFFFFFFFF)) = i"
proof -
  assume "unat i < 1024"
  then have b: "n < 10" if "bit i n" for n using bit_small[of i 10 n] that by simp
  show ?thesis
    unfolding mask_literals by (rule bit_word_eqI) (auto simp: bit_simps dest: b)
qed

lemma gen_of_handle: "gen_of (push_bit 32 i OR (g AND 0xFFFFFFFF)) = g AND 0xFFFFFFFF"
  unfolding mask_literals by (rule bit_word_eqI) (auto simp: bit_simps)

lemma gen_small: "unat (g :: usize) < 2 ^ 32 \<Longrightarrow> g AND 0xFFFFFFFF = g"
  unfolding mask_literals by (rule bit_word_eqI) (use bit_small[of g 32] in \<open>auto simp: bit_simps\<close>)

lemma gen_of_bound: "unat (gen_of h) < 2 ^ 32"
proof -
  have "gen_of h = take_bit 32 h" by (simp add: mask_literals take_bit_eq_mask)
  then show ?thesis by (simp add: take_bit_eq_mod unat_mod_distrib)
qed

lemma slot_of_bound: "unat (slot_of h) < 1024"
proof -
  have "slot_of h = take_bit 10 (drop_bit 32 h)" by (simp add: mask_literals take_bit_eq_mask)
  then show ?thesis by (simp add: take_bit_eq_mod unat_mod_distrib)
qed

section \<open>The slot table\<close>

definition slot_at :: "('w, 'f, 'z) task_machine_scheme \<Rightarrow> nat \<Rightarrow> 'f slot" where
  "slot_at s i = (case slots s of None \<Rightarrow> new_slot | Some v \<Rightarrow> if i < length v then v ! i else new_slot)"

text \<open>The task a handle stands for: what \<open>poll_task_safe\<close> finds.\<close>

definition task_of :: "('w, 'f, 'z) task_machine_scheme \<Rightarrow> usize \<Rightarrow> 'f option" where
  "task_of s h =
     (let sl = slot_at s (unat (slot_of h))
      in if generation sl = gen_of h \<or> generation sl = gen_of h + 1 then inner sl else None)"

text \<open>
  The table has 1024 slots once it exists; a slot is empty exactly when it is on the free list or
  was never used, and no slot is on the free list twice.
\<close>

definition slots_ok :: "('w, 'f, 'z) task_machine_scheme \<Rightarrow> bool" where
  "slots_ok s \<longleftrightarrow>
     (case slots s of None \<Rightarrow> free_slots s = [] \<and> next_slot s = 0 | Some v \<Rightarrow> length v = 1024) \<and>
     unat (next_slot s) \<le> 1024 \<and> distinct (free_slots s) \<and>
     (\<forall>w \<in> set (free_slots s). unat w < unat (next_slot s)) \<and>
     (\<forall>i < 1024. inner (slot_at s i) = None \<longleftrightarrow> unat (next_slot s) \<le> i \<or> i \<in> unat ` set (free_slots s))"

definition slots_full :: "('w, 'f, 'z) task_machine_scheme \<Rightarrow> bool" where
  "slots_full s \<longleftrightarrow> list_all (\<lambda>i. inner (slot_at s i) \<noteq> None) [0..<1024]"

lemma slots_full_iff: "slots_full s \<longleftrightarrow> (\<forall>i < 1024. inner (slot_at s i) \<noteq> None)"
  by (auto simp: slots_full_def list_all_iff)

lemma unat_MAX_TASK_SLOTS: "unat MAX_TASK_SLOTS = 1024"
  by (simp add: MAX_TASK_SLOTS_def)

lemma init_slots_spec:
  assumes "slots_ok s"
  obtains v t where "init_slots s = Inr ((), t)" and "t = s\<lparr>slots := Some v\<rparr>" and "length v = 1024"
    and "slot_at t = slot_at s" and "slots_ok t"
proof (cases "slots s")
  case None
  let ?v = "replicate 1024 new_slot" and ?t = "s\<lparr>slots := Some (replicate 1024 new_slot)\<rparr>"
  have "slot_at ?t = slot_at s" by (auto simp: slot_at_def None fun_eq_iff)
  moreover from this assms have "slots_ok ?t" by (simp add: slots_ok_def None)
  ultimately show thesis
    by (intro that[of ?t ?v]) (simp_all add: init_slots_def None unat_MAX_TASK_SLOTS)
next
  case (Some v)
  with assms show thesis
    by (intro that[of s v]) (simp_all add: init_slots_def slots_ok_def)
qed

text \<open>Giving an empty slot a task, and taking it out again.\<close>

lemma set_slot_Some [simp]:
  "slots s = Some v \<Longrightarrow> i < length v \<Longrightarrow> set_slot i f s = Inr ((), s\<lparr>slots := Some (v[i := f (v ! i)])\<rparr>)"
  by (simp add: set_slot_def unwrap_slots_def)

lemma slot_at_upd:
  "slots s = Some v \<Longrightarrow> i < length v \<Longrightarrow> slot_at (s\<lparr>slots := Some (v[i := x])\<rparr>) = (slot_at s)(i := x)"
  by (auto simp: slot_at_def fun_eq_iff)

lemma take_slot_spec:
  assumes ok: "slots_ok s" and v: "slots s = Some v"
  shows "(if slots_full s then \<exists>t. take_slot s = Inl (No_Free_Task_Slots, t)
    else \<exists>w free nx. take_slot s = Inr (w, s\<lparr>free_slots := free, next_slot := nx\<rparr>) \<and> unat w < 1024 \<and>
      inner (slot_at s (unat w)) = None \<and> unat nx \<le> 1024 \<and> unat w < unat nx \<and>
      distinct free \<and> (\<forall>w' \<in> set free. unat w' < unat nx) \<and>
      (\<forall>i < 1024. (i \<noteq> unat w \<and> inner (slot_at s i) = None) \<longleftrightarrow> unat nx \<le> i \<or> i \<in> unat ` set free))"
proof (cases "free_slots s = []")
  case True
  show ?thesis
  proof (cases "MAX_TASK_SLOTS \<le> next_slot s")
    case full: True
    with ok True have "slots_full s"
      by (simp add: slots_full_iff slots_ok_def word_le_nat_alt unat_MAX_TASK_SLOTS)
    with True full show ?thesis by (simp add: take_slot_def raise_p_def)
  next
    case False
    let ?n = "next_slot s"
    have lt: "unat ?n < 1024" using False by (simp add: word_le_nat_alt unat_MAX_TASK_SLOTS)
    then have suc: "unat (?n + 1) = unat ?n + 1" by (simp add: unat_word_ariths)
    have "take_slot s = Inr (?n, s\<lparr>free_slots := [], next_slot := ?n + 1\<rparr>)"
      using True False by (cases s) (simp add: take_slot_def)
    moreover have "\<not> slots_full s" using ok lt by (auto simp: slots_full_iff slots_ok_def)
    ultimately show ?thesis
      using ok True lt suc
      by (auto simp: slots_ok_def intro!: exI[of _ ?n] exI[of _ "[] :: usize list"] exI[of _ "?n + 1"])
  qed
next
  case False
  let ?w = "last (free_slots s)" and ?free = "butlast (free_slots s)"
  have free: "free_slots s = ?free @ [?w]" using False by simp
  have "distinct (?free @ [?w])" using ok free by (simp add: slots_ok_def)
  then have d: "distinct ?free" "?w \<notin> set ?free" by simp_all
  have im: "i \<in> unat ` set (free_slots s) \<longleftrightarrow> i = unat ?w \<or> i \<in> unat ` set ?free" for i
    by (subst free) auto
  have below: "\<forall>w' \<in> set (free_slots s). unat w' < unat (next_slot s)" "unat (next_slot s) \<le> 1024"
    using ok by (simp_all add: slots_ok_def)
  have w: "?w \<in> set (free_slots s)" using False by simp
  have run: "take_slot s = Inr (?w, s\<lparr>free_slots := ?free, next_slot := next_slot s\<rparr>)"
    using False by (cases s) (simp add: take_slot_def)
  have empty: "inner (slot_at s i) = None \<longleftrightarrow> unat (next_slot s) \<le> i \<or> i = unat ?w \<or> i \<in> unat ` set ?free"
    if "i < 1024" for i using ok that im[of i] by (simp add: slots_ok_def)
  have "unat ?w < unat (next_slot s)" "\<forall>w' \<in> set ?free. unat w' < unat (next_slot s)"
    using below(1) w by (auto dest: in_set_butlastD)
  moreover have "\<forall>x \<in> set ?free. unat x \<noteq> unat ?w" using d(2) by (metis unsigned_word_eqI)
  moreover from calculation(1) below(2) have "unat ?w < 1024" by simp
  with empty[of "unat ?w"] have "\<not> slots_full s" by (auto simp: slots_full_iff)
  ultimately show ?thesis
    using run d(1) below(2) empty by (auto intro!: exI[of _ ?w] exI[of _ ?free] exI[of _ "next_slot s"])
qed

text \<open>
  Spawning fills one empty slot and changes no other; with all 1024 slots occupied it panics.
\<close>

lemma spawn_spec:
  assumes ok: "slots_ok s"
  shows "(if slots_full s then \<exists>t. spawn f s = Inl (No_Free_Task_Slots, t)
    else \<exists>w t. spawn f s = Inr (push_bit 32 w OR (generation (slot_at s (unat w)) AND 0xFFFFFFFF), t) \<and>
      unat w < 1024 \<and> inner (slot_at s (unat w)) = None \<and>
      slot_at t = (slot_at s)(unat w := \<lparr>generation = generation (slot_at s (unat w)) + 1, inner = Some f\<rparr>) \<and>
      slots_ok t \<and> t = s\<lparr>slots := slots t, free_slots := free_slots t, next_slot := next_slot t\<rparr>)"
proof -
  obtain v u where u: "init_slots s = Inr ((), u)" "u = s\<lparr>slots := Some v\<rparr>" "length v = 1024"
    "slot_at u = slot_at s" "slots_ok u" by (rule init_slots_spec[OF ok])
  have v: "slots u = Some v" using u(2) by simp
  have full: "slots_full u = slots_full s" by (simp add: slots_full_def u(4))
  note ts = take_slot_spec[OF u(5) v, unfolded u(4) full]
  show ?thesis
  proof (cases "slots_full s")
    case True
    then show ?thesis using ts u(1) by (auto simp: spawn_def)
  next
    case False
    with ts obtain w free nx where w: "take_slot u = Inr (w, u\<lparr>free_slots := free, next_slot := nx\<rparr>)"
        "unat w < 1024" "inner (slot_at s (unat w)) = None" "unat nx \<le> 1024" "unat w < unat nx" "distinct free"
        "\<forall>w' \<in> set free. unat w' < unat nx"
        "\<forall>i < 1024. (i \<noteq> unat w \<and> inner (slot_at s i) = None) \<longleftrightarrow> unat nx \<le> i \<or> i \<in> unat ` set free"
      by auto
    let ?sl = "v ! unat w" and ?i = "unat w"
    have sl: "?sl = slot_at s ?i" using u(2-4) w(2) by (auto simp: slot_at_def fun_eq_iff dest: spec[of _ ?i])
    let ?new = "\<lparr>generation = generation ?sl + 1, inner = Some f\<rparr>"
    let ?t = "s\<lparr>slots := Some (v[?i := ?new]), free_slots := free, next_slot := nx\<rparr>"
    have at: "slot_at ?t = (slot_at s)(?i := ?new)"
    proof -
      have "slot_at ?t = slot_at (u\<lparr>slots := Some (v[?i := ?new])\<rparr>)" by (simp add: slot_at_def fun_eq_iff)
      also have "\<dots> = (slot_at u)(?i := ?new)" by (rule slot_at_upd) (use v u(3) w(2) in simp_all)
      finally show ?thesis by (simp add: u(4))
    qed
    have "\<forall>i < 1024. inner (slot_at ?t i) = None \<longleftrightarrow> unat nx \<le> i \<or> i \<in> unat ` set free"
      unfolding at using w(5,8) by auto
    then have "slots_ok ?t" using w u(3) by (simp add: slots_ok_def)
    moreover have "spawn f s = Inr (push_bit 32 w OR (generation ?sl AND 0xFFFFFFFF), ?t)"
      using u w(1,2) by (cases ?sl) (simp add: spawn_def unwrap_slots_def)
    ultimately show ?thesis
      using w at False sl by (auto intro!: exI[of _ w] exI[of _ ?t])
  qed
qed

section \<open>The arena interface\<close>

text \<open>
  What a client of the slot table relies on: a spawned task is found under its handle and no live
  handle changes meaning, as long as the slot's generation has not outgrown its 32 bits in the
  handle; a finished task's handle finds nothing.
\<close>

locale task_arena =
  fixes find :: "'s \<Rightarrow> usize \<Rightarrow> 'f option"
    and insert :: "'f \<Rightarrow> ('s, usize) prog"
    and finish :: "usize \<Rightarrow> 's \<Rightarrow> 's"
    and invar :: "'s \<Rightarrow> bool"
    and worn :: "'s \<Rightarrow> bool"
  assumes insert: "invar s \<Longrightarrow> insert f s = Inr (h, t) \<Longrightarrow> \<not> worn s \<Longrightarrow>
      invar t \<and> find s h = None \<and> find t h = Some f \<and> (\<forall>h'. find s h' \<noteq> None \<longrightarrow> find t h' = find s h')"
    and finish: "invar s \<Longrightarrow> find s h \<noteq> None \<Longrightarrow> invar (finish h s) \<and> find (finish h s) h = None"
begin

text \<open>Handles of tasks inserted while the first is still live are different from it.\<close>

lemma insert_distinct:
  assumes "invar s" "insert f s = Inr (h, t)" "\<not> worn s"
    and "insert f' t = Inr (h', u)" "\<not> worn t"
  shows "h' \<noteq> h \<and> find u h = Some f \<and> find u h' = Some f'"
proof -
  have 1: "invar t" "find t h = Some f" using insert[OF assms(1-3)] by blast+
  have 2: "find t h' = None" "find u h' = Some f'" "\<forall>h. find t h \<noteq> None \<longrightarrow> find u h = find t h"
    using insert[OF 1(1) assms(4,5)] by blast+
  from 1 2 show ?thesis by auto
qed

end

definition finish_task :: "usize \<Rightarrow> ('w, 'f, 'z) task_machine_scheme \<Rightarrow> ('w, 'f, 'z) task_machine_scheme" where
  "finish_task h s =
     (case slots s of
        None \<Rightarrow> s
      | Some v \<Rightarrow> s\<lparr>slots := Some (v[unat (slot_of h) := (v ! unat (slot_of h))\<lparr>inner := None\<rparr>]),
          free_slots := free_slots s @ [slot_of h]\<rparr>)"

text \<open>A slot whose generation no longer fits the 32 bits a handle has for it.\<close>

definition worn_slots :: "('w, 'f, 'z) task_machine_scheme \<Rightarrow> bool" where
  "worn_slots s \<longleftrightarrow> list_ex (\<lambda>i. 2 ^ 32 \<le> unat (generation (slot_at s i))) [0..<1024]"

lemma not_worn: "\<not> worn_slots s \<Longrightarrow> i < 1024 \<Longrightarrow> unat (generation (slot_at s i)) < 2 ^ 32"
  by (force simp: worn_slots_def list_ex_iff not_le)

lemma task_ofE:
  assumes "slots_ok s" and "task_of s h = Some f"
  obtains v where "slots s = Some v" and "length v = 1024" and "unat (slot_of h) < 1024"
    and "v ! unat (slot_of h) = slot_at s (unat (slot_of h))" and "inner (slot_at s (unat (slot_of h))) = Some f"
proof -
  have f: "inner (slot_at s (unat (slot_of h))) = Some f"
    using assms(2) by (simp add: task_of_def Let_def split: if_splits)
  then obtain v where v: "slots s = Some v"
    by (cases "slots s") (simp_all add: slot_at_def new_slot_def)
  with assms(1) have "length v = 1024" by (simp add: slots_ok_def)
  with f v slot_of_bound[of h] show thesis by (intro that[of v]) (simp_all add: slot_at_def)
qed

lemma finish_task_spec:
  assumes ok: "slots_ok s" and h: "task_of s h = Some f"
  shows "slots_ok (finish_task h s)"
    and "slot_at (finish_task h s) = (slot_at s)(unat (slot_of h) := (slot_at s (unat (slot_of h)))\<lparr>inner := None\<rparr>)"
proof -
  let ?w = "slot_of h" and ?i = "unat (slot_of h)"
  obtain v where v: "slots s = Some v" "length v = 1024" "?i < 1024" "v ! ?i = slot_at s ?i"
      "inner (slot_at s ?i) = Some f" by (rule task_ofE[OF assms])
  let ?t = "s\<lparr>slots := Some (v[?i := (v ! ?i)\<lparr>inner := None\<rparr>]), free_slots := free_slots s @ [?w]\<rparr>"
  have t: "finish_task h s = ?t" by (simp add: finish_task_def v(1))
  have at: "slot_at ?t = (slot_at s)(?i := (slot_at s ?i)\<lparr>inner := None\<rparr>)"
    using v by (auto simp: slot_at_def fun_eq_iff)
  then show "slot_at (finish_task h s) = (slot_at s)(?i := (slot_at s ?i)\<lparr>inner := None\<rparr>)" by (simp add: t)
  have live: "\<not> unat (next_slot s) \<le> ?i" "?i \<notin> unat ` set (free_slots s)"
    using ok v(3,5) by (auto simp: slots_ok_def)
  have "\<forall>i < 1024. inner (slot_at ?t i) = None \<longleftrightarrow>
      unat (next_slot s) \<le> i \<or> i \<in> unat ` set (free_slots s @ [?w])"
    unfolding at using ok v(3) by (auto simp: slots_ok_def)
  moreover have "?w \<notin> set (free_slots s)" using live(2) by auto
  ultimately show "slots_ok (finish_task h s)"
    unfolding t using ok live(1) v(2) by (auto simp: slots_ok_def v(1))
qed

lemma spawn_Inr:
  assumes "slots_ok s" and "spawn f s = Inr (h, t)"
  obtains w where "h = push_bit 32 w OR (generation (slot_at s (unat w)) AND 0xFFFFFFFF)" "unat w < 1024"
    "inner (slot_at s (unat w)) = None"
    "slot_at t = (slot_at s)(unat w := \<lparr>generation = generation (slot_at s (unat w)) + 1, inner = Some f\<rparr>)"
    "slots_ok t" "t = s\<lparr>slots := slots t, free_slots := free_slots t, next_slot := next_slot t\<rparr>"
  using spawn_spec[OF assms(1), of f] assms(2) that by (auto split: if_splits)

interpretation arena: task_arena task_of spawn finish_task slots_ok worn_slots
proof
  fix s t :: "('w, 'f, 'z) task_machine_scheme" and f h
  assume s: "slots_ok s" and sp: "spawn f s = Inr (h, t)" and worn: "\<not> worn_slots s"
  obtain w where w: "h = push_bit 32 w OR (generation (slot_at s (unat w)) AND 0xFFFFFFFF)" "unat w < 1024"
    "inner (slot_at s (unat w)) = None"
    "slot_at t = (slot_at s)(unat w := \<lparr>generation = generation (slot_at s (unat w)) + 1, inner = Some f\<rparr>)"
    "slots_ok t" "t = s\<lparr>slots := slots t, free_slots := free_slots t, next_slot := next_slot t\<rparr>"
    by (rule spawn_Inr[OF s sp])
  have idx: "slot_of h = w" "gen_of h = generation (slot_at s (unat w))"
    unfolding w(1) using slot_of_handle[OF w(2)] gen_of_handle gen_small[OF not_worn[OF worn w(2)]] by metis+
  have "task_of s h = None" "task_of t h = Some f" using w(3) by (simp_all add: task_of_def idx w(4))
  moreover have "task_of t h' = task_of s h'" if "task_of s h' \<noteq> None" for h'
  proof -
    have "unat (slot_of h') \<noteq> unat w" using that w(3) by (auto simp: task_of_def Let_def split: if_splits)
    then show ?thesis by (simp add: task_of_def w(4))
  qed
  ultimately show "slots_ok t \<and> task_of s h = None \<and> task_of t h = Some f \<and>
      (\<forall>h'. task_of s h' \<noteq> None \<longrightarrow> task_of t h' = task_of s h')" using w(5) by blast
next
  fix s :: "('w, 'f, 'z) task_machine_scheme" and h
  assume s: "slots_ok s" and "task_of s h \<noteq> None"
  then obtain f where f: "task_of s h = Some f" by blast
  from finish_task_spec[OF s f] show "slots_ok (finish_task h s) \<and> task_of (finish_task h s) h = None"
    by (simp add: task_of_def)
qed

section \<open>Polling\<close>

text \<open>What a poll of a task may do to the table: fill empty slots, leave the others as they are.\<close>

definition slots_grow :: "('w, 'f, 'z) task_machine_scheme \<Rightarrow> ('w, 'f, 'z) task_machine_scheme \<Rightarrow> bool" where
  "slots_grow s t \<longleftrightarrow> slots_ok t \<and> (\<forall>i. inner (slot_at s i) \<noteq> None \<longrightarrow> slot_at t i = slot_at s i)"

lemma slots_grow_refl: "slots_ok s \<Longrightarrow> slots_grow s s"
  by (simp add: slots_grow_def)

lemma slots_grow_trans: "slots_grow s t \<Longrightarrow> slots_grow t u \<Longrightarrow> slots_grow s u"
  by (auto simp: slots_grow_def)

lemma slots_grow_spawn: "slots_ok s \<Longrightarrow> spawn f s = Inr (h, t) \<Longrightarrow> slots_grow s t"
  by (erule (1) spawn_Inr) (auto simp: slots_grow_def)

definition keep_task :: "usize \<Rightarrow> 'f \<Rightarrow> ('w, 'f, 'z) task_machine_scheme \<Rightarrow> ('w, 'f, 'z) task_machine_scheme" where
  "keep_task h f s =
     (case slots s of
        None \<Rightarrow> s
      | Some v \<Rightarrow> s\<lparr>slots := Some (v[unat (slot_of h) := (v ! unat (slot_of h))\<lparr>inner := Some f\<rparr>])\<rparr>)"

lemma task_of_grow: "slots_grow s t \<Longrightarrow> task_of s h = Some f \<Longrightarrow> task_of t h = Some f"
  by (auto simp: slots_grow_def task_of_def Let_def split: if_splits)

lemma keep_task_spec:
  assumes ok: "slots_ok s" and h: "task_of s h = Some f"
  shows "slots_ok (keep_task h f' s)"
    and "slot_at (keep_task h f' s) = (slot_at s)(unat (slot_of h) := (slot_at s (unat (slot_of h)))\<lparr>inner := Some f'\<rparr>)"
proof -
  let ?i = "unat (slot_of h)"
  obtain v where v: "slots s = Some v" "length v = 1024" "?i < 1024" "v ! ?i = slot_at s ?i"
      "inner (slot_at s ?i) = Some f" by (rule task_ofE[OF assms])
  show at: "slot_at (keep_task h f' s) = (slot_at s)(?i := (slot_at s ?i)\<lparr>inner := Some f'\<rparr>)"
    using v slot_at_upd[of s v ?i] by (simp add: keep_task_def)
  have "free_slots (keep_task h f' s) = free_slots s" "next_slot (keep_task h f' s) = next_slot s"
    "\<exists>v. slots (keep_task h f' s) = Some v \<and> length v = 1024"
    using v(1,2) by (simp_all add: keep_task_def)
  with ok v(5) show "slots_ok (keep_task h f' s)" by (auto simp: slots_ok_def at)
qed

text \<open>One poll of a handle, in terms of the task it stands for.\<close>

lemma poll_task_safe_eq:
  assumes ok: "slots_ok s" and init: "slots s \<noteq> None"
    and grow: "\<And>f r t. task_of s h = Some f \<Longrightarrow> P f cx s = Inr (r, t) \<Longrightarrow> slots_grow s t"
  shows "poll_task_safe P h cx s =
    (case task_of s h of
       None \<Rightarrow> Inr (True, s)
     | Some f \<Rightarrow> (case P f cx s of
         Inl e \<Rightarrow> Inl e
       | Inr (Ready _, t) \<Rightarrow> Inr (True, finish_task h t)
       | Inr (Pending f', t) \<Rightarrow> Inr (False, keep_task h f' t)))"
proof -
  from ok init obtain v where v: "slots s = Some v" "length v = 1024" by (auto simp: slots_ok_def)
  let ?i = "unat (slot_of h)"
  have i: "?i < length v" "v ! ?i = slot_at s ?i" using slot_of_bound[of h] v by (simp_all add: slot_at_def)
  show ?thesis
  proof (cases "task_of s h")
    case None
    then show ?thesis
      using v i by (auto simp: poll_task_safe_def Let_def unwrap_slots_def task_of_def split: if_splits)
  next
    case (Some f)
    then have f: "inner (v ! ?i) = Some f" "\<not> (generation (v ! ?i) \<noteq> gen_of h \<and> generation (v ! ?i) \<noteq> gen_of h + 1)"
      using i(2) by (auto simp: task_of_def Let_def split: if_splits)
    have step: "poll_task_safe P h cx s = bind_p (P f cx) (\<lambda>result.
        case result of
          Ready _ \<Rightarrow>
            bind_p (set_slot ?i (\<lambda>sl. sl\<lparr>inner := None\<rparr>)) (\<lambda>_.
            bind_p (modify_p (\<lambda>s. s\<lparr>free_slots := free_slots s @ [slot_of h]\<rparr>)) (\<lambda>_.
            return_p True))
        | Pending task' \<Rightarrow>
            bind_p (set_slot ?i (\<lambda>sl. sl\<lparr>inner := Some task'\<rparr>)) (\<lambda>_.
            return_p False)) s"
      using v i(1) f by (auto simp: poll_task_safe_def unwrap_slots_def Let_def)
    show ?thesis
    proof (cases "P f cx s")
      case (Inl e)
      then show ?thesis by (simp add: step Some)
    next
      case (Inr rt)
      then obtain r t where t: "P f cx s = Inr (r, t)" by (cases rt) auto
      have "slots_ok t" using grow[OF Some t] by (simp add: slots_grow_def)
      moreover have "task_of t h = Some f" by (rule task_of_grow[OF grow[OF Some t] Some])
      ultimately obtain v' where v': "slots t = Some v'" "length v' = 1024" by (rule task_ofE)
      then show ?thesis
        using i(1) v(2) by (cases r) (simp_all add: step Some t finish_task_def keep_task_def)
    qed
  qed
qed

section \<open>Properties\<close>

definition fresh_tasks :: "(unit, nat) task_machine" where
  "fresh_tasks = sched_machine.extend fresh_sched (task_machine.fields None [] 0)"

lemma fresh_tasks_ok: "slots_ok fresh_tasks" "slots fresh_tasks = None" "slot_at fresh_tasks i = new_slot"
  by (simp_all add: slots_ok_def slot_at_def fresh_tasks_def sched_machine.defs task_machine.defs
      fresh_sched_def new_slot_def)

text \<open>
  C13: Capacity. Spawning panics exactly when all 1024 slots hold unfinished tasks. Otherwise it
  fills one slot that was empty, under a handle that names that slot, leaves every other slot as
  it is and touches nothing but the slot table.
\<close>

theorem spawn_capacity:
  assumes "slots_ok s"
  shows "if slots_full s then \<exists>t. spawn f s = Inl (No_Free_Task_Slots, t)
    else \<exists>h t. spawn f s = Inr (h, t) \<and> slots_ok t \<and> inner (slot_at s (unat (slot_of h))) = None \<and>
      slot_at t = (slot_at s)(unat (slot_of h) :=
        \<lparr>generation = generation (slot_at s (unat (slot_of h))) + 1, inner = Some f\<rparr>) \<and>
      t = s\<lparr>slots := slots t, free_slots := free_slots t, next_slot := next_slot t\<rparr>"
proof (cases "slots_full s")
  case True
  then show ?thesis using spawn_spec[OF assms, of f] by simp
next
  case False
  with spawn_spec[OF assms, of f] obtain w t where
    w: "spawn f s = Inr (push_bit 32 w OR (generation (slot_at s (unat w)) AND 0xFFFFFFFF), t)"
      "unat w < 1024" "inner (slot_at s (unat w)) = None" "slots_ok t"
      "slot_at t = (slot_at s)(unat w := \<lparr>generation = generation (slot_at s (unat w)) + 1, inner = Some f\<rparr>)"
      "t = s\<lparr>slots := slots t, free_slots := free_slots t, next_slot := next_slot t\<rparr>" by auto
  let ?h = "push_bit 32 w OR (generation (slot_at s (unat w)) AND 0xFFFFFFFF)"
  have "slot_of ?h = w" by (rule slot_of_handle[OF w(2)])
  then have "inner (slot_at s (unat (slot_of ?h))) = None"
    "slot_at t = (slot_at s)(unat (slot_of ?h) := \<lparr>generation = generation (slot_at s (unat (slot_of ?h))) + 1, inner = Some f\<rparr>)"
    using w(3,5) by simp_all
  then show ?thesis unfolding if_not_P[OF False] using w(1,4,6) by (intro exI conjI)
qed

theorem spawn_capacity_witness:
  "\<exists>h t. spawn 7 fresh_tasks = Inr (h, t) \<and> slots_ok t \<and> slot_at t (unat (slot_of h)) = \<lparr>generation = 1, inner = Some 7\<rparr>"
proof -
  have "\<not> slots_full fresh_tasks" by (simp add: slots_full_iff fresh_tasks_ok new_slot_def exI[of _ 0])
  with spawn_capacity[OF fresh_tasks_ok(1), of 7] show ?thesis
    by (auto simp: fresh_tasks_ok new_slot_def)
qed

text \<open>
  C14: Polling a handle. With a table in existence and a poll function that leaves occupied slots
  alone, polling a handle that stands for a task runs exactly that task once: a finished task
  leaves its slot empty and available and its handle dead, a pending one is kept in its new state,
  and the table stays well-formed. A handle that stands for no task, because it is stale or was
  never issued, is reported ready without any effect.
\<close>

theorem poll_task_safe_correct:
  assumes "slots_ok s" and "slots s \<noteq> None"
    and "\<forall>f r t. task_of s h = Some f \<longrightarrow> P f cx s = Inr (r, t) \<longrightarrow> slots_grow s t"
  shows "case task_of s h of
      None \<Rightarrow> poll_task_safe P h cx s = Inr (True, s)
    | Some f \<Rightarrow>
        (case P f cx s of
           Inl e \<Rightarrow> poll_task_safe P h cx s = Inl e
         | Inr (Ready _, t) \<Rightarrow> \<exists>u. poll_task_safe P h cx s = Inr (True, u) \<and> slots_ok u \<and> task_of u h = None \<and>
             inner (slot_at u (unat (slot_of h))) = None \<and> last (free_slots u) = slot_of h
         | Inr (Pending f', t) \<Rightarrow> \<exists>u. poll_task_safe P h cx s = Inr (False, u) \<and> slots_ok u \<and> task_of u h = Some f' \<and>
             free_slots u = free_slots t)"
proof -
  have eq: "poll_task_safe P h cx s =
    (case task_of s h of
       None \<Rightarrow> Inr (True, s)
     | Some f \<Rightarrow> (case P f cx s of
         Inl e \<Rightarrow> Inl e
       | Inr (Ready _, t) \<Rightarrow> Inr (True, finish_task h t)
       | Inr (Pending f', t) \<Rightarrow> Inr (False, keep_task h f' t)))"
    by (rule poll_task_safe_eq[OF assms(1,2)]) (use assms(3) in blast)
  have fin: "slots_ok (finish_task h t) \<and> task_of (finish_task h t) h = None \<and>
      inner (slot_at (finish_task h t) (unat (slot_of h))) = None \<and> last (free_slots (finish_task h t)) = slot_of h"
    and kp: "slots_ok (keep_task h f' t) \<and> task_of (keep_task h f' t) h = Some f' \<and>
      free_slots (keep_task h f' t) = free_slots t"
    if "task_of s h = Some f" "P f cx s = Inr (r, t)" for f r t f'
  proof -
    have g: "slots_grow s t" using assms(3) that by blast
    then have ok: "slots_ok t" and f: "task_of t h = Some f"
      using task_of_grow[OF g that(1)] by (simp_all add: slots_grow_def)
    obtain v where v: "slots t = Some v" by (rule task_ofE[OF ok f])
    show "slots_ok (finish_task h t) \<and> task_of (finish_task h t) h = None \<and>
        inner (slot_at (finish_task h t) (unat (slot_of h))) = None \<and> last (free_slots (finish_task h t)) = slot_of h"
      using finish_task_spec[OF ok f] v by (simp add: task_of_def finish_task_def)
    show "slots_ok (keep_task h f' t) \<and> task_of (keep_task h f' t) h = Some f' \<and>
        free_slots (keep_task h f' t) = free_slots t"
      using keep_task_spec[OF ok f, of f'] f v
      by (simp add: task_of_def Let_def keep_task_def split: if_splits)
  qed
  show ?thesis
    using eq fin kp by (auto split: option.splits sum.splits poll.splits)
qed

lemma slots_init: "inner (slot_at s i) \<noteq> None \<Longrightarrow> slots s \<noteq> None"
  by (cases "slots s") (simp_all add: slot_at_def new_slot_def)

theorem poll_task_safe_correct_witness:
  "\<exists>h t u. spawn 7 fresh_tasks = Inr (h, t) \<and>
     poll_task_safe (\<lambda>f cx. return_p (if f = 7 then Ready () else Pending f)) h h t = Inr (True, u) \<and>
     task_of u h = None \<and> last (free_slots u) = slot_of h"
proof -
  let ?P = "\<lambda>f cx. return_p (if f = 7 then Ready () else Pending f) ::
    ((unit, nat) task_machine, (unit, nat) poll) prog"
  have "\<not> slots_full fresh_tasks" by (simp add: slots_full_iff fresh_tasks_ok new_slot_def exI[of _ 0])
  with spawn_spec[OF fresh_tasks_ok(1), of 7] obtain h t where t: "spawn 7 fresh_tasks = Inr (h, t)" by auto
  have "\<not> worn_slots fresh_tasks" by (auto simp: worn_slots_def list_ex_iff fresh_tasks_ok new_slot_def)
  with arena.insert[OF fresh_tasks_ok(1) t] have f: "slots_ok t" "task_of t h = Some 7" by auto
  obtain v where "slots t = Some v" by (rule task_ofE[OF f])
  then have "slots t \<noteq> None" by simp
  moreover have "\<forall>f r u. task_of t h = Some f \<longrightarrow> ?P f h t = Inr (r, u) \<longrightarrow> slots_grow t u"
    using slots_grow_refl[OF f(1)] by simp
  ultimately show ?thesis
    using poll_task_safe_correct[OF f(1), of h ?P h] t f(2) by auto
qed

text \<open>
  C36: Generations that no longer fit. When the slot a spawn takes has been used \<open>2^32\<close> times or
  more, the handle it returns keeps only the low 32 bits of the generation: the new task sits in
  its slot but polling its own handle reports it ready without running it.
\<close>

theorem spawn_worn_generation_lost:
  assumes "slots_ok s" and "spawn f s = Inr (h, t)"
    and "2 ^ 32 \<le> unat (generation (slot_at s (unat (slot_of h))))"
    and "unat (generation (slot_at s (unat (slot_of h)))) < 2 ^ 64 - 1"
  shows "inner (slot_at t (unat (slot_of h))) = Some f \<and> poll_task_safe P h cx t = Inr (True, t)"
proof -
  obtain w where w: "h = push_bit 32 w OR (generation (slot_at s (unat w)) AND 0xFFFFFFFF)" "unat w < 1024"
    "slot_at t = (slot_at s)(unat w := \<lparr>generation = generation (slot_at s (unat w)) + 1, inner = Some f\<rparr>)"
    "slots_ok t" by (rule spawn_Inr[OF assms(1,2)]) 
  have idx: "slot_of h = w" unfolding w(1) by (rule slot_of_handle[OF w(2)])
  let ?g = "generation (slot_at s (unat w))"
  have "unat (?g + 1) = unat ?g + 1" using assms(4) by (simp add: idx unat_word_ariths)
  moreover have "unat (gen_of h + 1) \<le> 2 ^ 32"
    using gen_of_bound[of h] by (simp add: unat_word_ariths)
  ultimately have "?g + 1 \<noteq> gen_of h" "?g + 1 \<noteq> gen_of h + 1"
    using assms(3) gen_of_bound[of h] by (auto simp: idx)
  then have none: "task_of t h = None" by (simp add: task_of_def idx w(3))
  have "inner (slot_at t (unat w)) = Some f" by (simp add: w(3))
  then have "slots t \<noteq> None" by (intro slots_init[of t "unat w"]) simp
  then have "poll_task_safe P h cx t = Inr (True, t)"
    by (subst poll_task_safe_eq[OF w(4)]) (simp_all add: none)
  with \<open>inner (slot_at t (unat w)) = Some f\<close> show ?thesis by (simp add: idx)
qed

theorem spawn_worn_generation_lost_witness:
  "\<exists>(s :: (unit, nat) task_machine) h t. spawn 7 s = Inr (h, t) \<and> inner (slot_at t (unat (slot_of h))) = Some 7 \<and>
     poll_task_safe (\<lambda>f cx. return_p (Ready ())) h h t = Inr (True, t)"
proof -
  let ?s = "fresh_tasks\<lparr>slots := Some (replicate 1024 \<lparr>generation = 2 ^ 32, inner = None\<rparr>)\<rparr>"
  have at: "slot_at ?s i = \<lparr>generation = 2 ^ 32, inner = None\<rparr>" if "i < 1024" for i
    using that by (simp add: slot_at_def)
  have ok: "slots_ok ?s"
    using fresh_tasks_ok(1,2) at by (simp add: slots_ok_def)
  have "\<not> slots_full ?s" using at[of 0] by (auto simp: slots_full_iff intro!: exI[of _ 0])
  with spawn_spec[OF ok, of 7] obtain h t where t: "spawn 7 ?s = Inr (h, t)" by auto
  have "unat (generation (slot_at ?s (unat (slot_of h)))) = 2 ^ 32"
    using at[OF slot_of_bound] by simp
  with spawn_worn_generation_lost[OF ok t, of "\<lambda>f cx. return_p (Ready ())" h] t show ?thesis
    by (intro exI[of _ ?s] exI[of _ h] exI[of _ t]) simp
qed

end
