(* ===== verification/Executor.thy ===== *)
theory Executor
  imports Tasks Runtime
begin

text \<open>
  The executor crate (src/crates/executor/lib.rs): the worker loop that takes scheduled handles and
  polls their tasks, waits for readiness when there are none, and the counter
  \<open>TASKS_REMAINING\<close>. Polling a future is the parameter \<open>P\<close>, as in theory Tasks. The
  worker loop never ends: it is given by its iterations.
\<close>

section \<open>The code\<close>

text \<open>\<open>Executor\<close> itself is a unit struct; its only state is the static counter.\<close>

record ('w, 'f) exec_machine = "('w, 'f) task_machine" +
  tasks_remaining :: usize

type_synonym ('w, 'f, 'z) poll_fun =
  "'f \<Rightarrow> waker \<Rightarrow> (('w, 'f, 'z) exec_machine_scheme, (unit, 'f) poll) prog"

definition enqueue_task :: "'f \<Rightarrow> (('w, 'f, 'z) exec_machine_scheme, unit) prog" where
  "enqueue_task task =
     bind_p (spawn task) (\<lambda>_.
     modify_p (\<lambda>s. s\<lparr>tasks_remaining := tasks_remaining s + 1\<rparr>))"

text \<open>One iteration of the worker loop; \<open>fuel\<close> bounds the reaping of children in \<open>ppoll_and_schedule\<close>.\<close>

definition worker_step ::
    "'w kernel \<Rightarrow> ('w, 'f, 'z) poll_fun \<Rightarrow> nat \<Rightarrow> (('w, 'f, 'z) exec_machine_scheme, unit) prog" where
  "worker_step K P fuel =
     bind_p take_scheduled_task (\<lambda>next_task.
     case next_task of
       Some handle \<Rightarrow>
         let waker = create_waker handle
         in bind_p (poll_task_safe P handle waker) (\<lambda>ready.
            bind_p (if ready then modify_p (\<lambda>s. s\<lparr>tasks_remaining := tasks_remaining s - 1\<rparr>) else return_p ()) (\<lambda>_.
            drop_waker waker))
     | None \<Rightarrow> ppoll_and_schedule K fuel)"

fun worker_loop ::
    "'w kernel \<Rightarrow> ('w, 'f, 'z) poll_fun \<Rightarrow> nat \<Rightarrow> nat \<Rightarrow> (('w, 'f, 'z) exec_machine_scheme, unit) prog" where
  "worker_loop K P fuel 0 = return_p ()"
| "worker_loop K P fuel (Suc n) = bind_p (worker_step K P fuel) (\<lambda>_. worker_loop K P fuel n)"

text \<open>\<open>for _ in 0..num_workers\<close>; a thread that cannot be created is passed over.\<close>

fun spawn_workers ::
    "'w kernel \<Rightarrow> ('w, 'f, 'z) poll_fun \<Rightarrow> nat \<Rightarrow> nat \<Rightarrow> nat \<Rightarrow> (('w, 'f, 'z) exec_machine_scheme, unit) prog" where
  "spawn_workers K P fuel n 0 = return_p ()"
| "spawn_workers K P fuel n (Suc k) =
     bind_p (spawn_thread K (worker_loop K P fuel n) WORKER_STACK_SIZE) (\<lambda>_. spawn_workers K P fuel n k)"

definition start_workers ::
    "'w kernel \<Rightarrow> ('w, 'f, 'z) poll_fun \<Rightarrow> nat \<Rightarrow> nat \<Rightarrow> usize \<Rightarrow> (('w, 'f, 'z) exec_machine_scheme, unit) prog" where
  "start_workers K P fuel n num_workers =
     bind_p (spawn_workers K P fuel n (unat num_workers)) (\<lambda>_. worker_loop K P fuel n)"

text \<open>\<open>wait_all\<close> spins on the counter; \<open>n\<close> bounds the loads.\<close>

fun wait_all :: "nat \<Rightarrow> (('w, 'f, 'z) exec_machine_scheme, unit) prog" where
  "wait_all 0 = raise_p Out_Of_Fuel"
| "wait_all (Suc n) =
     bind_p (get_p tasks_remaining) (\<lambda>r. if r \<noteq> 0 then wait_all n else return_p ())"

section \<open>What an iteration does\<close>

lemma take_keeps_slots:
  assumes "take_scheduled_task s = Inr (a, t)"
  shows "slots t = slots s" "free_slots t = free_slots s" "next_slot t = next_slot s" "tasks_remaining t = tasks_remaining s"
proof -
  have "sched_machine.more t = sched_machine.more s"
    using keepsD[OF keeps_take assms] by (simp add: beyond_sched_def)
  then show "slots t = slots s" "free_slots t = free_slots s" "next_slot t = next_slot s" "tasks_remaining t = tasks_remaining s"
    by (cases s; cases t; simp)+
qed

lemma slot_at_cong: "slots t = slots s \<Longrightarrow> slot_at t = slot_at s"
  by (simp add: slot_at_def fun_eq_iff)

lemma slots_ok_eq:
  assumes "slots t = slots s" "free_slots t = free_slots s" "next_slot t = next_slot s"
  shows "slots_ok t = slots_ok s"
  unfolding slots_ok_def slot_at_cong[OF assms(1)] assms by simp

text \<open>An iteration with work: the handle woken last is polled, nothing else is taken.\<close>

lemma bind_drop_waker: "bind_p m (\<lambda>_. drop_waker h) = m"
  by (auto simp: fun_eq_iff bind_p_def drop_waker_def split: sum.splits)

lemma worker_takes:
  fixes s :: "('w, 'f, 'z) exec_machine_scheme"
  assumes "mmap_ok K" and "sched_rep s (h # hs)"
  obtains t where "take_scheduled_task s = Inr (Some h, t)" and "sched_rep t hs"
    and "worker_step K P fuel s =
      bind_p (poll_task_safe P h h) (\<lambda>ready.
        if ready then modify_p (\<lambda>s. s\<lparr>tasks_remaining := tasks_remaining s - 1\<rparr>) else return_p ()) t"
proof -
  obtain t where t: "take_scheduled_task s = Inr (Some h, t)" "sched_rep t hs"
    using lifo.pop_Cons[of K s h hs] assms by blast
  then show thesis by (intro that[of t]) (simp_all add: worker_step_def create_waker_def bind_drop_waker)
qed

lemma wait_all_spins: "tasks_remaining s \<noteq> 0 \<Longrightarrow> wait_all n s = Inl (Out_Of_Fuel, s)"
  by (induction n) (simp_all add: raise_p_def)

section \<open>Properties\<close>

text \<open>
  C15: The last task woken runs next. With handles on the schedule an iteration of a worker
  takes exactly the one woken last and polls the task it stands for, with a waker for that handle:
  a finished task leaves its slot and is counted down, a pending one is kept in its new state, and
  the other handles stay scheduled as far as the task itself leaves them there.
\<close>

theorem worker_polls_last_woken:
  assumes "mmap_ok K" and "sched_rep s (h # hs)" and "slots_ok s" and "task_of s h = Some f"
    and "\<forall>u. slots u = slots s \<longrightarrow> slots_ok u \<longrightarrow> (\<forall>r t. P f h u = Inr (r, t) \<longrightarrow> slots_grow u t)"
  shows "\<exists>t. take_scheduled_task s = Inr (Some h, t) \<and> sched_rep t hs \<and>
    worker_step K P fuel s =
      (case P f h t of
         Inl e \<Rightarrow> Inl e
       | Inr (Ready _, u) \<Rightarrow> Inr ((), (finish_task h u)\<lparr>tasks_remaining := tasks_remaining u - 1\<rparr>)
       | Inr (Pending f', u) \<Rightarrow> Inr ((), keep_task h f' u))"
proof -
  obtain t where t: "take_scheduled_task s = Inr (Some h, t)" "sched_rep t hs"
    "worker_step K P fuel s =
      bind_p (poll_task_safe P h h) (\<lambda>ready.
        if ready then modify_p (\<lambda>s. s\<lparr>tasks_remaining := tasks_remaining s - 1\<rparr>) else return_p ()) t"
    by (rule worker_takes[OF assms(1,2)])
  note same = take_keeps_slots[OF t(1)]
  have ok: "slots_ok t" using assms(3) slots_ok_eq[OF same(1-3)] by simp
  have f: "task_of t h = Some f" using assms(4) slot_at_cong[OF same(1)] by (simp add: task_of_def)
  obtain v where v: "slots t = Some v" by (rule task_ofE[OF ok f])
  have fin: "tasks_remaining (finish_task h u) = tasks_remaining u" for u :: "('w, 'f, 'z) exec_machine_scheme"
    by (simp add: finish_task_def split: option.splits)
  have "poll_task_safe P h h t =
    (case task_of t h of
       None \<Rightarrow> Inr (True, t)
     | Some f \<Rightarrow> (case P f h t of
         Inl e \<Rightarrow> Inl e
       | Inr (Ready _, u) \<Rightarrow> Inr (True, finish_task h u)
       | Inr (Pending f', u) \<Rightarrow> Inr (False, keep_task h f' u)))"
    by (rule poll_task_safe_eq[OF ok]) (use v f assms(5) same(1) ok in auto)
  then show ?thesis
    using t f by (intro exI[of _ t]) (auto simp: bind_p_def fin split: sum.splits prod.splits poll.splits)
qed

text \<open>A machine with handle 0 scheduled, and slot 0 holding \<open>task\<close> if there is one.\<close>

definition one_exec :: "nat option \<Rightarrow> (unit, nat) exec_machine" where
  "one_exec task = \<lparr>kst = (), calls = [], mem = Map.empty, heap_start = 0x10000, heap_cur = 0x10010,
     heap_end = 0x10000 + HEAP_SIZE, log_fd = 1, io_reg = [], eventfd = -1, event_pending = 0,
     nodes = [0x10000 \<mapsto> \<lparr>n_handle = 0, n_next = 0\<rparr>], sched_head = 0x10000, free_head = 0, free_count = 0,
     slots = Some (\<lparr>generation = 1, inner = task\<rparr> # replicate 1023 new_slot),
     free_slots = (if task = None then [0] else []), next_slot = 1, tasks_remaining = 0\<rparr>"

lemma one_exec_sched: "sched_rep (one_exec task) [0]"
proof -
  have "sched_shape (one_exec task) [0x10000] []"
    by (simp add: sched_shape_def one_exec_def heap_ok_def HEAP_SIZE_def)
  moreover have "map (handle_at (nodes (one_exec task))) [0x10000] = [0]"
    by (simp add: one_exec_def handle_at_def)
  ultimately show ?thesis unfolding sched_rep_def by (intro exI conjI)
qed

lemma one_exec_slots: "slots_ok (one_exec task)" "task_of (one_exec task) 0 = task" "slots (one_exec task) \<noteq> None"
proof -
  have at: "slot_at (one_exec task) i = (if i = 0 then \<lparr>generation = 1, inner = task\<rparr> else new_slot)" if "i < 1024" for i
    using that by (cases i) (simp_all add: slot_at_def one_exec_def)
  then show "slots_ok (one_exec task)" by (auto simp: slots_ok_def new_slot_def) (auto simp: one_exec_def)
  show "task_of (one_exec task) 0 = task" using at[of 0] by (simp add: task_of_def)
  show "slots (one_exec task) \<noteq> None" by (simp add: one_exec_def)
qed

theorem worker_polls_last_woken_witness:
  "\<exists>t. take_scheduled_task (one_exec (Some 7)) = Inr (Some 0, t) \<and> sched_rep t [] \<and>
     worker_step (one_map_kernel 0x10000) (\<lambda>f cx. return_p (Pending (f + 1))) 0 (one_exec (Some 7)) =
       Inr ((), keep_task 0 8 t)"
  using worker_polls_last_woken[OF one_map_kernel_ok[of "0x10000"] one_exec_sched one_exec_slots(1,2),
      of 7 "\<lambda>f cx. return_p (Pending (f + 1))" 0]
  by (simp add: slots_grow_refl)

text \<open>
  C31: The counter of remaining tasks is not one. A scheduled handle that stands for no task
  any more (it was woken twice, or its task has finished) is reported ready and counted down all the same:
  with the counter at 0, where tasks spawned by \<open>spawn_task\<close> leave it, it wraps to
  \<open>2^64 - 1\<close>, and \<open>wait_all\<close> then spins for ever.
\<close>

theorem stale_wake_wraps_counter:
  assumes "mmap_ok K" and "sched_rep s (h # hs)" and "slots_ok s" and "slots s \<noteq> None" and "task_of s h = None"
    and "tasks_remaining s = 0"
  shows "\<exists>t. worker_step K P fuel s = Inr ((), t) \<and> unat (tasks_remaining t) = 2 ^ 64 - 1 \<and> sched_rep t hs \<and>
    (\<forall>n. wait_all n t = Inl (Out_Of_Fuel, t))"
proof -
  obtain t where t: "take_scheduled_task s = Inr (Some h, t)" "sched_rep t hs"
    "worker_step K P fuel s =
      bind_p (poll_task_safe P h h) (\<lambda>ready.
        if ready then modify_p (\<lambda>s. s\<lparr>tasks_remaining := tasks_remaining s - 1\<rparr>) else return_p ()) t"
    by (rule worker_takes[OF assms(1,2)])
  note same = take_keeps_slots[OF t(1)]
  have ok: "slots_ok t" "slots t \<noteq> None" using assms(3,4) slots_ok_eq[OF same(1-3)] same(1) by simp_all
  have f: "task_of t h = None" using assms(5) slot_at_cong[OF same(1)] by (simp add: task_of_def)
  let ?u = "t\<lparr>tasks_remaining := -1\<rparr>"
  have "poll_task_safe P h h t = Inr (True, t)"
    using poll_task_safe_eq[OF ok, of h P h] f by simp
  then have run: "worker_step K P fuel s = Inr ((), ?u)"
    using t(3) same(4) assms(6) by simp
  have "sched_rep ?u = sched_rep t" by (rule ext, rule sched_shape_cong(2)) (simp_all add: heap_ok_def)
  moreover have "unat (-1 :: usize) = 2 ^ 64 - 1" by (simp add: unsigned_minus_1_eq_mask mask_eq_exp_minus_1)
  ultimately show ?thesis using run t(2) wait_all_spins[of ?u] by (intro exI[of _ ?u]) simp
qed

theorem stale_wake_wraps_counter_witness:
  "\<exists>t. worker_step (one_map_kernel 0x10000) (\<lambda>f cx. return_p (Ready ())) 0 (one_exec None) = Inr ((), t) \<and>
     unat (tasks_remaining t) = 2 ^ 64 - 1 \<and> sched_rep t [] \<and> (\<forall>n. wait_all n t = Inl (Out_Of_Fuel, t))"
  by (rule stale_wake_wraps_counter[OF one_map_kernel_ok[of "0x10000"] one_exec_sched one_exec_slots(1,3,2)])
    (simp_all add: one_exec_def)

end
