(* ===== verification/Server.thy ===== *)
theory Server
  imports Contracts Executor
begin

text \<open>
  The program (src/src/main.rs): the listening socket, the accept loop, the entry point, and the
  tasks the executor runs. A task is the accept loop or a connection, each a future not yet polled
  or at one of its awaits. The safety theorem composes the schedule, the slot table, the registry,
  the leaf futures and the connection tasks under the worker loop.
\<close>

section \<open>Tasks\<close>

datatype task =
    Accept_Loop i32
  | Accepting i32 accept_future
  | Handle_Http i32
  | Serving http_state

section \<open>The code\<close>

definition write_out :: "'w kernel \<Rightarrow> string \<Rightarrow> (('w, 'z) machine_scheme, unit) prog" where
  "write_out K s = ignore_p (sys_write K 1 (str s))"

text \<open>The little-endian bytes of an integer and the C layout of \<open>SockAddrIn\<close> (16 bytes).\<close>

definition le_bytes :: "nat \<Rightarrow> 'a::len word \<Rightarrow> bytes" where
  "le_bytes n w = map (\<lambda>i. ucast (drop_bit (8 * i) w)) [0..<n]"

definition sock_addr_bytes :: "sock_addr_in \<Rightarrow> bytes" where
  "sock_addr_bytes a =
     le_bytes 2 (sin_family a) @ le_bytes 2 (sin_port a) @ le_bytes 4 (sin_addr a) @ sin_zero a"

definition create_listening_socket :: "'w kernel \<Rightarrow> u32 \<Rightarrow> usize \<Rightarrow> (('w, 'z) machine_scheme, i32 option) prog" where
  "create_listening_socket K ip port =
     bind_p (socket K AF_INET SOCK_STREAM 0) (\<lambda>sfd.
     if neg sfd then return_p None
     else bind_p (setsockopt K sfd SOL_SOCKET SO_REUSEADDR (le_bytes 4 (1 :: i32)) 4) (\<lambda>_.
     let addr = \<lparr>sin_family = ucast AF_INET, sin_port = htons (ucast port), sin_addr = ip, sin_zero = replicate 8 0\<rparr>
     in bind_p (bind_call K sfd (sock_addr_bytes addr) 16) (\<lambda>bind_result.
     if neg bind_result then bind_p (close K sfd) (\<lambda>_. return_p None)
     else bind_p (listen K sfd LISTEN_BACKLOG) (\<lambda>listen_result.
     if neg listen_result then bind_p (close K sfd) (\<lambda>_. return_p None)
     else return_p (Some sfd)))))"

text \<open>The head of the accept loop, and what it does with what \<open>accept\<close> returned.\<close>

definition accept_next :: "'w kernel \<Rightarrow> i32 \<Rightarrow> (('w, 'z) io_machine_scheme, accept_future) prog" where
  "accept_next K sfd =
     bind_p (log_write K (str ''[ACCEPT_LOOP] calling AcceptFuture\<newline>'')) (\<lambda>_.
     return_p (accept_new sfd))"

definition log_isize :: "'w kernel \<Rightarrow> i64 \<Rightarrow> (('w, 'z) io_machine_scheme, unit) prog" where
  "log_isize K n = bind_p (get_p log_fd) (\<lambda>fd. write_isize K fd n)"

definition accepted :: "'w kernel \<Rightarrow> isize \<Rightarrow> (('w, task, 'z) exec_machine_scheme, unit) prog" where
  "accepted K cfd =
     bind_p (seqs [log_write K (str ''[ACCEPT_LOOP] got cfd=''), log_isize K cfd, log_write K (str ''\<newline>'')]) (\<lambda>_.
     if neg cfd then log_write K (str ''[ACCEPT_LOOP] error, continuing\<newline>'')
     else bind_p (fcntl K (ucast cfd) F_SETFL O_NONBLOCK) (\<lambda>_.
          bind_p (seqs [log_write K (str ''[ACCEPT] fd=''), log_usize K cfd, log_write K (str ''\<newline>'')]) (\<lambda>_.
          bind_p (spawn_task K (Handle_Http (ucast cfd))) (\<lambda>handle.
          bind_p (seqs [log_write K (str ''[ACCEPT] spawned handler, handle=''), log_usize K handle,
                        log_write K (str ''\<newline>''), log_write K (str ''[ACCEPT] before wake_handle\<newline>'')]) (\<lambda>_.
          bind_p (wake_handle K handle) (\<lambda>_.
          log_write K (str ''[ACCEPT] after wake_handle, loop continue\<newline>'')))))))"

text \<open>One poll of the accept loop runs while connections are waiting, at most \<open>n\<close> of them.\<close>

fun accept_loop :: "'w kernel \<Rightarrow> nat \<Rightarrow> i32 \<Rightarrow> accept_future \<Rightarrow> waker \<Rightarrow>
    (('w, task, 'z) exec_machine_scheme, (unit, task) poll) prog" where
  "accept_loop K 0 sfd f cx = raise_p Out_Of_Fuel"
| "accept_loop K (Suc n) sfd f cx =
     bind_p (poll_accept K f cx) (\<lambda>p.
     case p of
       Pending f \<Rightarrow> return_p (Pending (Accepting sfd f))
     | Ready cfd \<Rightarrow>
         bind_p (accepted K cfd) (\<lambda>_.
         bind_p (accept_next K sfd) (\<lambda>f.
         accept_loop K n sfd f cx)))"

text \<open>One poll of a connection: await after await while their futures are ready, at most \<open>n\<close> of them.\<close>

fun poll_http :: "'w kernel \<Rightarrow> nat \<Rightarrow> http_state \<Rightarrow> waker \<Rightarrow> (('w, 'z) io_machine_scheme, (unit, http_state) poll) prog" where
  "poll_http K 0 st cx = raise_p Out_Of_Fuel"
| "poll_http K (Suc n) st cx =
     bind_p (http_step K st cx) (\<lambda>p. case p of
       Pending st \<Rightarrow> return_p (Pending st)
     | Ready None \<Rightarrow> return_p (Ready ())
     | Ready (Some st) \<Rightarrow> poll_http K n st cx)"

definition poll_conn :: "'w kernel \<Rightarrow> nat \<Rightarrow> http_state \<Rightarrow> waker \<Rightarrow> (('w, 'z) io_machine_scheme, (unit, task) poll) prog" where
  "poll_conn K n st cx =
     bind_p (poll_http K n st cx) (\<lambda>p. case p of
       Pending st \<Rightarrow> return_p (Pending (Serving st))
     | Ready _ \<Rightarrow> return_p (Ready ()))"

fun poll_task :: "'w kernel \<Rightarrow> nat \<Rightarrow> ('w, task, 'z) poll_fun" where
  "poll_task K n (Accept_Loop sfd) cx = bind_p (accept_next K sfd) (\<lambda>f. accept_loop K n sfd f cx)"
| "poll_task K n (Accepting sfd f) cx = accept_loop K n sfd f cx"
| "poll_task K n (Handle_Http fd) cx = bind_p (http_start K fd) (\<lambda>st. poll_conn K n st cx)"
| "poll_task K n (Serving st) cx = poll_conn K n st cx"

text \<open>
  The entry point: \<open>fuel\<close> bounds one poll and one round of reaping, \<open>n\<close> the
  iterations of a worker.
\<close>

definition main :: "'w kernel \<Rightarrow> nat \<Rightarrow> nat \<Rightarrow> usize \<Rightarrow> u32 \<Rightarrow> usize \<Rightarrow> (('w, task, 'z) exec_machine_scheme, unit) prog" where
  "main K fuel n worker_count listen_ip listen_port =
     bind_p (open_file K LOG_FILE_PATH (O_WRONLY OR O_CREAT OR O_TRUNC) 420) (\<lambda>logfd.
     bind_p (if \<not> neg logfd then modify_p (\<lambda>s. s\<lparr>log_fd := logfd\<rparr>) else return_p ()) (\<lambda>_.
     bind_p (seqs [write_out K ''Async NoStd Server\<newline>'', write_out K ''Workers: '', write_usize K 1 worker_count,
                   write_out K '' | Port: '', write_usize K 1 listen_port,
                   write_out K '' | Log: /tmp/async-nostd.log\<newline>'']) (\<lambda>_.
     bind_p (create_listening_socket K listen_ip listen_port) (\<lambda>r.
     case r of
       None \<Rightarrow> sys_exit K 1
     | Some sfd \<Rightarrow>
         bind_p (fcntl K sfd F_SETFL O_NONBLOCK) (\<lambda>_.
         bind_p (spawn_task K (Accept_Loop sfd)) (\<lambda>_.
         start_workers K (poll_task K fuel) fuel n worker_count))))))"

section \<open>The invariant of the server\<close>

text \<open>The schedule is a well-formed stack, the registry has one entry per descriptor, the slot table is consistent.\<close>

definition server_ok :: "'w kernel \<Rightarrow> ('w, 'f, 'z) task_machine_scheme \<Rightarrow> bool" where
  "server_ok K s \<longleftrightarrow> mmap_ok K \<and> (\<exists>hs. sched_rep s hs) \<and> reg_ok (io_reg s) \<and> slots_ok s"

text \<open>What polling a task guarantees to the others: their slots are as they were.\<close>

definition grows :: "('w, 'f, 'z) task_machine_scheme \<Rightarrow> ('w, 'f, 'z) task_machine_scheme \<Rightarrow> bool" where
  "grows s t \<longleftrightarrow> (\<forall>i. inner (slot_at s i) \<noteq> None \<longrightarrow> slot_at t i = slot_at s i) \<and> (slots s \<noteq> None \<longrightarrow> slots t \<noteq> None)"

definition server_faults :: "fault set" where
  "server_faults = {Slice_Out_Of_Range, Out_Of_Fuel, Alloc_Error, No_Free_Task_Slots}"

lemma server_faults_mem [simp]:
  "Out_Of_Fuel \<in> server_faults" "Alloc_Error \<in> server_faults" "No_Free_Task_Slots \<in> server_faults"
  by (simp_all add: server_faults_def)

lemma grows_rel [intro, simp]: "reflp grows" "transp grows"
  by (auto simp: reflp_def transp_def grows_def)

abbreviation sound :: "'w kernel \<Rightarrow> (('w, 'f, 'z) task_machine_scheme, 'a) prog \<Rightarrow> bool" where
  "sound K m \<equiv> upholds server_faults (server_ok K) grows m"

lemma slots_cong:
  assumes "slots t = slots s" "free_slots t = free_slots s" "next_slot t = next_slot s"
  shows "slots_ok t = slots_ok s" and "grows s t"
  by (simp_all add: slots_ok_eq[OF assms] grows_def slot_at_cong[OF assms(1)] assms)

lemma only_io_task:
  assumes "only_io s t"
  shows "sched_rep t = sched_rep s" "slots t = slots s" "free_slots t = free_slots s" "next_slot t = next_slot s"
proof -
  have more: "io_machine.more t = io_machine.more s" using assms by (simp add: only_io_def)
  then show "slots t = slots s" "free_slots t = free_slots s" "next_slot t = next_slot s"
    by (cases s; cases t; simp)+
  have "nodes t = nodes s" "sched_head t = sched_head s" "free_head t = free_head s" "free_count t = free_count s"
    using more by (cases s; cases t; simp)+
  moreover have "heap_cur t = heap_cur s" "heap_ok t = heap_ok s"
    using assms by (simp_all add: only_io_def heap_ok_def)
  ultimately show "sched_rep t = sched_rep s" by (intro ext[of "sched_rep t"] sched_shape_cong(2))
qed

lemma sound_tame:
  fixes m :: "(('w, 'f, 'z) task_machine_scheme, 'a) prog"
  assumes "tame m"
  shows "sound K m"
proof (rule upholdsI)
  fix s :: "('w, 'f, 'z) task_machine_scheme"
  assume s: "server_ok K s"
  then have "reg_inv s" by (simp add: server_ok_def)
  with assms show "(\<exists>a t. m s = Inr (a, t) \<and> server_ok K t \<and> grows s t) \<or> (\<exists>e t. m s = Inl (e, t) \<and> e \<in> server_faults)"
  proof (cases rule: upholdsE)
    case (ret a t)
    have "server_ok K t \<and> grows s t"
      using slots_cong[OF only_io_task(2-4)[OF ret(3)]] only_io_task(1)[OF ret(3)] s ret(2)
      unfolding server_ok_def by presburger
    with ret(1) show ?thesis by blast
  next
    case (fault e t)
    then show ?thesis by (auto simp: conn_faults_def server_faults_def)
  qed
qed

lemma sound_wake [upholds_intros]: "sound K (wake_handle K h :: (('w, 'f, 'z) task_machine_scheme, unit) prog)"
proof (rule upholdsI)
  fix s :: "('w, 'f, 'z) task_machine_scheme"
  assume s: "server_ok K s"
  then obtain hs where hs: "mmap_ok K \<and> sched_rep s hs" by (auto simp: server_ok_def)
  have "server_ok K t \<and> grows s t" if t: "wake_handle K h s = Inr ((), t)" "sched_rep t (h # hs)" for t
  proof -
    have "beyond_sched t = beyond_sched s" using keepsD[OF keeps_wake_handle t(1)] .
    then have "io_reg t = io_reg s" and same: "slots t = slots s" "free_slots t = free_slots s" "next_slot t = next_slot s"
      by (cases s; cases t; simp add: beyond_sched_def)+
    with s t(2) slots_cong[OF same] show ?thesis unfolding server_ok_def by auto
  qed
  with lifo.push[OF hs, of h]
  show "(\<exists>a t. wake_handle K h s = Inr (a, t) \<and> server_ok K t \<and> grows s t) \<or>
      (\<exists>e t. wake_handle K h s = Inl (e, t) \<and> e \<in> server_faults)"
    using server_faults_mem(2) by blast
qed

lemma sched_rep_slots [simp]:
  "sched_rep (s\<lparr>slots := v\<rparr>) = sched_rep s"
  "sched_rep (s\<lparr>free_slots := fs\<rparr>) = sched_rep s"
  "sched_rep (s\<lparr>next_slot := n\<rparr>) = sched_rep s"
  by (rule ext, rule sched_shape_cong(2); simp add: heap_ok_def)+

lemma spawn_slots:
  assumes "slots_ok s" and "spawn f s = Inr (h, t)"
  shows "slots t \<noteq> None"
proof (rule spawn_Inr[OF assms])
  fix w assume "slot_at t = (slot_at s)(unat w := \<lparr>generation = generation (slot_at s (unat w)) + 1, inner = Some f\<rparr>)"
  then show ?thesis by (intro slots_init[of t "unat w"]) simp
qed

lemma sound_spawn [upholds_intros]: "sound K (spawn f :: (('w, 'f, 'z) task_machine_scheme, usize) prog)"
proof (rule upholdsI)
  fix s :: "('w, 'f, 'z) task_machine_scheme"
  assume s: "server_ok K s"
  then have ok: "slots_ok s" by (simp add: server_ok_def)
  show "(\<exists>a t. spawn f s = Inr (a, t) \<and> server_ok K t \<and> grows s t) \<or> (\<exists>e t. spawn f s = Inl (e, t) \<and> e \<in> server_faults)"
  proof (cases "slots_full s")
    case True
    then show ?thesis using spawn_spec[OF ok, of f] by auto
  next
    case False
    then obtain h t where t: "spawn f s = Inr (h, t)" using spawn_spec[OF ok, of f] by auto
    have same: "t = s\<lparr>slots := slots t, free_slots := free_slots t, next_slot := next_slot t\<rparr>"
      by (rule spawn_Inr[OF ok t])
    have grow: "slots_grow s t" by (rule slots_grow_spawn[OF ok t])
    have "sched_rep t = sched_rep s" "io_reg t = io_reg s" by (subst same, simp)+
    then have "server_ok K t \<and> grows s t"
      using s grow spawn_slots[OF ok t] by (simp add: server_ok_def slots_grow_def grows_def)
    with t show ?thesis by blast
  qed
qed

lemmas sound_calls [upholds_intros] =
  tame_calls[THEN sound_tame] tame_log_line[THEN sound_tame] tame_polls[THEN sound_tame]
  tame_http_step[THEN sound_tame]

lemma sound_spawn_task [upholds_intros]: "sound K (spawn_task K f)"
  unfolding spawn_task_def by (intro upholds_intros) auto

lemma sound_log_isize [upholds_intros]: "sound K (log_isize K n)"
  unfolding log_isize_def by (intro upholds_intros sound_tame tame_kernel quiet_write_isize) auto

lemma sound_accepted [upholds_intros]: "sound K (accepted K cfd)"
  unfolding accepted_def by (intro upholds_intros) (auto intro: upholds_intros)

lemma sound_accept_next [upholds_intros]: "sound K (accept_next K sfd)"
  unfolding accept_next_def by (intro upholds_intros) auto

lemma sound_accept_loop [upholds_intros]: "sound K (accept_loop K n sfd f cx)"
  by (induction n arbitrary: f) (auto intro!: upholds_intros)

lemma sound_poll_conn [upholds_intros]: "sound K (poll_conn K n st cx)"
proof -
  have "sound K (poll_http K n st cx)" for n
    by (induction n arbitrary: st) (auto intro!: upholds_intros)
  then show ?thesis unfolding poll_conn_def by (intro upholds_intros) auto
qed

lemma sound_poll_task: "sound K (poll_task K n task cx)"
  by (cases task) (auto intro!: upholds_intros simp: http_start_def)

section \<open>The worker\<close>

definition running :: "'w kernel \<Rightarrow> ('w, 'f, 'z) task_machine_scheme \<Rightarrow> bool" where
  "running K s \<longleftrightarrow> server_ok K s \<and> slots s \<noteq> None"

lemma server_ok_slots:
  assumes "server_ok K t" and "sched_rep u = sched_rep t" and "io_reg u = io_reg t" and "slots_ok u"
  shows "server_ok K u"
  using assms by (simp add: server_ok_def)

lemma poll_task_safe_running:
  fixes P :: "'f \<Rightarrow> waker \<Rightarrow> (('w, 'f, 'z) task_machine_scheme, (unit, 'f) poll) prog"
  assumes P: "\<And>f. sound K (P f cx)"
  shows "upholds server_faults (running K) (\<lambda>_ _. True) (poll_task_safe P h cx)"
proof (rule upholdsI)
  fix s :: "('w, 'f, 'z) task_machine_scheme"
  assume r: "running K s"
  then have ok: "slots_ok s" "slots s \<noteq> None" and s: "server_ok K s" by (simp_all add: running_def server_ok_def)
  have grow: "slots_grow s t \<and> server_ok K t \<and> slots t \<noteq> None" if "P f cx s = Inr (r, t)" for f r t
    using P[of f] s by (cases rule: upholdsE) (use that ok in \<open>auto simp: slots_grow_def grows_def server_ok_def\<close>)
  have fault: "e \<in> server_faults" if "P f cx s = Inl (e, t)" for f e t
    using P[of f] s by (cases rule: upholdsE) (use that in auto)
  have eq: "poll_task_safe P h cx s =
    (case task_of s h of
       None \<Rightarrow> Inr (True, s)
     | Some f \<Rightarrow> (case P f cx s of
         Inl e \<Rightarrow> Inl e
       | Inr (Ready _, t) \<Rightarrow> Inr (True, finish_task h t)
       | Inr (Pending f', t) \<Rightarrow> Inr (False, keep_task h f' t)))"
    by (rule poll_task_safe_eq[OF ok]) (use grow in blast)
  have "running K (finish_task h t) \<and> running K (keep_task h f' t)"
    if f: "task_of s h = Some f" "P f cx s = Inr (r, t)" for f r t f'
  proof -
    have t: "slots_ok t" "task_of t h = Some f" "server_ok K t"
      using grow[OF f(2)] task_of_grow[OF _ f(1)] by (auto simp: slots_grow_def)
    obtain v where v: "slots t = Some v" by (rule task_ofE[OF t(1,2)])
    show ?thesis
      using finish_task_spec(1)[OF t(1,2)] keep_task_spec(1)[OF t(1,2), of f'] v
        server_ok_slots[OF t(3), of "finish_task h t"] server_ok_slots[OF t(3), of "keep_task h f' t"]
      by (simp add: running_def finish_task_def keep_task_def)
  qed
  with eq r fault show "(\<exists>a t. poll_task_safe P h cx s = Inr (a, t) \<and> running K t \<and> True) \<or>
      (\<exists>e t. poll_task_safe P h cx s = Inl (e, t) \<and> e \<in> server_faults)"
    by (auto split: option.splits sum.splits poll.splits)
qed

abbreviation stays :: "fault set \<Rightarrow> 'w kernel \<Rightarrow> (('w, 'f, 'z) task_machine_scheme, 'a) prog \<Rightarrow> bool" where
  "stays F K m \<equiv> upholds F (running K) (\<lambda>_ _. True) m"

lemma true_rel [intro, simp]: "reflp (\<lambda>_ _. True)" "transp (\<lambda>_ _. True)"
  by (simp_all add: reflp_def transp_def)

lemma running_cong:
  fixes s t :: "('w, 'f, 'z) task_machine_scheme"
  assumes "running K s" and "sched_rep t = sched_rep s" and "io_reg t = io_reg s"
    and "slots t = slots s" "free_slots t = free_slots s" "next_slot t = next_slot s"
  shows "running K t"
  using assms(1-3) slots_cong(1)[OF assms(4-6)] assms(4) unfolding running_def server_ok_def by simp

lemma stays_kernel:
  assumes "quiet beyond_kernel m"
  shows "stays F K m"
proof (rule upholds_quiet[OF quiet_beyond_eventfd[OF assms]])
  fix s t :: "('a, 'b, 'c) task_machine_scheme"
  assume e: "beyond_eventfd t = beyond_eventfd s" and r: "running K s"
  have "only_io s t" using e by (simp add: only_io_def beyond_eventfd_def)
  from only_io_task[OF this] e show "running K t \<and> True"
    by (intro conjI running_cong[OF r]) (simp_all add: beyond_eventfd_def)
qed

lemma more_slots:
  assumes "sched_machine.more t = sched_machine.more s"
  shows "slots t = slots s" "free_slots t = free_slots s" "next_slot t = next_slot s"
  using assms by (cases s; cases t; simp)+

lemma take_running: "stays F K (take_scheduled_task :: (('w, 'f, 'z) task_machine_scheme, usize option) prog)"
proof (rule upholdsI)
  fix s :: "('w, 'f, 'z) task_machine_scheme"
  assume r: "running K s"
  then obtain hs where hs: "mmap_ok K \<and> sched_rep s hs" by (auto simp: running_def server_ok_def)
  have "\<exists>a t hs'. take_scheduled_task s = Inr (a, t) \<and> sched_rep t hs'"
    using lifo.pop_Nil[of K s] lifo.pop_Cons[of K s] hs by (cases hs) blast+
  then obtain a t hs' where t: "take_scheduled_task s = Inr (a, t)" "sched_rep t hs'" by blast
  have b: "beyond_sched t = beyond_sched s" using keepsD[OF keeps_take t(1)] .
  then have same: "slots t = slots s" "free_slots t = free_slots s" "next_slot t = next_slot s"
    by (auto simp: beyond_sched_def intro: more_slots)
  have "running K t"
    using r t(2) b slots_cong(1)[OF same] same unfolding running_def server_ok_def beyond_sched_def by auto
  with t(1) show "(\<exists>a t. take_scheduled_task s = Inr (a, t) \<and> running K t \<and> True) \<or>
      (\<exists>e t. take_scheduled_task s = Inl (e, t) \<and> e \<in> F)" by blast
qed

lemma ppoll_running: "stays server_faults K (ppoll_and_schedule K n :: (('w, 'f, 'z) task_machine_scheme, unit) prog)"
proof (rule upholdsI)
  fix s :: "('w, 'f, 'z) task_machine_scheme"
  assume r: "running K s"
  then obtain hs where hs: "mmap_ok K" "sched_rep s hs" "reg_ok (io_reg s)" by (auto simp: running_def server_ok_def)
  have "running K t" if t: "ppoll_and_schedule K n s = Inr ((), t)" "reg_ok (io_reg t)" "sched_rep t hs'" for t hs'
  proof -
    have same: "slots t = slots s" "free_slots t = free_slots s" "next_slot t = next_slot s"
      using more_slots[OF keepsD[OF keeps_more_ppoll t(1)]] .
    show ?thesis using r t(2,3) slots_cong(1)[OF same] same unfolding running_def server_ok_def by auto
  qed
  moreover have "\<exists>t. ppoll_and_schedule K n s = Inl (Out_Of_Fuel, t)" if "\<not> reaps_within K n (kst s)"
    using reap_cut_off[OF that] by (auto simp: ppoll_and_schedule_def)
  ultimately show "(\<exists>a t. ppoll_and_schedule K n s = Inr (a, t) \<and> running K t \<and> True) \<or>
      (\<exists>e t. ppoll_and_schedule K n s = Inl (e, t) \<and> e \<in> server_faults)"
    using ppoll_round[OF hs, of n] server_faults_mem(1,2) by blast
qed

lemma worker_step_running:
  fixes P :: "('w, 'f, 'z) poll_fun"
  assumes "\<And>f cx. sound K (P f cx)"
  shows "stays server_faults K (worker_step K P n)"
proof -
  have dec: "stays server_faults K (modify_p (\<lambda>s. s\<lparr>tasks_remaining := tasks_remaining s - 1\<rparr>) ::
      (('w, 'f, 'z) exec_machine_scheme, unit) prog)"
  proof (rule upholdsI)
    fix s :: "('w, 'f, 'z) exec_machine_scheme"
    let ?t = "s\<lparr>tasks_remaining := tasks_remaining s - 1\<rparr>"
    assume r: "running K s"
    have "sched_rep ?t = sched_rep s" by (rule ext, rule sched_shape_cong(2)) (simp_all add: heap_ok_def)
    then have "running K ?t" by (intro running_cong[OF r]) simp_all
    then show "(\<exists>a t. modify_p (\<lambda>s. s\<lparr>tasks_remaining := tasks_remaining s - 1\<rparr>) s = Inr (a, t) \<and> running K t \<and> True) \<or>
        (\<exists>e t. modify_p (\<lambda>s. s\<lparr>tasks_remaining := tasks_remaining s - 1\<rparr>) s = Inl (e, t) \<and> e \<in> server_faults)" by simp
  qed
  show ?thesis
    unfolding worker_step_def drop_waker_def Let_def
    by (intro upholds_intros take_running ppoll_running poll_task_safe_running assms dec) auto
qed

lemma worker_loop_running:
  assumes "\<And>f cx. sound K (P f cx)"
  shows "stays server_faults K (worker_loop K P fuel n)"
proof (induction n)
  case 0
  show ?case unfolding worker_loop.simps by (intro upholds_intros) simp
next
  case (Suc n)
  show ?case unfolding worker_loop.simps by (intro upholds_intros worker_step_running assms Suc) simp
qed

section \<open>Start-up\<close>

definition main_faults :: "fault set" where
  "main_faults = server_faults \<union> {Exited 0, Exited 1}"

lemma main_faults_sub: "server_faults \<subseteq> main_faults"
  by (auto simp: main_faults_def)

lemma upholds_exit: "Exited c \<in> F \<Longrightarrow> transp G \<Longrightarrow> upholds F I G (syscall1 K 60 (reg_i32 c)) \<Longrightarrow> upholds F I G (sys_exit K c)"
  unfolding sys_exit_def by (intro upholds_intros)

lemma stays_syscall1: "stays F K (syscall1 K n a)"
  unfolding raw_syscalls by (intro stays_kernel quiet_intros)

lemma stays_mem: "stays F K (modify_p (\<lambda>s. s\<lparr>mem := f (mem s)\<rparr>) :: (('w, 'f, 'z) task_machine_scheme, unit) prog)"
proof (rule upholdsI)
  fix s :: "('w, 'f, 'z) task_machine_scheme"
  let ?t = "s\<lparr>mem := f (mem s)\<rparr>"
  assume r: "running K s"
  have "sched_rep ?t = sched_rep s" by (rule ext, rule sched_shape_cong(2)) (simp_all add: heap_ok_def)
  then have "running K ?t" by (intro running_cong[OF r]) simp_all
  then show "(\<exists>a t. modify_p (\<lambda>s. s\<lparr>mem := f (mem s)\<rparr>) s = Inr (a, t) \<and> running K t \<and> True) \<or>
      (\<exists>e t. modify_p (\<lambda>s. s\<lparr>mem := f (mem s)\<rparr>) s = Inl (e, t) \<and> e \<in> F)" by simp
qed

lemma spawn_thread_running:
  assumes "stays main_faults K f"
  shows "stays main_faults K (spawn_thread K f stack_size)"
proof -
  have clone: "stays main_faults K (clone K flags stack ptid ctid tls)" for flags stack ptid ctid tls
    unfolding clone_def ret_of_def raw_syscalls by (intro stays_kernel quiet_intros)
  have "Exited 0 \<in> main_faults" by (simp add: main_faults_def)
  then show ?thesis
    unfolding spawn_thread_def
    by (intro upholds_intros stays_kernel[OF quiet_syscalls(3)] clone stays_mem upholds_exit stays_syscall1 assms) simp_all
qed

lemma start_workers_running:
  assumes "\<And>f cx. sound K (P f cx)"
  shows "stays main_faults K (start_workers K P fuel n num)"
proof -
  note loop = worker_loop_running[OF assms, THEN upholds_faults, OF main_faults_sub]
  have "stays main_faults K (spawn_workers K P fuel n k)" for k
  proof (induction k)
    case 0
    show ?case unfolding spawn_workers.simps by (intro upholds_intros) simp
  next
    case (Suc k)
    show ?case unfolding spawn_workers.simps by (intro upholds_intros spawn_thread_running loop Suc) simp
  qed
  then show ?thesis unfolding start_workers_def by (intro upholds_intros loop) simp
qed

text \<open>From one invariant to another.\<close>

definition leads :: "fault set \<Rightarrow> ('s \<Rightarrow> bool) \<Rightarrow> ('s, 'a) prog \<Rightarrow> ('s \<Rightarrow> bool) \<Rightarrow> bool" where
  "leads F I m J \<longleftrightarrow> (\<forall>s. I s \<longrightarrow> (case m s of Inl (e, t) \<Rightarrow> e \<in> F | Inr (a, t) \<Rightarrow> J t))"

lemma leads_bind:
  assumes "leads F I m J" and "\<And>a. leads F J (g a) L"
  shows "leads F I (bind_p m g) L"
  unfolding leads_def
proof (intro allI impI)
  fix s assume "I s"
  with assms(1) have m: "case m s of Inl (e, t) \<Rightarrow> e \<in> F | Inr (a, t) \<Rightarrow> J t" by (simp add: leads_def)
  show "case bind_p m g s of Inl (e, t) \<Rightarrow> e \<in> F | Inr (a, t) \<Rightarrow> L t"
  proof (cases "m s")
    case (Inl et)
    then show ?thesis using m by (cases et) simp
  next
    case (Inr at)
    then show ?thesis using m assms(2) by (cases at) (simp add: leads_def)
  qed
qed

lemma leads_upholds: "upholds F I G m \<Longrightarrow> leads F I m I"
  unfolding leads_def by (fastforce elim: upholdsE)

lemma leads_sound: "sound K m \<Longrightarrow> leads main_faults (server_ok K) m (server_ok K)"
  by (rule leads_upholds[OF upholds_faults[OF _ main_faults_sub]])

lemma stays_sound:
  fixes m :: "(('w, 'f, 'z) task_machine_scheme, 'a) prog"
  assumes "sound K m"
  shows "stays server_faults K m"
proof (rule upholdsI)
  fix s :: "('w, 'f, 'z) task_machine_scheme"
  assume r: "running K s"
  then have "server_ok K s" by (simp add: running_def)
  with assms show "(\<exists>a t. m s = Inr (a, t) \<and> running K t \<and> True) \<or> (\<exists>e t. m s = Inl (e, t) \<and> e \<in> server_faults)"
    by (cases rule: upholdsE) (use r in \<open>auto simp: running_def grows_def\<close>)
qed

lemma leads_spawn:
  fixes K :: "'w kernel"
  shows "leads server_faults (server_ok K) (spawn f :: (('w, 'f, 'z) task_machine_scheme, usize) prog) (running K)"
  unfolding leads_def
proof (intro allI impI)
  fix s :: "('w, 'f, 'z) task_machine_scheme"
  assume s: "server_ok K s"
  then have ok: "slots_ok s" by (simp add: server_ok_def)
  show "case spawn f s of Inl (e, t) \<Rightarrow> e \<in> server_faults | Inr (h, t) \<Rightarrow> running K t"
  proof (rule upholdsE[OF sound_spawn s, of f])
    fix h t assume ret: "spawn f s = Inr (h, t)" "server_ok K t" "grows s t"
    then show ?thesis using spawn_slots[OF ok ret(1)] by (simp add: running_def)
  next
    fix e t assume "spawn f s = Inl (e, t)" "e \<in> server_faults"
    then show ?thesis by simp
  qed
qed

lemma leads_spawn_task: "leads server_faults (server_ok K) (spawn_task K f) (running K)"
  unfolding spawn_task_def
  by (intro leads_bind[OF leads_spawn] leads_bind[OF leads_upholds[OF stays_sound[OF sound_wake]]]
      leads_upholds[OF upholds_return[OF true_rel(1)]])

lemma leads_faults: "leads F I m J \<Longrightarrow> F \<subseteq> F' \<Longrightarrow> leads F' I m J"
  unfolding leads_def by (fastforce split: sum.splits prod.splits)

lemma sound_kernel: "quiet beyond_kernel m \<Longrightarrow> sound K m"
  by (intro sound_tame tame_kernel)

lemma sound_listen [upholds_intros]: "sound K (create_listening_socket K ip port)"
  unfolding create_listening_socket_def Let_def
  by (intro upholds_intros sound_kernel[OF quiet_syscalls(10)] sound_kernel[OF quiet_syscalls(11)]
      sound_kernel[OF quiet_syscalls(12)] sound_kernel[OF quiet_syscalls(13)]) simp_all

lemma sound_log_fd: "sound K (modify_p (\<lambda>s. s\<lparr>log_fd := fd\<rparr>) :: (('w, 'f, 'z) task_machine_scheme, unit) prog)"
proof (rule upholdsI)
  fix s :: "('w, 'f, 'z) task_machine_scheme"
  let ?t = "s\<lparr>log_fd := fd\<rparr>"
  assume s: "server_ok K s"
  have "sched_rep ?t = sched_rep s" by (rule ext, rule sched_shape_cong(2)) (simp_all add: heap_ok_def)
  moreover have "slots_ok ?t = slots_ok s" "grows s ?t" by (rule slots_cong; simp)+
  ultimately have "server_ok K ?t \<and> grows s ?t" using s by (simp add: server_ok_def)
  then show "(\<exists>a t. modify_p (\<lambda>s. s\<lparr>log_fd := fd\<rparr>) s = Inr (a, t) \<and> server_ok K t \<and> grows s t) \<or>
      (\<exists>e t. modify_p (\<lambda>s. s\<lparr>log_fd := fd\<rparr>) s = Inl (e, t) \<and> e \<in> server_faults)" by simp
qed

lemma leads_exit: "leads main_faults (server_ok K) (sys_exit K 1) J"
  by (simp add: leads_def sys_exit_def raw_syscalls do_syscall_def raise_p_def main_faults_def bind_p_def split: prod.splits)

lemma main_leads: "leads main_faults (server_ok K) (main K fuel n workers ip port) (running K)"
proof -
  have out: "sound K (write_out K msg)" for msg
    unfolding write_out_def by (intro upholds_intros) auto
  have num: "sound K (write_usize K fd v)" for fd v by (intro sound_kernel quiet_intros)
  have log: "sound K (if \<not> neg fd then modify_p (\<lambda>s. s\<lparr>log_fd := fd\<rparr>) else return_p ())" for fd
    by (intro upholds_intros sound_log_fd) simp
  have seq: "sound K (seqs [write_out K a, write_out K b, write_usize K fd v, write_out K c, write_usize K fd' v', write_out K d])"
    for a b c d fd v fd' v' by (intro upholds_intros) (auto intro: out num)
  have work: "leads main_faults (running K) (start_workers K (poll_task K fuel) fuel n workers) (running K)"
    by (rule leads_upholds[OF start_workers_running[OF sound_poll_task]])
  have serve: "leads main_faults (server_ok K)
      (bind_p (fcntl K sfd F_SETFL O_NONBLOCK) (\<lambda>_. bind_p (spawn_task K (Accept_Loop sfd)) (\<lambda>_.
         start_workers K (poll_task K fuel) fuel n workers))) (running K)" for sfd
    by (intro leads_bind[OF leads_sound[OF sound_calls(3)]] leads_bind[OF leads_faults[OF leads_spawn_task main_faults_sub]] work)
  show ?thesis
    unfolding main_def
    by (intro leads_bind[OF leads_sound[OF sound_kernel[OF quiet_syscalls(9)]]] leads_bind[OF leads_sound[OF log]]
        leads_bind[OF leads_sound[OF seq]] leads_bind[OF leads_sound[OF sound_listen]])
      (auto intro: leads_exit serve split: option.splits)
qed

section \<open>Accepting a connection\<close>

lemma kernel_same:
  assumes "quiet beyond_kernel m" and "m s = Inr (a, t)"
  shows "sched_rep t = sched_rep s" "slots t = slots s" "free_slots t = free_slots s" "next_slot t = next_slot s"
proof -
  have "beyond_eventfd t = beyond_eventfd s"
    using quietE[OF quiet_beyond_eventfd[OF assms(1)], of s] assms(2) by auto
  then have "only_io s t" by (simp add: only_io_def beyond_eventfd_def)
  from only_io_task[OF this] show "sched_rep t = sched_rep s" "slots t = slots s" "free_slots t = free_slots s" "next_slot t = next_slot s" .
qed

lemma task_of_cong: "slots t = slots s \<Longrightarrow> task_of t = task_of s"
  using slot_at_cong[of t s] by (simp add: task_of_def fun_eq_iff)

lemma wake_taskE:
  assumes "mmap_ok K" and "sched_rep s hs" and "wake_handle K h s = Inr ((), t)"
  shows "sched_rep t (h # hs)" and "slots t = slots s"
proof -
  from lifo.push[of K s hs h] assms show "sched_rep t (h # hs)" by auto
  have "beyond_sched t = beyond_sched s" using keepsD[OF keeps_wake_handle assms(3)] .
  then show "slots t = slots s" by (auto simp: beyond_sched_def intro: more_slots)
qed

lemma spawn_task_spec:
  assumes "mmap_ok K" and "sched_rep s hs" and "slots_ok s" and "\<not> worn_slots s"
    and "spawn_task K f s = Inr (h, t)"
  shows "sched_rep t (h # hs)" and "task_of s h = None" and "task_of t h = Some f"
proof -
  obtain u where u: "spawn f s = Inr (h, u)" "wake_handle K h u = Inr ((), t)"
    using assms(5) by (auto simp: spawn_task_def bind_p_eq_Inr)
  have same: "u = s\<lparr>slots := slots u, free_slots := free_slots u, next_slot := next_slot u\<rparr>"
    by (rule spawn_Inr[OF assms(3) u(1)])
  have "sched_rep u = sched_rep s" by (subst same) simp
  then have "sched_rep u hs" using assms(2) by simp
  note w = wake_taskE[OF assms(1) this u(2)]
  from arena.insert[OF assms(3) u(1) assms(4)] w show "sched_rep t (h # hs)" "task_of s h = None" "task_of t h = Some f"
    by (simp_all add: task_of_cong[OF w(2)])
qed

lemma le_bytes_htons: "le_bytes 2 (htons p) = [ucast (drop_bit 8 p), ucast p]"
proof -
  have "ucast (htons p) = (ucast (drop_bit 8 p) :: u8)"
    by (rule bit_word_eqI) (auto simp: htons_def bit_simps)
  moreover have "ucast (drop_bit 8 (htons p)) = (ucast p :: u8)"
    by (rule bit_word_eqI) (auto simp: htons_def bit_simps)
  ultimately show ?thesis by (simp add: le_bytes_def upt_rec)
qed

lemma be_value_port: "be_value [ucast (drop_bit 8 p), ucast p] = unat (p :: u16)"
proof -
  have "unat (ucast (drop_bit 8 p) :: u8) = unat p div 256"
  proof -
    have "unat p < 65536" using unsigned_less[of p, where 'a = nat] by simp
    then show ?thesis
      by (simp add: unsigned_ucast_eq unat_drop_bit_eq drop_bit_eq_div take_bit_eq_mod unat_div_distrib)
  qed
  moreover have "unat (ucast p :: u8) = unat p mod 256" by (simp add: unsigned_ucast_eq take_bit_eq_mod)
  ultimately show ?thesis by (simp add: be_value_def)
qed

lemma port_bytes: "be_value [ucast (drop_bit 8 (ucast port :: u16)), ucast (ucast port :: u16)] = unat (port :: usize) mod 65536"
  unfolding be_value_port by (simp add: unsigned_ucast_eq take_bit_eq_mod)

lemma sock_addr_ipv4:
  "sock_addr_bytes \<lparr>sin_family = ucast AF_INET, sin_port = htons p, sin_addr = ip, sin_zero = replicate 8 0\<rparr> =
     [2, 0, ucast (drop_bit 8 p), ucast p] @ le_bytes 4 ip @ replicate 8 0"
  unfolding sock_addr_bytes_def by (simp add: le_bytes_htons AF_INET_def) (simp add: le_bytes_def upt_rec)

section \<open>Properties\<close>

text \<open>The statics as the program starts.\<close>

definition booted :: "('w, 'f, 'z) task_machine_scheme \<Rightarrow> bool" where
  "booted s \<longleftrightarrow> heap_start s = 0 \<and> heap_cur s = 0 \<and> heap_end s = 0 \<and> nodes s = Map.empty \<and>
     sched_head s = 0 \<and> free_head s = 0 \<and> free_count s = 0 \<and> io_reg s = [] \<and>
     slots s = None \<and> free_slots s = [] \<and> next_slot s = 0"

lemma booted_ok:
  assumes "mmap_ok K" and "booted s"
  shows "server_ok K s"
proof -
  have "sched_shape s [] []"
    using assms(2) by (simp add: booted_def sched_shape_def heap_ok_def)
  then have "sched_rep s []" by (auto simp: sched_rep_def)
  moreover have "slots_ok s"
    using assms(2) by (simp add: booted_def slots_ok_def slot_at_def new_slot_def)
  ultimately show ?thesis
    using assms by (auto simp: server_ok_def booted_def reg_ok_def)
qed

text \<open>
  C2: The server never corrupts itself. Started from its initial statics with any
  arguments, whatever clients, the kernel and the clock do (the kernel only promises that
  \<open>mmap\<close> returns usable memory), the main thread's run of any length can only stop in
  these ways: the process exits because there is no listening socket, memory or task slots run
  out, the WebSocket frame parser panics on a wrapped length, or the model's bounds on loops are
  reached. (The other worker threads are not running in between: steps of several threads are the
  subject of theory Concurrency.) It never dereferences a wild pointer, never indexes out of bounds, never unwraps
  \<open>None\<close>; and as long as it runs the schedule is a well-formed stack, the registry has one
  entry per descriptor and the slot table is consistent.
\<close>

theorem server_never_corrupts:
  assumes "mmap_ok K" and "booted s"
  shows "case main K fuel n workers ip port s of
      Inl (e, t) \<Rightarrow> e \<in> {Slice_Out_Of_Range, Out_Of_Fuel, Alloc_Error, No_Free_Task_Slots, Exited 0, Exited 1}
    | Inr (a, t) \<Rightarrow> (\<exists>hs. sched_rep t hs) \<and> reg_ok (io_reg t) \<and> slots_ok t"
  using main_leads[of K fuel n workers ip port] booted_ok[OF assms]
  by (auto simp: leads_def main_faults_def server_faults_def running_def server_ok_def split: sum.splits)

text \<open>The machine as it starts.\<close>

definition boot :: "(unit, task) exec_machine" where
  "boot = \<lparr>kst = (), calls = [], mem = Map.empty, heap_start = 0, heap_cur = 0, heap_end = 0, log_fd = 1,
     io_reg = [], eventfd = -1, event_pending = 0, nodes = Map.empty, sched_head = 0, free_head = 0, free_count = 0,
     slots = None, free_slots = [], next_slot = 0, tasks_remaining = 0\<rparr>"

theorem server_never_corrupts_witness:
  "case main (one_map_kernel 0x10000) 10 3 0 0 8000 boot of
     Inl (e, t) \<Rightarrow> e \<in> {Slice_Out_Of_Range, Out_Of_Fuel, Alloc_Error, No_Free_Task_Slots, Exited 0, Exited 1}
   | Inr (a, t) \<Rightarrow> (\<exists>hs. sched_rep t hs) \<and> reg_ok (io_reg t) \<and> slots_ok t"
  by (rule server_never_corrupts[OF one_map_kernel_ok]) (simp_all add: booted_def boot_def)

text \<open>
  C27: Accepting a connection. When the accept loop has got a descriptor and nothing runs out, a
  new task for exactly that connection sits in the slot table under a handle that stood for nothing
  before; the handle is on top of the schedule twice, once from \<open>spawn_task\<close> and once from
  the loop's own \<open>wake_handle\<close>.
\<close>

theorem accepted_scheduled_twice:
  assumes "mmap_ok K" and "sched_rep s hs" and "slots_ok s" and "\<not> worn_slots s" and "\<not> neg cfd"
    and "accepted K cfd s = Inr ((), t)"
  shows "\<exists>h. sched_rep t (h # h # hs) \<and> task_of s h = None \<and> task_of t h = Some (Handle_Http (ucast cfd))"
proof -
  have q: "quiet beyond_kernel (log_isize K n)" for n
    unfolding log_isize_def by (intro quiet_intros)
  have logs: "quiet beyond_kernel (seqs [log_write K a, log_isize K n, log_write K b])"
    "quiet beyond_kernel (seqs [log_write K a, log_usize K m, log_write K b])"
    "quiet beyond_kernel (seqs [log_write K a, log_usize K m, log_write K b, log_write K c])"
    "quiet beyond_kernel (fcntl K fd cmd arg)" "quiet beyond_kernel (log_write K a)" for a n m b c fd cmd arg
    by (intro quiet_intros; auto intro: quiet_intros q)+
  from assms(6) obtain s1 a2 s2 s3 h s4 s5 s6 where
    run: "seqs [log_write K (str ''[ACCEPT_LOOP] got cfd=''), log_isize K cfd, log_write K (str ''\<newline>'')] s = Inr ((), s1)"
      "fcntl K (ucast cfd) F_SETFL O_NONBLOCK s1 = Inr (a2, s2)"
      "seqs [log_write K (str ''[ACCEPT] fd=''), log_usize K cfd, log_write K (str ''\<newline>'')] s2 = Inr ((), s3)"
      "spawn_task K (Handle_Http (ucast cfd)) s3 = Inr (h, s4)"
      "seqs [log_write K (str ''[ACCEPT] spawned handler, handle=''), log_usize K h, log_write K (str ''\<newline>''),
         log_write K (str ''[ACCEPT] before wake_handle\<newline>'')] s4 = Inr ((), s5)"
      "wake_handle K h s5 = Inr ((), s6)" "log_write K (str ''[ACCEPT] after wake_handle, loop continue\<newline>'') s6 = Inr ((), t)"
    using assms(5) by (auto simp: accepted_def bind_p_eq_Inr simp del: seqs.simps str_simps)
  note k1 = kernel_same[OF logs(1) run(1)] and k2 = kernel_same[OF logs(4) run(2)] and k3 = kernel_same[OF logs(2) run(3)]
  have s3: "sched_rep s3 = sched_rep s" "slots s3 = slots s" "free_slots s3 = free_slots s" "next_slot s3 = next_slot s"
    using k1 k2 k3 by simp_all
  have "sched_rep s3 hs" "slots_ok s3" "\<not> worn_slots s3"
    using assms(2-4) s3(1) slots_cong(1)[OF s3(2-4)] slot_at_cong[OF s3(2)] by (simp_all add: worn_slots_def)
  note sp = spawn_task_spec[OF assms(1) this run(4)]
  note k5 = kernel_same[OF logs(3) run(5)]
  have "sched_rep s5 (h # hs)" using sp(1) k5(1) by simp
  note w = wake_taskE[OF assms(1) this run(6)] and k7 = kernel_same[OF logs(5) run(7)]
  have "slots t = slots s4" using k5(2) w(2) k7(2) by simp
  then show ?thesis
    using sp w(1) k7(1) task_of_cong[OF s3(2)] task_of_cong[of t s4] by (intro exI[of _ h]) simp
qed

text \<open>A kernel that maps memory at one address and answers every other call with 0.\<close>

definition calm_kernel :: "unit kernel" where
  "calm_kernel nr args w = (if nr = 9 then one_map_kernel 0x10000 nr args w else (0, OutNone, w))"

lemma calm_kernel_ok: "mmap_ok calm_kernel"
  using one_map_kernel_ok[of "0x10000"] by (simp add: mmap_ok_def calm_kernel_def)

theorem accepted_scheduled_twice_witness:
  "\<exists>h t. accepted calm_kernel 7 boot = Inr ((), t) \<and> sched_rep t [h, h] \<and> task_of t h = Some (Handle_Http 7)"
proof -
  have ok: "server_ok calm_kernel boot"
    by (rule booted_ok[OF calm_kernel_ok]) (simp add: booted_def boot_def)
  have rep: "sched_rep boot []"
    by (simp add: sched_rep_def sched_shape_def boot_def heap_ok_def exI[of _ "[]"])
  have worn: "\<not> worn_slots boot"
    by (auto simp: worn_slots_def list_ex_iff slot_at_def boot_def new_slot_def)
  have "bump 0x10000 (0x10000 + HEAP_SIZE) NODE_LAYOUT = Some (0x10000, 0x10010)"
    "bump 0x10010 (0x10000 + HEAP_SIZE) NODE_LAYOUT = Some (0x10010, 0x10020)" "l_size NODE_LAYOUT \<noteq> 0"
    by (simp_all add: bump_def HEAP_SIZE_def NODE_LAYOUT_def Let_def)
  then have "\<exists>t. accepted calm_kernel 7 boot = Inr ((), t)"
    by (simp add: accepted_def log_write_def log_isize_def log_usize_def write_usize_eq write_isize_eq sys_write_def fcntl_def ret_of_def
        raw_syscalls do_syscall_def calm_kernel_def spawn_task_def spawn_def init_slots_def take_slot_def unwrap_slots_def set_slot_def
        MAX_TASK_SLOTS_def wake_handle_def alloc_node_def box_node_def alloc_def init_heap_def mmap_def
        one_map_kernel_def signal_eventfd_def ensure_eventfd_def eventfd_call_def fd_or_minus1_def load_node_def store_node_def
        bind_p_def ignore_p_def boot_def Let_def del: str_simps)
  then obtain t where t: "accepted calm_kernel 7 boot = Inr ((), t)" by blast
  from accepted_scheduled_twice[OF calm_kernel_ok rep _ worn _ t] ok show ?thesis
    using t by (auto simp: server_ok_def)
qed

text \<open>
  The calls a listening socket takes, with their arguments as the kernel sees them, and the outcome, given the
  five answers: an IPv4 stream socket, \<open>SO_REUSEADDR\<close> set to 1, the bind, a backlog of 128, a close.
\<close>

definition listening :: "bytes \<Rightarrow> i64 \<Rightarrow> i64 \<Rightarrow> i64 \<Rightarrow> i64 \<Rightarrow> i64 \<Rightarrow> i32 option \<times> sysevent list" where
  "listening addr r1 r2 r3 r4 r5 =
     (let sfd = ucast r1 :: i32;
          opened = \<lparr>ev_nr = 41, ev_args = [Reg 2, Reg 1, Reg 0], ev_ret = r1\<rparr>;
          reused = \<lparr>ev_nr = 54, ev_args = [reg_i32 sfd, Reg 1, Reg 2, PtrBytes [1, 0, 0, 0], Reg 4], ev_ret = r2\<rparr>;
          bound = \<lparr>ev_nr = 49, ev_args = [reg_i32 sfd, PtrBytes addr, Reg 16], ev_ret = r3\<rparr>;
          listens = \<lparr>ev_nr = 50, ev_args = [reg_i32 sfd, Reg 128], ev_ret = r4\<rparr>;
          shut = \<lparr>ev_nr = 3, ev_args = [reg_i32 sfd], ev_ret = r5\<rparr>
      in if neg r1 \<or> neg sfd then (None, [opened])
         else if neg r3 then (None, [opened, reused, bound, shut])
         else if neg r4 then (None, [opened, reused, bound, listens, shut])
         else (Some sfd, [opened, reused, bound, listens]))"

lemma create_listening_socket_calls:
  assumes "addr = [2, 0, ucast (drop_bit 8 (ucast port :: u16)), ucast (ucast port :: u16)] @ le_bytes 4 ip @ replicate 8 0"
  shows "\<exists>r1 r2 r3 r4 r5 w. create_listening_socket K ip port s =
    (let (r, evs) = listening addr r1 r2 r3 r4 r5 in Inr (r, s\<lparr>kst := w, calls := calls s @ evs\<rparr>))"
proof -
  obtain r1 o1 w1 where K1: "K 41 [Reg 2, Reg 1, Reg 0] (kst s) = (r1, o1, w1)" by (metis prod_cases3)
  let ?sfd = "ucast r1 :: i32"
  obtain r2 o2 w2 where K2: "K 54 [reg_i32 ?sfd, Reg 1, Reg 2, PtrBytes [1, 0, 0, 0], Reg 4] w1 = (r2, o2, w2)" by (metis prod_cases3)
  obtain r3 o3 w3 where K3: "K 49 [reg_i32 ?sfd, PtrBytes addr, Reg 16] w2 = (r3, o3, w3)" by (metis prod_cases3)
  obtain r4 o4 w4 where K4: "K 50 [reg_i32 ?sfd, Reg 128] w3 = (r4, o4, w4)" by (metis prod_cases3)
  obtain r5 o5 w5 where K5: "K 3 [reg_i32 ?sfd] (if neg r3 then w3 else w4) = (r5, o5, w5)" by (metis prod_cases3)
  have sock: "sock_addr_bytes \<lparr>sin_family = ucast AF_INET, sin_port = htons (ucast port), sin_addr = ip, sin_zero = replicate 8 0\<rparr> = addr"
    by (simp add: sock_addr_ipv4 assms)
  have one: "le_bytes 4 (1 :: i32) = [1, 0, 0, 0]" by (simp add: le_bytes_def upt_rec)
  have arg: "(scast AF_INET :: u64) = 2" "(scast SOCK_STREAM :: u64) = 1" "(scast SOL_SOCKET :: u64) = 1" "(scast SO_REUSEADDR :: u64) = 2"
    "(scast LISTEN_BACKLOG :: u64) = 128"
    by (simp_all add: AF_INET_def SOCK_STREAM_def SOL_SOCKET_def SO_REUSEADDR_def LISTEN_BACKLOG_def)
  note defs = create_listening_socket_def socket_def setsockopt_def bind_call_def listen_def close_def fd_or_minus1_def ret_of_def
    raw_syscalls do_syscall_def bind_p_def Let_def sock arg one listening_def
  consider "neg r1 \<or> neg ?sfd" | "\<not> neg r1" "\<not> neg ?sfd" "neg r3" | "\<not> neg r1" "\<not> neg ?sfd" "\<not> neg r3" "neg r4"
    | "\<not> neg r1" "\<not> neg ?sfd" "\<not> neg r3" "\<not> neg r4" by blast
  then have "\<exists>w. create_listening_socket K ip port s =
    (let (r, evs) = listening addr r1 r2 r3 r4 r5 in Inr (r, s\<lparr>kst := w, calls := calls s @ evs\<rparr>))"
  proof cases
    case 1
    then show ?thesis using K1 by (intro exI[of _ w1]) (auto simp: defs)
  next
    case 2
    then show ?thesis using K1 K2 K3 K5 by (intro exI[of _ w5]) (simp add: defs)
  next
    case 3
    then show ?thesis using K1 K2 K3 K4 K5 by (intro exI[of _ w5]) (simp add: defs)
  next
    case 4
    then show ?thesis using K1 K2 K3 K4 by (intro exI[of _ w4]) (simp add: defs)
  qed
  then show ?thesis by blast
qed

text \<open>
  C28: The listening socket. Creating it never panics and makes exactly these calls, with every
  argument pinned: \<open>socket\<close> for an IPv4 stream; when that gave a descriptor (zero included),
  \<open>SO_REUSEADDR\<close> set to the integer 1 on it, \<open>bind\<close> with the 16-byte IPv4 address (the low 16 bits
  of the port in network byte order, the address bytes in memory order), \<open>listen\<close> with a backlog of 128. It returns
  the descriptor when \<open>socket\<close>, \<open>bind\<close> and \<open>listen\<close> succeeded, nothing
  after the first call when \<open>socket\<close> failed, and when \<open>bind\<close> or \<open>listen\<close> fails it closes the socket and
  returns nothing.
\<close>

theorem listening_socket:
  "\<exists>r1 r2 r3 r4 r5 r t hi lo. create_listening_socket K ip port s = Inr (r, t) \<and>
     be_value [hi, lo] = unat port mod 65536 \<and>
     (\<exists>evs. calls t = calls s @ evs \<and>
        (r, evs) = listening
          [2, 0, hi, lo, ucast ip, ucast (drop_bit 8 ip), ucast (drop_bit 16 ip), ucast (drop_bit 24 ip), 0, 0, 0, 0, 0, 0, 0, 0]
          r1 r2 r3 r4 r5)"
proof -
  let ?hi = "ucast (drop_bit 8 (ucast port :: u16)) :: u8" and ?lo = "ucast (ucast port :: u16) :: u8"
  have addr: "[2, 0, ?hi, ?lo] @ le_bytes 4 ip @ replicate 8 0 =
      [2, 0, ?hi, ?lo, ucast ip, ucast (drop_bit 8 ip), ucast (drop_bit 16 ip), ucast (drop_bit 24 ip), 0, 0, 0, 0, 0, 0, 0, 0]"
    by (simp add: le_bytes_def upt_rec numeral_eq_Suc)
  let ?addr = "[2, 0, ?hi, ?lo, ucast ip, ucast (drop_bit 8 ip), ucast (drop_bit 16 ip), ucast (drop_bit 24 ip), 0, 0, 0, 0, 0, 0, 0, 0]"
  obtain r1 r2 r3 r4 r5 w where c: "create_listening_socket K ip port s =
      (let (r, evs) = listening ?addr r1 r2 r3 r4 r5 in Inr (r, s\<lparr>kst := w, calls := calls s @ evs\<rparr>))"
    using create_listening_socket_calls[OF addr[symmetric], of K s] by blast
  obtain r evs where l: "listening ?addr r1 r2 r3 r4 r5 = (r, evs)" by (metis surj_pair)
  show ?thesis
    by (rule exI[of _ r1], rule exI[of _ r2], rule exI[of _ r3], rule exI[of _ r4], rule exI[of _ r5], rule exI[of _ r],
      rule exI[of _ "s\<lparr>kst := w, calls := calls s @ evs\<rparr>"], rule exI[of _ ?hi], rule exI[of _ ?lo])
      (use c l port_bytes[of port] in simp)
qed

end
