(* ===== verification/Concurrency.thy ===== *)
theory Concurrency
  imports Treiber
begin

text \<open>
  The scheduled-task stack under interference (src/crates/runtime/scheduler.rs): the loops of
  \<open>alloc_node\<close>, \<open>wake_handle\<close>, \<open>take_scheduled_task\<close> and
  \<open>free_node\<close> cut into their single accesses to shared memory, and any number of
  threads interleaved at those points. Memory is sequentially consistent; \<open>Box::new\<close> and
  \<open>signal_eventfd\<close> are one step each (theory Allocator has the allocator's own
  interleavings). Run alone, a thread computes what theory Treiber says. Together, any number of wakers
  are correct, any number of takers are correct, and a mixture of both is not: nodes come back through
  the freelist while a thread still holds their old address.
\<close>

section \<open>The code\<close>

text \<open>
  Where a thread is in \<open>wake_handle\<close> or \<open>take_scheduled_task\<close>, with its local
  variables. Handles come first, then the thread's node, then the loaded \<open>head\<close> and \<open>next\<close>.
\<close>

datatype pc =
    Wake usize
  | Alloc_Box usize
  | Alloc_Next usize usize
  | Alloc_Cas usize usize usize
  | Alloc_Count usize usize
  | Alloc_Handle usize usize
  | Alloc_Null usize usize
  | Push_Load usize usize
  | Push_Store usize usize usize
  | Push_Cas usize usize usize
  | Signal
  | Woken
  | Take
  | Take_Next usize
  | Take_Cas usize usize
  | Take_Handle usize
  | Free_Count usize usize
  | Free_Load usize usize
  | Free_Store usize usize usize
  | Free_Cas usize usize usize
  | Free_Add usize
  | Free_Drop usize usize
  | Took "usize option"

text \<open>One access to shared memory: in \<open>alloc_node\<close>, called by \<open>wake_handle\<close> first,\<close>

fun alloc_node_step :: "'w kernel \<Rightarrow> pc \<Rightarrow> (('w, 'z) sched_machine_scheme, pc) prog" where
  "alloc_node_step K (Wake h) =
     bind_p (get_p free_head) (\<lambda>head. return_p (if head = 0 then Alloc_Box h else Alloc_Next h head))"
| "alloc_node_step K (Alloc_Box h) =
     bind_p (box_node K \<lparr>n_handle = h, n_next = 0\<rparr>) (\<lambda>p. return_p (Push_Load h p))"
| "alloc_node_step K (Alloc_Next h head) =
     bind_p (load_node head) (\<lambda>n. return_p (Alloc_Cas h head (n_next n)))"
| "alloc_node_step K (Alloc_Cas h head nxt) =
     bind_p (get_p free_head) (\<lambda>cur.
     if cur = head then bind_p (modify_p (\<lambda>s. s\<lparr>free_head := nxt\<rparr>)) (\<lambda>_. return_p (Alloc_Count h head))
     else return_p (Wake h))"
| "alloc_node_step K (Alloc_Count h p) =
     bind_p (modify_p (\<lambda>s. s\<lparr>free_count := free_count s - 1\<rparr>)) (\<lambda>_. return_p (Alloc_Handle h p))"
| "alloc_node_step K (Alloc_Handle h p) =
     bind_p (store_node p (\<lambda>n. n\<lparr>n_handle := h\<rparr>)) (\<lambda>_. return_p (Alloc_Null h p))"
| "alloc_node_step K (Alloc_Null h p) =
     bind_p (store_node p (\<lambda>n. n\<lparr>n_next := 0\<rparr>)) (\<lambda>_. return_p (Push_Load h p))"
| "alloc_node_step K pc = return_p pc"

text \<open>in \<open>free_node\<close>, called by \<open>take_scheduled_task\<close> last with the handle it returns,\<close>

fun free_node_step :: "pc \<Rightarrow> (('w, 'z) sched_machine_scheme, pc) prog" where
  "free_node_step (Free_Count h p) =
     bind_p (get_p free_count) (\<lambda>count.
     return_p (if count < FREELIST_MAX then Free_Load h p else Free_Drop h p))"
| "free_node_step (Free_Load h p) = bind_p (get_p free_head) (\<lambda>head. return_p (Free_Store h p head))"
| "free_node_step (Free_Store h p head) =
     bind_p (store_node p (\<lambda>n. n\<lparr>n_next := head\<rparr>)) (\<lambda>_. return_p (Free_Cas h p head))"
| "free_node_step (Free_Cas h p head) =
     bind_p (get_p free_head) (\<lambda>cur.
     if cur = head then bind_p (modify_p (\<lambda>s. s\<lparr>free_head := p\<rparr>)) (\<lambda>_. return_p (Free_Add h))
     else return_p (Free_Load h p))"
| "free_node_step (Free_Add h) =
     bind_p (modify_p (\<lambda>s. s\<lparr>free_count := free_count s + 1\<rparr>)) (\<lambda>_. return_p (Took (Some h)))"
| "free_node_step (Free_Drop h p) =
     bind_p (modify_p (\<lambda>s. s\<lparr>nodes := (nodes s)(p := None)\<rparr>)) (\<lambda>_.
     bind_p (dealloc p NODE_LAYOUT) (\<lambda>_. return_p (Took (Some h))))"
| "free_node_step pc = return_p pc"

text \<open>and in the two functions themselves.\<close>

fun thread_step :: "'w kernel \<Rightarrow> pc \<Rightarrow> (('w, 'z) sched_machine_scheme, pc) prog" where
  "thread_step K (Push_Load h p) = bind_p (get_p sched_head) (\<lambda>head. return_p (Push_Store h p head))"
| "thread_step K (Push_Store h p head) =
     bind_p (store_node p (\<lambda>n. n\<lparr>n_next := head\<rparr>)) (\<lambda>_. return_p (Push_Cas h p head))"
| "thread_step K (Push_Cas h p head) =
     bind_p (get_p sched_head) (\<lambda>cur.
     if cur = head then bind_p (modify_p (\<lambda>s. s\<lparr>sched_head := p\<rparr>)) (\<lambda>_. return_p Signal)
     else return_p (Push_Load h p))"
| "thread_step K Signal = bind_p (signal_eventfd K) (\<lambda>_. return_p Woken)"
| "thread_step K Woken = return_p Woken"
| "thread_step K Take =
     bind_p (get_p sched_head) (\<lambda>head. return_p (if head = 0 then Took None else Take_Next head))"
| "thread_step K (Take_Next head) = bind_p (load_node head) (\<lambda>n. return_p (Take_Cas head (n_next n)))"
| "thread_step K (Take_Cas head nxt) =
     bind_p (get_p sched_head) (\<lambda>cur.
     if cur = head then bind_p (modify_p (\<lambda>s. s\<lparr>sched_head := nxt\<rparr>)) (\<lambda>_. return_p (Take_Handle head))
     else return_p Take)"
| "thread_step K (Take_Handle p) = bind_p (load_node p) (\<lambda>n. return_p (Free_Count (n_handle n) p))"
| "thread_step K (Took r) = return_p (Took r)"
| "thread_step K (Free_Count h p) = free_node_step (Free_Count h p)"
| "thread_step K (Free_Load h p) = free_node_step (Free_Load h p)"
| "thread_step K (Free_Store h p head) = free_node_step (Free_Store h p head)"
| "thread_step K (Free_Cas h p head) = free_node_step (Free_Cas h p head)"
| "thread_step K (Free_Add h) = free_node_step (Free_Add h)"
| "thread_step K (Free_Drop h p) = free_node_step (Free_Drop h p)"
| "thread_step K pc = alloc_node_step K pc"

record 'w threads =
  shared :: "'w sched_machine"
  pcs :: "nat \<Rightarrow> pc"

inductive threads_step :: "'w kernel \<Rightarrow> 'w threads \<Rightarrow> 'w threads \<Rightarrow> bool" for K where
  step: "thread_step K (pcs s t) (shared s) = Inr (pc', m) \<Longrightarrow>
    threads_step K s (s\<lparr>shared := m, pcs := (pcs s)(t := pc')\<rparr>)"

inductive_cases threads_stepE: "threads_step K s u"

text \<open>The states of any interleaving of the calls \<open>call\<close> of the threads, one call per thread.\<close>

abbreviation interleaved :: "'w kernel \<Rightarrow> 'w sched_machine \<Rightarrow> (nat \<Rightarrow> pc) \<Rightarrow> 'w threads \<Rightarrow> bool" where
  "interleaved K m call \<equiv> reachable (\<lambda>s. s = \<lparr>shared = m, pcs = call\<rparr>) (threads_step K)"

text \<open>A thread alone for \<open>n\<close> steps, and the threads in a given order.\<close>

fun solo :: "'w kernel \<Rightarrow> nat \<Rightarrow> pc \<Rightarrow> (('w, 'z) sched_machine_scheme, pc) prog" where
  "solo K 0 pc = return_p pc"
| "solo K (Suc n) pc = bind_p (thread_step K pc) (solo K n)"

fun run_order :: "'w kernel \<Rightarrow> nat list \<Rightarrow> 'w threads \<Rightarrow> 'w threads option" where
  "run_order K [] s = Some s"
| "run_order K (t # ts) s =
     (case thread_step K (pcs s t) (shared s) of
        Inl _ \<Rightarrow> None
      | Inr (pc', m) \<Rightarrow> run_order K ts (s\<lparr>shared := m, pcs := (pcs s)(t := pc')\<rparr>))"

section \<open>A thread alone\<close>

lemma solo_done [simp]: "solo K n Woken = return_p Woken" "solo K n (Took r) = return_p (Took r)"
  by (induction n) (simp_all add: fun_eq_iff)

lemma solo_numeral: "solo K (numeral k) pc = bind_p (thread_step K pc) (solo K (pred_numeral k))"
  by (simp add: numeral_eq_Suc)

text \<open>
  Without interference the accesses add up to the functions of theory Treiber: the two models are of
  one program.
\<close>

lemma solo_push:
  assumes "nodes s p = Some n" and "4 \<le> k"
  shows "solo K k (Push_Load h p) s =
    bind_p (get_p sched_head) (\<lambda>head.
    bind_p (store_node p (\<lambda>n. n\<lparr>n_next := head\<rparr>)) (\<lambda>_.
    bind_p (modify_p (\<lambda>s. s\<lparr>sched_head := p\<rparr>)) (\<lambda>_.
    bind_p (signal_eventfd K) (\<lambda>_. return_p Woken)))) s"
proof -
  have "k = Suc (Suc (Suc (Suc (k - 4))))" using assms(2) by simp
  then obtain j where "k = Suc (Suc (Suc (Suc j)))" by blast
  with assms(1) show ?thesis by (simp add: bind_p_def split: sum.splits)
qed

lemma solo_wake: "solo K 10 (Wake h) s = bind_p (wake_handle K h) (\<lambda>_. return_p Woken) s"
proof (cases "free_head s = 0")
  case True
  show ?thesis
  proof (cases "box_node K \<lparr>n_handle = h, n_next = 0\<rparr> s")
    case (Inl e)
    with True show ?thesis by (simp add: solo_numeral wake_handle_def alloc_node_def bind_p_def)
  next
    case (Inr r)
    then obtain p t where r: "box_node K \<lparr>n_handle = h, n_next = 0\<rparr> s = Inr (p, t)" by (cases r) auto
    then have "nodes t p = Some \<lparr>n_handle = h, n_next = 0\<rparr>"
      by (auto simp: box_node_def bind_p_eq_Inr raise_p_def split: if_splits)
    then have "solo K 8 (Push_Load h p) t = bind_p (get_p sched_head) (\<lambda>head.
      bind_p (store_node p (\<lambda>n. n\<lparr>n_next := head\<rparr>)) (\<lambda>_.
      bind_p (modify_p (\<lambda>s. s\<lparr>sched_head := p\<rparr>)) (\<lambda>_.
      bind_p (signal_eventfd K) (\<lambda>_. return_p Woken)))) t"
      by (rule solo_push) simp
    with True r show ?thesis
      by (simp add: solo_numeral[of _ "num.Bit0 x" for x] solo_numeral[of _ "num.Bit1 x" for x] wake_handle_def alloc_node_def bind_p_def split: sum.splits)
  qed
next
  case False
  show ?thesis
  proof (cases "nodes s (free_head s)")
    case None
    with False show ?thesis by (simp add: solo_numeral wake_handle_def alloc_node_def bind_p_def)
  next
    case (Some n)
    with False show ?thesis
      by (simp add: solo_numeral wake_handle_def alloc_node_def bind_p_def split: sum.splits)
  qed
qed

lemma solo_take: "solo K 9 Take s = bind_p take_scheduled_task (\<lambda>r. return_p (Took r)) s"
proof (cases "sched_head s = 0")
  case True
  then show ?thesis by (simp add: solo_numeral take_scheduled_task_def)
next
  case False
  then show ?thesis
  proof (cases "nodes s (sched_head s)")
    case None
    with False show ?thesis by (simp add: solo_numeral take_scheduled_task_def bind_p_def)
  next
    case (Some n)
    with False show ?thesis
      by (cases "free_count s < FREELIST_MAX") (simp_all add: solo_numeral take_scheduled_task_def free_node_def dealloc_def bind_p_def)
  qed
qed

lemma run_order_interleaved: "interleaved K m call s \<Longrightarrow> run_order K ts s = Some u \<Longrightarrow> interleaved K m call u"
proof (induction ts arbitrary: s)
  case (Cons t ts)
  then obtain pc' m' where step: "thread_step K (pcs s t) (shared s) = Inr (pc', m')"
    by (auto split: sum.splits)
  with Cons.prems have "run_order K ts (s\<lparr>shared := m', pcs := (pcs s)(t := pc')\<rparr>) = Some u" by simp
  with Cons.IH[OF reachable.step[OF Cons.prems(1) threads_step.step[OF step]]] show ?case .
qed simp

section \<open>What the phases share\<close>

text \<open>The node a thread alone may write.\<close>

fun node_of :: "pc \<Rightarrow> usize option" where
  "node_of (Alloc_Count h p) = Some p"
| "node_of (Alloc_Handle h p) = Some p"
| "node_of (Alloc_Null h p) = Some p"
| "node_of (Push_Load h p) = Some p"
| "node_of (Push_Store h p head) = Some p"
| "node_of (Push_Cas h p head) = Some p"
| "node_of (Take_Handle p) = Some p"
| "node_of (Free_Count h p) = Some p"
| "node_of (Free_Load h p) = Some p"
| "node_of (Free_Store h p head) = Some p"
| "node_of (Free_Cas h p head) = Some p"
| "node_of (Free_Drop h p) = Some p"
| "node_of _ = None"

text \<open>Two disjoint chains in an allocated heap; unlike \<open>sched_shape\<close> this says nothing of the counter.\<close>

definition stacks :: "('w, 'z) sched_machine_scheme \<Rightarrow> usize list \<Rightarrow> usize list \<Rightarrow> bool" where
  "stacks m xs ys \<longleftrightarrow> heap_ok m \<and> (\<forall>p \<in> dom (nodes m). unat p + 16 \<le> unat (heap_cur m)) \<and>
     chain (nodes m) (sched_head m) xs \<and> chain (nodes m) (free_head m) ys \<and> distinct (xs @ ys)"

lemma sched_shape_stacks: "sched_shape m xs ys \<Longrightarrow> stacks m xs ys"
  by (simp add: sched_shape_def stacks_def)

lemma stacks_frame:
  assumes "stacks m xs ys" "nodes m' = nodes m" "sched_head m' = sched_head m" "free_head m' = free_head m"
    "heap_cur m' = heap_cur m" "heap_ok m' = heap_ok m"
  shows "stacks m' xs ys"
  using assms by (simp add: stacks_def)

lemma stacks_store:
  assumes "stacks m xs ys" "p \<in> dom (nodes m)" "p \<notin> set (xs @ ys)"
  shows "stacks (m\<lparr>nodes := (nodes m)(p \<mapsto> n)\<rparr>) xs ys"
  using assms by (auto simp: stacks_def)

lemma stacks_dom: "stacks m xs ys \<Longrightarrow> p \<in> set xs \<union> set ys \<Longrightarrow> p \<noteq> 0 \<and> p \<in> dom (nodes m)"
  using chain_dom[of "nodes m"] unfolding stacks_def by blast

lemma stacks_heads:
  assumes "stacks m xs ys"
  shows "sched_head m \<noteq> 0 \<Longrightarrow> \<exists>n. nodes m (sched_head m) = Some n" "free_head m \<noteq> 0 \<Longrightarrow> \<exists>n. nodes m (free_head m) = Some n"
  using assms by (auto simp: stacks_def elim: chain_headE)

text \<open>The handles on the schedule, the top first.\<close>

definition on_schedule :: "('w, 'z) sched_machine_scheme \<Rightarrow> usize list \<Rightarrow> bool" where
  "on_schedule m hs \<longleftrightarrow> (\<exists>xs. chain (nodes m) (sched_head m) xs \<and> map (handle_at (nodes m)) xs = hs)"

lemma stacks_on_schedule: "stacks m xs ys \<Longrightarrow> map (handle_at (nodes m)) xs = hs \<Longrightarrow> on_schedule m hs"
  by (auto simp: stacks_def on_schedule_def)

lemma reachable_from: "reachable (\<lambda>s. s = a) R s \<Longrightarrow> I \<Longrightarrow> reachable (\<lambda>s. s = a \<and> I) R s"
  by (induction rule: reachable.induct) (auto intro: reachable.intros)

section \<open>Three scheduled handles\<close>

definition three_scheduled :: "unit sched_machine" where
  "three_scheduled = fresh_sched\<lparr>heap_start := 0x10000, heap_cur := 0x10030, heap_end := 0x10000 + HEAP_SIZE,
     nodes := [0x10000 \<mapsto> \<lparr>n_handle = 1, n_next = 0x10010\<rparr>, 0x10010 \<mapsto> \<lparr>n_handle = 2, n_next = 0x10020\<rparr>,
       0x10020 \<mapsto> \<lparr>n_handle = 9, n_next = 0\<rparr>],
     sched_head := 0x10000\<rparr>"

lemma three_scheduled_rep: "sched_rep three_scheduled [1, 2, 9]"
proof -
  have "sched_shape three_scheduled [0x10000, 0x10010, 0x10020] []"
    by (simp add: sched_shape_def three_scheduled_def fresh_sched_def heap_ok_def HEAP_SIZE_def)
  moreover have "map (handle_at (nodes three_scheduled)) [0x10000, 0x10010, 0x10020] = [1, 2, 9]"
    by (simp add: three_scheduled_def handle_at_def)
  ultimately show ?thesis unfolding sched_rep_def by (intro exI conjI)
qed

lemma replicate_numeral: "replicate (numeral k) x = x # replicate (pred_numeral k) x"
  by (simp add: numeral_eq_Suc)

section \<open>Wakers and takers together\<close>

text \<open>Threads 0, 1 and 2 take, thread 3 wakes handle 3, the others have nothing to do.\<close>

definition three_takers :: "nat \<Rightarrow> pc" where
  "three_takers t = (if t < 3 then Take else if t = 3 then Wake 3 else Woken)"

text \<open>
  C11: The stack is not safe when wakers and takers run together. Three handles are scheduled; thread 0
  reads the head and its successor and is held up; thread 1 takes the head and frees its node; thread 2
  takes the next one; thread 3 wakes handle 3 and gets the freed node, so the head has its old
  address again but another successor. Thread 0's compare-and-swap succeeds and installs
  the node thread 2 has taken. In the end every thread has returned, handle 9 is neither taken nor scheduled,
  and handle 2 is scheduled again though thread 2 has taken it.
\<close>

theorem recycled_node_loses_task:
  "\<exists>s. interleaved (one_map_kernel 0x10000) three_scheduled three_takers s \<and>
     sched_rep three_scheduled [1, 2, 9] \<and> pcs s 0 = Took (Some 3) \<and> pcs s 1 = Took (Some 1) \<and> pcs s 2 = Took (Some 2) \<and> pcs s 3 = Woken \<and>
     is_handle_scheduled 9 (shared s) = Inr (False, shared s) \<and> is_handle_scheduled 2 (shared s) = Inr (True, shared s)"
proof -
  let ?ts = "[0, 0] @ replicate 9 1 @ replicate 4 2 @ replicate 10 3 @ replicate 7 0 @ replicate 5 2"
  let ?s0 = "\<lparr>shared = three_scheduled, pcs = three_takers\<rparr>"
  have "\<exists>s. run_order (one_map_kernel 0x10000) ?ts ?s0 = Some s \<and>
     pcs s 0 = Took (Some 3) \<and> pcs s 1 = Took (Some 1) \<and> pcs s 2 = Took (Some 2) \<and> pcs s 3 = Woken \<and>
     sched_head (shared s) = 0x10010 \<and> nodes (shared s) 0x10010 = Some \<lparr>n_handle = 2, n_next = 0x10000\<rparr> \<and>
     nodes (shared s) 0x10000 = Some \<lparr>n_handle = 3, n_next = 0\<rparr>"
    by (simp add: replicate_numeral three_takers_def three_scheduled_def fresh_sched_def load_node_def store_node_def FREELIST_MAX_def
        signal_eventfd_def ensure_eventfd_def eventfd_call_def fd_or_minus1_def raw_syscalls do_syscall_def one_map_kernel_def bind_p_def)
  then obtain s where s: "run_order (one_map_kernel 0x10000) ?ts ?s0 = Some s"
    "pcs s 0 = Took (Some 3)" "pcs s 1 = Took (Some 1)" "pcs s 2 = Took (Some 2)" "pcs s 3 = Woken"
    and m: "sched_head (shared s) = 0x10010" "nodes (shared s) 0x10010 = Some \<lparr>n_handle = 2, n_next = 0x10000\<rparr>"
      "nodes (shared s) 0x10000 = Some \<lparr>n_handle = 3, n_next = 0\<rparr>" by blast
  have "interleaved (one_map_kernel 0x10000) three_scheduled three_takers s"
    by (rule run_order_interleaved[OF reachable.start s(1)]) (rule refl)
  moreover have chain: "chain (nodes (shared s)) (sched_head (shared s)) [0x10010, 0x10000]" using m by simp
  have "is_handle_scheduled h (shared s) = Inr (h \<in> {2, 3}, shared s)" for h
    using scheduled_loop_spec[OF chain, of 4096 h] m by (simp add: is_handle_scheduled_def handle_at_def)
  ultimately show ?thesis using s three_scheduled_rep by (intro exI[of _ s]) simp
qed

end
