(* ===== verification/Wake_Phase.thy ===== *)
theory Wake_Phase
  imports Concurrency
begin

text \<open>
  Any number of threads in \<open>wake_handle\<close> at once (src/crates/runtime/scheduler.rs): what each
  of them may rely on at each of its program points, that every access keeps it, and that nothing is lost.
\<close>

section \<open>What a waker relies on\<close>

fun wake_arg :: "pc \<Rightarrow> usize" where
  "wake_arg (Wake h) = h"
| "wake_arg _ = 0"

definition pushed :: "pc \<Rightarrow> bool" where
  "pushed pc \<longleftrightarrow> pc = Signal \<or> pc = Woken"

text \<open>
  What a waker of \<open>h\<close> knows where it stands, given the nodes and the freelist: its own node is
  filled in, and a head it has loaded still has the successor it read as long as it is free.
\<close>

fun waker_ok :: "(usize \<rightharpoonup> node) \<Rightarrow> usize list \<Rightarrow> usize \<Rightarrow> pc \<Rightarrow> bool" where
  "waker_ok N ys h (Wake h') \<longleftrightarrow> h' = h"
| "waker_ok N ys h (Alloc_Box h') \<longleftrightarrow> h' = h"
| "waker_ok N ys h (Alloc_Next h' head) \<longleftrightarrow> h' = h \<and> head \<noteq> 0 \<and> head \<in> dom N"
| "waker_ok N ys h (Alloc_Cas h' head nxt) \<longleftrightarrow>
     h' = h \<and> head \<noteq> 0 \<and> (head \<in> set ys \<longrightarrow> map_option n_next (N head) = Some nxt)"
| "waker_ok N ys h (Alloc_Count h' p) \<longleftrightarrow> h' = h"
| "waker_ok N ys h (Alloc_Handle h' p) \<longleftrightarrow> h' = h"
| "waker_ok N ys h (Alloc_Null h' p) \<longleftrightarrow> h' = h \<and> map_option n_handle (N p) = Some h"
| "waker_ok N ys h (Push_Load h' p) \<longleftrightarrow> h' = h \<and> map_option n_handle (N p) = Some h"
| "waker_ok N ys h (Push_Store h' p head) \<longleftrightarrow> h' = h \<and> map_option n_handle (N p) = Some h"
| "waker_ok N ys h (Push_Cas h' p head) \<longleftrightarrow> h' = h \<and> N p = Some \<lparr>n_handle = h, n_next = head\<rparr>"
| "waker_ok N ys h Signal \<longleftrightarrow> True"
| "waker_ok N ys h Woken \<longleftrightarrow> True"
| "waker_ok N ys h _ \<longleftrightarrow> False"

lemma waker_ok_mono:
  assumes "waker_ok N ys h pc" and "dom N \<subseteq> dom N'" and "set ys' \<subseteq> set ys" and "\<forall>p \<in> set ys'. N' p = N p"
    and "\<forall>p. node_of pc = Some p \<longrightarrow> N' p = N p"
  shows "waker_ok N' ys' h pc"
  using assms by (cases pc) auto

text \<open>The state of a run of wakers: \<open>order\<close> lists the threads that have pushed, the last first.\<close>

definition wakers ::
    "(nat \<Rightarrow> pc) \<Rightarrow> usize list \<Rightarrow> 'w threads \<Rightarrow> nat list \<Rightarrow> usize list \<Rightarrow> usize list \<Rightarrow> bool" where
  "wakers call hs s order xs ys \<longleftrightarrow>
     stacks (shared s) xs ys \<and> distinct order \<and>
     map (handle_at (nodes (shared s))) xs = map (\<lambda>t. wake_arg (call t)) order @ hs \<and>
     (\<forall>t. t \<in> set order \<longleftrightarrow> call t \<noteq> Woken \<and> pushed (pcs s t)) \<and>
     (\<forall>t. call t = Woken \<longrightarrow> pcs s t = Woken) \<and>
     (\<forall>t. waker_ok (nodes (shared s)) ys (wake_arg (call t)) (pcs s t)) \<and>
     (\<forall>t p. node_of (pcs s t) = Some p \<longrightarrow> p \<noteq> 0 \<and> p \<in> dom (nodes (shared s)) \<and> p \<notin> set (xs @ ys)) \<and>
     (\<forall>t u p. node_of (pcs s t) = Some p \<longrightarrow> node_of (pcs s u) = Some p \<longrightarrow> t = u)"

text \<open>One step of thread \<open>t\<close>, in terms of what it does to memory and to its own node.\<close>

lemma wakers_update:
  assumes w: "wakers call hs s order xs ys" and t: "call t \<noteq> Woken"
    and mem: "stacks m xs' ys'" "map (handle_at (nodes m)) xs' = map (\<lambda>t. wake_arg (call t)) order' @ hs"
      "dom (nodes (shared s)) \<subseteq> dom (nodes m)" "set ys' \<subseteq> set ys"
      "\<forall>p \<in> set ys'. nodes m p = nodes (shared s) p"
    and others: "\<And>u p. u \<noteq> t \<Longrightarrow> node_of (pcs s u) = Some p \<Longrightarrow>
      nodes m p = nodes (shared s) p \<and> p \<notin> set (xs' @ ys')"
    and self: "waker_ok (nodes m) ys' (wake_arg (call t)) pc'"
      "\<And>p. node_of pc' = Some p \<Longrightarrow> p \<noteq> 0 \<and> p \<in> dom (nodes m) \<and> p \<notin> set (xs' @ ys') \<and>
        (\<forall>u. u \<noteq> t \<longrightarrow> node_of (pcs s u) \<noteq> Some p)"
    and order: "order' = (if pushed pc' \<and> \<not> pushed (pcs s t) then t # order else order)"
      "pushed (pcs s t) \<longrightarrow> pushed pc'"
  shows "wakers call hs (s\<lparr>shared := m, pcs := (pcs s)(t := pc')\<rparr>) order' xs' ys'"
proof -
  define P where "P = (pcs s)(t := pc')"
  have P: "P t = pc'" "\<And>u. u \<noteq> t \<Longrightarrow> P u = pcs s u" by (simp_all add: P_def)
  have wk: "waker_ok (nodes m) ys' (wake_arg (call u)) (P u)" for u
  proof (cases "u = t")
    case False
    have "waker_ok (nodes (shared s)) ys (wake_arg (call u)) (pcs s u)" using w by (simp add: wakers_def)
    then have "waker_ok (nodes m) ys' (wake_arg (call u)) (pcs s u)"
      by (rule waker_ok_mono[OF _ mem(3-5)]) (use others[OF False] in blast)
    with P(2)[OF False] show ?thesis by simp
  qed (use self(1) P(1) in simp)
  have old: "p \<noteq> 0 \<and> p \<in> dom (nodes (shared s))" if "node_of (pcs s u) = Some p" for u p
    using w that unfolding wakers_def by blast
  have own: "p \<noteq> 0 \<and> p \<in> dom (nodes m) \<and> p \<notin> set (xs' @ ys')" if "node_of (P u) = Some p" for u p
  proof (cases "u = t")
    case True
    with that self(2) P(1) show ?thesis by simp
  next
    case False
    with that P(2) have "node_of (pcs s u) = Some p" by simp
    with old[OF this] others[OF False this] mem(3) show ?thesis by blast
  qed
  have apart: "u = v" if "node_of (P u) = Some p" "node_of (P v) = Some p" for u v p
    using that self(2)[of p] w P unfolding wakers_def by (cases "u = t"; cases "v = t") auto
  have ord: "distinct order'" "\<forall>u. u \<in> set order' \<longleftrightarrow> call u \<noteq> Woken \<and> pushed (P u)"
    using w t order P unfolding wakers_def by (auto split: if_splits) metis+
  have idle: "\<forall>u. call u = Woken \<longrightarrow> P u = Woken" using w t by (auto simp: wakers_def P_def)
  show ?thesis
    using mem(1,2) ord idle wk own apart unfolding wakers_def P_def[symmetric] by simp
qed

lemma wakers_quiet:
  assumes w: "wakers call hs s order xs ys" and t: "call t \<noteq> Woken"
    and same: "nodes m = nodes (shared s)" "sched_head m = sched_head (shared s)" "free_head m = free_head (shared s)"
      "heap_cur m = heap_cur (shared s)" "heap_ok m = heap_ok (shared s)"
    and pc: "waker_ok (nodes (shared s)) ys (wake_arg (call t)) pc'"
      "node_of pc' = None \<or> node_of pc' = node_of (pcs s t)" "pushed pc' = pushed (pcs s t)"
  shows "\<exists>order xs ys. wakers call hs (s\<lparr>shared := m, pcs := (pcs s)(t := pc')\<rparr>) order xs ys"
proof (intro exI, rule wakers_update[OF w t])
  show "stacks m xs ys" by (rule stacks_frame[OF _ same]) (use w in \<open>simp add: wakers_def\<close>)
  fix p assume "node_of pc' = Some p"
  with pc(2) have "node_of (pcs s t) = Some p" by auto
  with w same(1) show "p \<noteq> 0 \<and> p \<in> dom (nodes m) \<and> p \<notin> set (xs @ ys) \<and> (\<forall>u. u \<noteq> t \<longrightarrow> node_of (pcs s u) \<noteq> Some p)"
    unfolding wakers_def by metis
qed (use w same(1) pc in \<open>auto simp: wakers_def\<close>)

lemma wakers_store:
  assumes w: "wakers call hs s order xs ys" and t: "call t \<noteq> Woken" and p: "node_of (pcs s t) = Some p"
    and pc: "waker_ok ((nodes (shared s))(p \<mapsto> n)) ys (wake_arg (call t)) pc'" "node_of pc' = Some p"
      "\<not> pushed pc'" "\<not> pushed (pcs s t)"
  shows "\<exists>order xs ys. wakers call hs (s\<lparr>shared := (shared s)\<lparr>nodes := (nodes (shared s))(p \<mapsto> n)\<rparr>, pcs := (pcs s)(t := pc')\<rparr>) order xs ys"
proof (intro exI, rule wakers_update[OF w t])
  have own: "p \<noteq> 0" "p \<in> dom (nodes (shared s))" "p \<notin> set (xs @ ys)" "\<And>u. u \<noteq> t \<Longrightarrow> node_of (pcs s u) \<noteq> Some p"
    using w p unfolding wakers_def by metis+
  show "stacks ((shared s)\<lparr>nodes := (nodes (shared s))(p \<mapsto> n)\<rparr>) xs ys"
    by (rule stacks_store[OF _ own(2,3)]) (use w in \<open>simp add: wakers_def\<close>)
  show "map (handle_at (nodes ((shared s)\<lparr>nodes := (nodes (shared s))(p \<mapsto> n)\<rparr>))) xs = map (\<lambda>t. wake_arg (call t)) order @ hs"
    using own(3) w by (simp add: wakers_def)
  fix u q assume "u \<noteq> t" "node_of (pcs s u) = Some q"
  with own(4)[of u] w show "nodes ((shared s)\<lparr>nodes := (nodes (shared s))(p \<mapsto> n)\<rparr>) q = nodes (shared s) q \<and> q \<notin> set (xs @ ys)"
    unfolding wakers_def by auto
next
  fix q assume "node_of pc' = Some q"
  with pc(2) p w show "q \<noteq> 0 \<and> q \<in> dom (nodes ((shared s)\<lparr>nodes := (nodes (shared s))(p \<mapsto> n)\<rparr>)) \<and> q \<notin> set (xs @ ys) \<and>
      (\<forall>u. u \<noteq> t \<longrightarrow> node_of (pcs s u) \<noteq> Some q)"
    unfolding wakers_def by auto
qed (use w p pc in \<open>auto simp: wakers_def\<close>)

lemma wakers_box:
  assumes w: "wakers call hs s order xs ys" and t: "call t \<noteq> Woken" and K: "mmap_ok K"
    and pc: "pcs s t = Alloc_Box h" and step: "thread_step K (pcs s t) (shared s) = Inr (pc', m)"
  shows "\<exists>order xs ys. wakers call hs (s\<lparr>shared := m, pcs := (pcs s)(t := pc')\<rparr>) order xs ys"
proof -
  let ?n = "\<lparr>n_handle = h, n_next = 0\<rparr>"
  have st: "stacks (shared s) xs ys" using w by (simp add: wakers_def)
  then have heap: "heap_ok (shared s)" "\<forall>p \<in> dom (nodes (shared s)). unat p + 16 \<le> unat (heap_cur (shared s))"
    by (simp_all add: stacks_def)
  obtain p where p: "box_node K ?n (shared s) = Inr (p, m)" "pc' = Push_Load h p"
    using step pc by (auto simp: bind_p_eq_Inr)
  from box_node_spec[OF heap K, of ?n] p(1)
  have m: "p \<noteq> 0" "p \<notin> dom (nodes (shared s))" "nodes m = (nodes (shared s))(p \<mapsto> ?n)"
    "sched_head m = sched_head (shared s)" "free_head m = free_head (shared s)"
    "heap_ok m" "\<forall>q \<in> dom (nodes m). unat q + 16 \<le> unat (heap_cur m)" by auto
  have fresh: "p \<notin> set (xs @ ys)" using stacks_dom[OF st, of p] m(2) by auto
  have h: "wake_arg (call t) = h" using w pc unfolding wakers_def by (metis waker_ok.simps(2))
  have others: "node_of (pcs s u) \<noteq> Some p" for u using w m(2) unfolding wakers_def by blast
  have "wakers call hs (s\<lparr>shared := m, pcs := (pcs s)(t := pc')\<rparr>) order xs ys"
  proof (rule wakers_update[OF w t])
    show "stacks m xs ys" using st m fresh by (simp add: stacks_def)
    show "map (handle_at (nodes m)) xs = map (\<lambda>t. wake_arg (call t)) order @ hs"
      using w fresh m(3) by (simp add: wakers_def)
    fix u q assume "u \<noteq> t" "node_of (pcs s u) = Some q"
    with others[of u] w m(3) show "nodes m q = nodes (shared s) q \<and> q \<notin> set (xs @ ys)"
      unfolding wakers_def by auto
  qed (use m(1,3) fresh h others p(2) pc in \<open>auto simp: pushed_def\<close>)
  then show ?thesis by blast
qed

lemma wakers_pop_free:
  assumes w: "wakers call hs s order xs ys" and t: "call t \<noteq> Woken"
    and pc: "pcs s t = Alloc_Cas h head nxt" and cas: "free_head (shared s) = head"
  shows "\<exists>order xs ys. wakers call hs (s\<lparr>shared := (shared s)\<lparr>free_head := nxt\<rparr>, pcs := (pcs s)(t := Alloc_Count h head)\<rparr>) order xs ys"
proof -
  have st: "stacks (shared s) xs ys" using w by (simp add: wakers_def)
  have ok: "waker_ok (nodes (shared s)) ys (wake_arg (call t)) (Alloc_Cas h head nxt)"
    using w pc unfolding wakers_def by metis
  obtain n as where ys: "ys = head # as" "nodes (shared s) head = Some n" "chain (nodes (shared s)) (n_next n) as"
    using st cas ok by (auto simp: stacks_def elim: chain_headE)
  have nxt: "nxt = n_next n" using ok ys(1,2) by simp
  have "wakers call hs (s\<lparr>shared := (shared s)\<lparr>free_head := nxt\<rparr>, pcs := (pcs s)(t := Alloc_Count h head)\<rparr>) order xs as"
  proof (rule wakers_update[OF w t])
    show "stacks ((shared s)\<lparr>free_head := nxt\<rparr>) xs as" using st ys nxt by (simp add: stacks_def)
    fix u q assume "u \<noteq> t" "node_of (pcs s u) = Some q"
    with w ys(1) show "nodes ((shared s)\<lparr>free_head := nxt\<rparr>) q = nodes (shared s) q \<and> q \<notin> set (xs @ as)"
      unfolding wakers_def by auto
  next
    fix q assume "node_of (Alloc_Count h head) = Some q"
    moreover have "node_of (pcs s u) \<noteq> Some head" for u using w ys(1) unfolding wakers_def by (metis in_set_conv_decomp list.set_intros(1) set_append UnI2)
    moreover have "head \<notin> set (xs @ as)" using st ys(1) by (simp add: stacks_def)
    ultimately show "q \<noteq> 0 \<and> q \<in> dom (nodes ((shared s)\<lparr>free_head := nxt\<rparr>)) \<and> q \<notin> set (xs @ as) \<and>
        (\<forall>u. u \<noteq> t \<longrightarrow> node_of (pcs s u) \<noteq> Some q)" using ok ys(2) by auto
  qed (use w ok ys(1) pc in \<open>auto simp: wakers_def pushed_def\<close>)
  then show ?thesis by blast
qed

lemma wakers_push:
  assumes w: "wakers call hs s order xs ys" and t: "call t \<noteq> Woken"
    and pc: "pcs s t = Push_Cas h p head" and cas: "sched_head (shared s) = head"
  shows "\<exists>order xs ys. wakers call hs (s\<lparr>shared := (shared s)\<lparr>sched_head := p\<rparr>, pcs := (pcs s)(t := Signal)\<rparr>) order xs ys"
proof -
  have st: "stacks (shared s) xs ys" using w by (simp add: wakers_def)
  have ok: "waker_ok (nodes (shared s)) ys (wake_arg (call t)) (Push_Cas h p head)"
    using w pc unfolding wakers_def by metis
  have own: "p \<noteq> 0" "p \<notin> set (xs @ ys)" "\<And>u. u \<noteq> t \<Longrightarrow> node_of (pcs s u) \<noteq> Some p"
    using w pc unfolding wakers_def by (metis node_of.simps(6))+
  have "wakers call hs (s\<lparr>shared := (shared s)\<lparr>sched_head := p\<rparr>, pcs := (pcs s)(t := Signal)\<rparr>) (t # order) (p # xs) ys"
  proof (rule wakers_update[OF w t])
    show "stacks ((shared s)\<lparr>sched_head := p\<rparr>) (p # xs) ys" using st own ok cas by (auto simp: stacks_def)
    show "map (handle_at (nodes ((shared s)\<lparr>sched_head := p\<rparr>))) (p # xs) = map (\<lambda>t. wake_arg (call t)) (t # order) @ hs"
      using w ok by (simp add: wakers_def handle_at_def)
    fix u q assume "u \<noteq> t" "node_of (pcs s u) = Some q"
    with w own(3)[of u] show "nodes ((shared s)\<lparr>sched_head := p\<rparr>) q = nodes (shared s) q \<and> q \<notin> set ((p # xs) @ ys)"
      unfolding wakers_def by auto
  qed (use pc in \<open>auto simp: pushed_def\<close>)
  then show ?thesis by blast
qed

lemma wakers_step:
  assumes w: "wakers call hs s order xs ys" and K: "mmap_ok K"
    and step: "thread_step K (pcs s t) (shared s) = Inr (pc', m)"
  shows "\<exists>order xs ys. wakers call hs (s\<lparr>shared := m, pcs := (pcs s)(t := pc')\<rparr>) order xs ys"
proof (cases "call t = Woken")
  case True
  then have "pcs s t = Woken" using w by (simp add: wakers_def)
  moreover from this step have "m = shared s" "pc' = Woken" by simp_all
  ultimately have "s\<lparr>shared := m, pcs := (pcs s)(t := pc')\<rparr> = s" by (simp add: fun_upd_idem)
  with w show ?thesis by metis
next
  case False
  have st: "stacks (shared s) xs ys" and ok: "waker_ok (nodes (shared s)) ys (wake_arg (call t)) (pcs s t)"
    using w by (simp_all add: wakers_def)
  have own: "node_of (pcs s t) = Some p \<Longrightarrow> \<exists>n. nodes (shared s) p = Some n" for p
    using w unfolding wakers_def by blast
  note quiet = wakers_quiet[OF w False] and store = wakers_store[OF w False]
  show ?thesis
  proof (cases "pcs s t")
    case (Wake h)
    with step ok stacks_heads(2)[OF st] show ?thesis by (intro quiet) (auto simp: pushed_def split: if_splits)
  next
    case (Alloc_Box h)
    with wakers_box[OF w False K this step] show ?thesis by blast
  next
    case (Alloc_Next h head)
    with step ok show ?thesis by (intro quiet) (auto simp: pushed_def)
  next
    case (Alloc_Cas h head nxt)
    show ?thesis
    proof (cases "free_head (shared s) = head")
      case True
      with step Alloc_Cas wakers_pop_free[OF w False Alloc_Cas True] show ?thesis by auto
    qed (use Alloc_Cas step ok in \<open>intro quiet; auto simp: pushed_def\<close>)
  next
    case (Alloc_Count h p)
    with step ok show ?thesis by (intro quiet) (auto simp: pushed_def)
  next
    case (Alloc_Handle h p)
    with own[of p] step ok store[of p] show ?thesis by (auto simp: pushed_def)
  next
    case (Alloc_Null h p)
    with own[of p] step ok store[of p] show ?thesis by (auto simp: pushed_def)
  next
    case (Push_Load h p)
    with step ok show ?thesis by (intro quiet) (auto simp: pushed_def)
  next
    case (Push_Store h p head)
    with own[of p] step ok store[of p] show ?thesis by (auto simp: pushed_def)
  next
    case (Push_Cas h p head)
    show ?thesis
    proof (cases "sched_head (shared s) = head")
      case True
      with step Push_Cas wakers_push[OF w False Push_Cas True] show ?thesis by auto
    qed (use Push_Cas step ok in \<open>intro quiet; auto simp: pushed_def\<close>)
  next
    case Signal
    then have run: "signal_eventfd K (shared s) = Inr ((), m)" "pc' = Woken" using step by (auto simp: bind_p_eq_Inr)
    have "beyond_eventfd m = beyond_eventfd (shared s)"
      using keepsD[OF quiet_keeps[OF quiet_signal_eventfd] run(1)] .
    note f = beyond_eventfd_sched[OF this]
    with Signal run(2) show ?thesis by (intro quiet) (auto simp: pushed_def)
  next
    case Woken
    with step show ?thesis by (intro quiet) (auto simp: pushed_def)
  qed (use ok in simp_all)
qed

lemma wakers_fault:
  assumes w: "wakers call hs s order xs ys" and K: "mmap_ok K"
    and step: "thread_step K (pcs s t) (shared s) = Inl (e, m)"
  shows "e = Alloc_Error"
proof -
  have st: "stacks (shared s) xs ys" and ok: "waker_ok (nodes (shared s)) ys (wake_arg (call t)) (pcs s t)"
    using w by (simp_all add: wakers_def)
  have own: "\<exists>n. nodes (shared s) p = Some n" if "node_of (pcs s t) = Some p" for p
    using w that unfolding wakers_def by blast
  have heap: "heap_ok (shared s)" "\<forall>p \<in> dom (nodes (shared s)). unat p + 16 \<le> unat (heap_cur (shared s))"
    using st by (simp_all add: stacks_def)
  show ?thesis
  proof (cases "pcs s t")
    case (Alloc_Box h)
    with step box_node_spec[OF heap K, of "\<lparr>n_handle = h, n_next = 0\<rparr>"] show ?thesis by auto
  next
    case Signal
    obtain u where "signal_eventfd K (shared s) = Inr ((), u)"
      by (rule quietE[OF quiet_signal_eventfd, of K "shared s"]) simp
    with Signal step show ?thesis by simp
  next
    case (Alloc_Handle h p)
    with own[of p] step show ?thesis by auto
  next
    case (Alloc_Null h p)
    with own[of p] step show ?thesis by auto
  next
    case (Push_Store h p head)
    with own[of p] step show ?thesis by auto
  qed (use ok step in \<open>auto split: if_splits\<close>)
qed

section \<open>Properties\<close>

interpretation wakers: safe_system "\<lambda>s. s = \<lparr>shared = m, pcs = call\<rparr> \<and> mmap_ok K \<and> sched_rep m hs \<and>
      (\<forall>t. call t = Woken \<or> (\<exists>h. call t = Wake h))"
    "threads_step K" "\<lambda>s. mmap_ok K \<and> (\<exists>order xs ys. wakers call hs s order xs ys)" for K m call hs
proof
  fix s assume s: "s = \<lparr>shared = m, pcs = call\<rparr> \<and> mmap_ok K \<and> sched_rep m hs \<and> (\<forall>t. call t = Woken \<or> (\<exists>h. call t = Wake h))"
  then obtain xs ys where xs: "sched_shape m xs ys" "map (handle_at (nodes m)) xs = hs" by (auto simp: sched_rep_def)
  have pcs: "call t = Woken \<or> call t = Wake (wake_arg (call t))" for t using s by (metis wake_arg.simps(1))
  have "wakers call hs s [] xs ys"
    using s xs sched_shape_stacks[OF xs(1)] unfolding wakers_def
    by (auto simp: pushed_def) (use pcs in \<open>metis node_of.simps waker_ok.simps(1,12) option.simps(3) pc.simps\<close>)+
  with s show "mmap_ok K \<and> (\<exists>order xs ys. wakers call hs s order xs ys)" by blast
next
  fix s u assume "mmap_ok K \<and> (\<exists>order xs ys. wakers call hs s order xs ys)" "threads_step K s u"
  then show "mmap_ok K \<and> (\<exists>order xs ys. wakers call hs u order xs ys)"
    by (auto elim!: threads_stepE dest: wakers_step)
qed

text \<open>
  C9: Concurrent wakes lose nothing. Any number of threads are inside \<open>wake_handle\<close> at any
  point of any interleaving, nodes coming from the freelist or the allocator: the schedule is exactly
  the handles of the threads that have got past their compare-and-swap, in the order they did, on top of what
  was scheduled before; and no thread can fail but for want of memory, so none ever follows a wild pointer.
\<close>

theorem concurrent_wakes_lose_nothing:
  assumes "mmap_ok K" and "sched_rep m hs" and "\<forall>t. call t = Woken \<or> (\<exists>h. call t = Wake h)"
    and "interleaved K m call s"
  shows "\<exists>order. distinct order \<and> set order = {t. call t \<noteq> Woken \<and> (pcs s t = Signal \<or> pcs s t = Woken)} \<and>
    on_schedule (shared s) (map (\<lambda>t. wake_arg (call t)) order @ hs) \<and>
    (\<forall>t e m'. thread_step K (pcs s t) (shared s) = Inl (e, m') \<longrightarrow> e = Alloc_Error)"
proof -
  have "reachable (\<lambda>s. s = \<lparr>shared = m, pcs = call\<rparr> \<and> mmap_ok K \<and> sched_rep m hs \<and>
      (\<forall>t. call t = Woken \<or> (\<exists>h. call t = Wake h))) (threads_step K) s"
    using assms by (intro reachable_from) simp_all
  from wakers.reachable_inv[OF this] obtain order xs ys where w: "wakers call hs s order xs ys" by blast
  then have "set order = {t. call t \<noteq> Woken \<and> (pcs s t = Signal \<or> pcs s t = Woken)}" "distinct order"
    "on_schedule (shared s) (map (\<lambda>t. wake_arg (call t)) order @ hs)"
    by (auto simp: wakers_def pushed_def intro: stacks_on_schedule)
  then show ?thesis using wakers_fault[OF w assms(1)] by blast
qed

text \<open>Two threads wake at once; the second compare-and-swap fails and is repeated.\<close>

definition two_wakers :: "nat \<Rightarrow> pc" where
  "two_wakers t = (if t = 0 then Wake 5 else if t = 1 then Wake 6 else Woken)"

theorem concurrent_wakes_lose_nothing_witness:
  "\<exists>s order. interleaved (one_map_kernel 0x10000) three_scheduled two_wakers s \<and> pcs s 0 = Woken \<and> pcs s 1 = Woken \<and>
     distinct order \<and> set order = {0, 1} \<and> on_schedule (shared s) (map (\<lambda>t. wake_arg (two_wakers t)) order @ [1, 2, 9])"
proof -
  let ?K = "one_map_kernel 0x10000" and ?ts = "[0, 1, 0, 1, 0, 1, 0, 1, 0, 1, 0, 1, 1, 1, 1]"
  have "bump 0x10030 (0x10000 + HEAP_SIZE) NODE_LAYOUT = Some (0x10030, 0x10040)"
    "bump 0x10040 (0x10000 + HEAP_SIZE) NODE_LAYOUT = Some (0x10040, 0x10050)" "l_size NODE_LAYOUT \<noteq> 0"
    by (simp_all add: bump_def HEAP_SIZE_def NODE_LAYOUT_def Let_def)
  then have "\<exists>s. run_order ?K ?ts \<lparr>shared = three_scheduled, pcs = two_wakers\<rparr> = Some s \<and>
      pcs s 0 = Woken \<and> pcs s 1 = Woken \<and> (\<forall>t. t \<noteq> 0 \<longrightarrow> t \<noteq> 1 \<longrightarrow> pcs s t = two_wakers t)"
    by (simp add: two_wakers_def three_scheduled_def fresh_sched_def box_node_def alloc_def init_heap_def load_node_def store_node_def
        signal_eventfd_def ensure_eventfd_def eventfd_call_def fd_or_minus1_def raw_syscalls do_syscall_def one_map_kernel_def bind_p_def)
  then obtain s where s: "run_order ?K ?ts \<lparr>shared = three_scheduled, pcs = two_wakers\<rparr> = Some s"
    "pcs s 0 = Woken" "pcs s 1 = Woken" by blast
  have run: "interleaved ?K three_scheduled two_wakers s"
    by (rule run_order_interleaved[OF reachable.start s(1)]) (rule refl)
  have past: "{t. two_wakers t \<noteq> Woken \<and> (pcs s t = Signal \<or> pcs s t = Woken)} = {0, 1}"
    using s(2,3) by (auto simp: two_wakers_def)
  have "mmap_ok ?K" "\<forall>t. two_wakers t = Woken \<or> (\<exists>h. two_wakers t = Wake h)"
    by (simp_all add: one_map_kernel_ok two_wakers_def)
  from concurrent_wakes_lose_nothing[OF this(1) three_scheduled_rep this(2) run] past obtain order where
    "distinct order" "set order = {0, 1}" "on_schedule (shared s) (map (\<lambda>t. wake_arg (two_wakers t)) order @ [1, 2, 9])" by blast
  with run s(2,3) show ?thesis by blast
qed

end
