(* ===== verification/Take_Phase.thy ===== *)
theory Take_Phase
  imports Concurrency
begin

text \<open>
  Any number of threads in \<open>take_scheduled_task\<close> at once (src/crates/runtime/scheduler.rs): what
  each of them may rely on at each of its program points, that every access keeps it, and that no handle
  is taken twice.
\<close>

section \<open>What a taker relies on\<close>

fun past_take :: "pc \<Rightarrow> bool" where
  "past_take (Take_Handle p) \<longleftrightarrow> True"
| "past_take (Free_Count h p) \<longleftrightarrow> True"
| "past_take (Free_Load h p) \<longleftrightarrow> True"
| "past_take (Free_Store h p head) \<longleftrightarrow> True"
| "past_take (Free_Cas h p head) \<longleftrightarrow> True"
| "past_take (Free_Add h) \<longleftrightarrow> True"
| "past_take (Took r) \<longleftrightarrow> r \<noteq> None"
| "past_take _ \<longleftrightarrow> False"

fun taken_handle :: "pc \<Rightarrow> usize option" where
  "taken_handle (Free_Count h p) = Some h"
| "taken_handle (Free_Load h p) = Some h"
| "taken_handle (Free_Store h p head) = Some h"
| "taken_handle (Free_Cas h p head) = Some h"
| "taken_handle (Free_Add h) = Some h"
| "taken_handle (Took r) = r"
| "taken_handle _ = None"

definition finished :: "pc \<Rightarrow> bool" where
  "finished pc \<longleftrightarrow> past_take pc \<and> (\<exists>r. pc = Took r)"

text \<open>
  What a taker knows where it stands, given the nodes, the schedule \<open>xs\<close> and the schedule
  \<open>xs0\<close> at the start: a head it has loaded still has the successor it read as long as it is scheduled.
\<close>

fun taker_ok :: "(usize \<rightharpoonup> node) \<Rightarrow> usize list \<Rightarrow> usize list \<Rightarrow> pc \<Rightarrow> bool" where
  "taker_ok N xs xs0 Take \<longleftrightarrow> True"
| "taker_ok N xs xs0 (Take_Next head) \<longleftrightarrow> head \<in> set xs0"
| "taker_ok N xs xs0 (Take_Cas head nxt) \<longleftrightarrow>
     head \<in> set xs0 \<and> (head \<in> set xs \<longrightarrow> map_option n_next (N head) = Some nxt)"
| "taker_ok N xs xs0 (Take_Handle p) \<longleftrightarrow> True"
| "taker_ok N xs xs0 (Free_Count h p) \<longleftrightarrow> True"
| "taker_ok N xs xs0 (Free_Load h p) \<longleftrightarrow> True"
| "taker_ok N xs xs0 (Free_Store h p head) \<longleftrightarrow> True"
| "taker_ok N xs xs0 (Free_Cas h p head) \<longleftrightarrow> map_option n_next (N p) = Some head"
| "taker_ok N xs xs0 (Free_Add h) \<longleftrightarrow> True"
| "taker_ok N xs xs0 (Took r) \<longleftrightarrow> (r = None \<longrightarrow> xs = [])"
| "taker_ok N xs xs0 Woken \<longleftrightarrow> True"
| "taker_ok N xs xs0 _ \<longleftrightarrow> False"

lemma taker_ok_mono:
  assumes "taker_ok N xs xs0 pc" and "set xs' \<subseteq> set xs" and "\<forall>p \<in> set xs'. N' p = N p"
    and "\<forall>p. node_of pc = Some p \<longrightarrow> N' p = N p"
  shows "taker_ok N' xs' xs0 pc"
  using assms by (cases pc) auto

lemma taker_nodeless: "taker_ok N xs xs0 pc \<Longrightarrow> \<not> past_take pc \<Longrightarrow> node_of pc = None"
  by (cases pc) auto

text \<open>The thread of the \<open>i\<close>-th successful take owns the \<open>i\<close>-th node until it is freed, and knows its handle.\<close>

definition seat_ok :: "usize list \<Rightarrow> usize list \<Rightarrow> usize set \<Rightarrow> nat \<Rightarrow> pc \<Rightarrow> bool" where
  "seat_ok xs0 hs A i pc \<longleftrightarrow>
     (\<forall>p. node_of pc = Some p \<longrightarrow> p = xs0 ! i \<and> p \<notin> A) \<and> (\<forall>h. taken_handle pc = Some h \<longrightarrow> h = hs ! i)"

text \<open>The state of a run of takers: \<open>order\<close> lists the threads whose take has succeeded, the first first.\<close>

definition takers ::
    "(nat \<Rightarrow> pc) \<Rightarrow> usize list \<Rightarrow> usize list \<Rightarrow> nat \<Rightarrow> 'w threads \<Rightarrow> nat list \<Rightarrow> usize list \<Rightarrow> bool" where
  "takers call xs0 hs free s order ys \<longleftrightarrow>
     stacks (shared s) (drop (length order) xs0) ys \<and> distinct order \<and> length order \<le> length xs0 \<and>
     distinct xs0 \<and> 0 \<notin> set xs0 \<and> length xs0 + free \<le> 256 \<and>
     map (\<lambda>p. map_option n_handle (nodes (shared s) p)) xs0 = map Some hs \<and>
     (\<forall>t. t \<in> set order \<longleftrightarrow> past_take (pcs s t)) \<and>
     (\<forall>t. call t = Woken \<longrightarrow> pcs s t = Woken) \<and>
     (\<forall>t. taker_ok (nodes (shared s)) (drop (length order) xs0) xs0 (pcs s t)) \<and>
     (\<forall>i < length order. seat_ok xs0 hs (set (drop (length order) xs0 @ ys)) i (pcs s (order ! i))) \<and>
     unat (free_count (shared s)) = free + length (filter (\<lambda>t. finished (pcs s t)) order)"

lemma filter_finished:
  assumes "distinct order" "t \<in> set order" "\<not> finished (pcs s t)" "finished pc'"
  shows "length (filter (\<lambda>u. finished (((pcs s)(t := pc')) u)) order) = Suc (length (filter (\<lambda>u. finished (pcs s u)) order))"
proof -
  obtain as bs where o: "order = as @ t # bs" using assms(2) by (meson split_list)
  have "filter (\<lambda>u. finished (((pcs s)(t := pc')) u)) l = filter (\<lambda>u. finished (pcs s u)) l" if "t \<notin> set l" for l
    using that by (intro filter_cong) auto
  then show ?thesis using assms(1,3,4) o by simp
qed

lemma takers_update:
  assumes w: "takers call xs0 hs free s order ys" and t: "call t \<noteq> Woken"
    and order: "order' = (if past_take pc' \<and> \<not> past_take (pcs s t) then order @ [t] else order)"
      "past_take (pcs s t) \<longrightarrow> past_take pc'" "length order' \<le> length xs0"
    and mem: "stacks m (drop (length order') xs0) ys'"
      "\<forall>p \<in> set (drop (length order') xs0). nodes m p = nodes (shared s) p"
      "\<forall>p \<in> set xs0. map_option n_handle (nodes m p) = map_option n_handle (nodes (shared s) p)"
    and others: "\<And>u p. u \<noteq> t \<Longrightarrow> node_of (pcs s u) = Some p \<Longrightarrow> nodes m p = nodes (shared s) p \<and> p \<notin> set ys'"
    and self: "taker_ok (nodes m) (drop (length order') xs0) xs0 pc'"
      "\<And>i. i < length order' \<Longrightarrow> order' ! i = t \<Longrightarrow> seat_ok xs0 hs (set (drop (length order') xs0 @ ys')) i pc'"
    and count: "unat (free_count m) = free + length (filter (\<lambda>u. finished (((pcs s)(t := pc')) u)) order')"
  shows "takers call xs0 hs free (s\<lparr>shared := m, pcs := (pcs s)(t := pc')\<rparr>) order' ys'"
proof -
  define P where "P = (pcs s)(t := pc')"
  have P: "P t = pc'" "\<And>u. u \<noteq> t \<Longrightarrow> P u = pcs s u" by (simp_all add: P_def)
  have sub: "set (drop (length order') xs0) \<subseteq> set (drop (length order) xs0)"
    using order(1) by (auto intro!: set_drop_subset_set_drop)
  have tk: "taker_ok (nodes m) (drop (length order') xs0) xs0 (P u)" for u
  proof (cases "u = t")
    case False
    have "taker_ok (nodes (shared s)) (drop (length order) xs0) xs0 (pcs s u)" using w by (simp add: takers_def)
    then have "taker_ok (nodes m) (drop (length order') xs0) xs0 (pcs s u)"
      by (rule taker_ok_mono[OF _ sub mem(2)]) (use others[OF False] in blast)
    with P(2)[OF False] show ?thesis by simp
  qed (use self(1) P(1) in simp)
  have seat: "seat_ok xs0 hs (set (drop (length order') xs0 @ ys')) i (P (order' ! i))" if i: "i < length order'" for i
  proof (cases "order' ! i = t")
    case False
    then have o: "i < length order" "order' ! i = order ! i"
      using i order(1) by (auto simp: nth_append split: if_splits)
    then have "seat_ok xs0 hs (set (drop (length order) xs0 @ ys)) i (pcs s (order ! i))" using w by (simp add: takers_def)
    with others[of "order ! i"] False sub o P(2) show ?thesis by (auto simp: seat_ok_def)
  qed (use self(2)[OF i] P(1) in simp)
  have ord: "distinct order'" "\<forall>u. u \<in> set order' \<longleftrightarrow> past_take (P u)"
    using w order(1,2) P unfolding takers_def by (auto split: if_splits) metis+
  have idle: "\<forall>u. call u = Woken \<longrightarrow> P u = Woken" using w t by (auto simp: takers_def P_def)
  have hs: "map (\<lambda>p. map_option n_handle (nodes m p)) xs0 = map Some hs"
    using w mem(3) by (simp add: takers_def cong: map_cong)
  show ?thesis
    using w mem(1) ord order(3) idle tk seat hs count unfolding takers_def P_def[symmetric] by simp
qed

lemma takers_handle:
  assumes "takers call xs0 hs free s order ys" and "i < length xs0"
  shows "map_option n_handle (nodes (shared s) (xs0 ! i)) = Some (hs ! i)" "length hs = length xs0"
proof -
  have eq: "map (\<lambda>p. map_option n_handle (nodes (shared s) p)) xs0 = map Some hs" using assms(1) by (simp add: takers_def)
  then show len: "length hs = length xs0" by (metis length_map)
  from eq assms(2) len show "map_option n_handle (nodes (shared s) (xs0 ! i)) = Some (hs ! i)"
    by (metis nth_map)
qed

lemma takers_seat_ok:
  assumes "takers call xs0 hs free s order ys" "i < length order" "order ! i = t"
  shows "seat_ok xs0 hs (set (drop (length order) xs0 @ ys)) i (pcs s t)"
proof -
  have "\<forall>i < length order. seat_ok xs0 hs (set (drop (length order) xs0 @ ys)) i (pcs s (order ! i))"
    using assms(1) by (simp add: takers_def)
  with assms(2,3) show ?thesis by blast
qed

lemma takers_own:
  assumes w: "takers call xs0 hs free s order ys" and p: "node_of (pcs s t) = Some p"
  obtains i where "i < length order" "order ! i = t" "i < length xs0" "p = xs0 ! i" "p \<notin> set (drop (length order) xs0 @ ys)"
proof -
  have "taker_ok (nodes (shared s)) (drop (length order) xs0) xs0 (pcs s t)" using w by (simp add: takers_def)
  with p taker_nodeless have "past_take (pcs s t)" by fastforce
  then have "t \<in> set order" using w by (simp add: takers_def)
  then obtain i where i: "i < length order" "order ! i = t" by (auto simp: in_set_conv_nth)
  with takers_seat_ok[OF w i] p have "p = xs0 ! i" "p \<notin> set (drop (length order) xs0 @ ys)" by (auto simp: seat_ok_def)
  moreover have "i < length xs0" using w i by (simp add: takers_def)
  ultimately show thesis using i that by blast
qed

lemma takers_apart:
  assumes w: "takers call xs0 hs free s order ys" and p: "node_of (pcs s t) = Some p" "node_of (pcs s u) = Some p"
  shows "t = u"
proof (rule takers_own[OF w p(1)], rule takers_own[OF w p(2)])
  fix i j assume ij: "order ! i = t" "i < length xs0" "p = xs0 ! i" "order ! j = u" "j < length xs0" "p = xs0 ! j"
  have "distinct xs0" using w by (simp add: takers_def)
  with ij have "i = j" by (simp add: nth_eq_iff_index_eq)
  with ij show ?thesis by simp
qed

lemma takers_quiet:
  assumes w: "takers call xs0 hs free s order ys" and t: "call t \<noteq> Woken"
    and same: "nodes m = nodes (shared s)" "sched_head m = sched_head (shared s)" "free_head m = free_head (shared s)"
      "heap_cur m = heap_cur (shared s)" "heap_ok m = heap_ok (shared s)" "free_count m = free_count (shared s)"
    and pc: "taker_ok (nodes (shared s)) (drop (length order) xs0) xs0 pc'" "past_take pc' = past_take (pcs s t)"
      "finished pc' = finished (pcs s t)" "node_of pc' = None \<or> node_of pc' = node_of (pcs s t)"
      "\<And>h. taken_handle pc' = Some h \<Longrightarrow> taken_handle (pcs s t) = Some h \<or>
        (\<exists>p. node_of (pcs s t) = Some p \<and> map_option n_handle (nodes (shared s) p) = Some h)"
  shows "\<exists>order ys. takers call xs0 hs free (s\<lparr>shared := m, pcs := (pcs s)(t := pc')\<rparr>) order ys"
proof (intro exI, rule takers_update[OF w t])
  show "stacks m (drop (length order) xs0) ys"
    by (rule stacks_frame[OF _ same(1-5)]) (use w in \<open>simp add: takers_def\<close>)
  fix u p assume "u \<noteq> t" "node_of (pcs s u) = Some p"
  then show "nodes m p = nodes (shared s) p \<and> p \<notin> set ys"
    using same(1) by (elim takers_own[OF w]) simp
next
  fix i assume i: "i < length order" "order ! i = t"
  note seat = takers_seat_ok[OF w i]
  have "map_option n_handle (nodes (shared s) (xs0 ! i)) = Some (hs ! i)"
    using i w by (intro takers_handle[OF w]) (simp add: takers_def)
  with seat pc(4,5) show "seat_ok xs0 hs (set (drop (length order) xs0 @ ys)) i pc'"
    unfolding seat_ok_def by auto
next
  have "filter (\<lambda>u. finished (((pcs s)(t := pc')) u)) order = filter (\<lambda>u. finished (pcs s u)) order"
    using pc(3) by (intro filter_cong) auto
  then show "unat (free_count m) = free + length (filter (\<lambda>u. finished (((pcs s)(t := pc')) u)) order)"
    using w same(6) by (simp add: takers_def)
qed (use w same(1) pc(1,2) in \<open>auto simp: takers_def\<close>)

lemma takers_take:
  assumes w: "takers call xs0 hs free s order ys" and t: "call t \<noteq> Woken"
    and pc: "pcs s t = Take_Cas head nxt" and cas: "sched_head (shared s) = head"
  shows "\<exists>order ys. takers call xs0 hs free (s\<lparr>shared := (shared s)\<lparr>sched_head := nxt\<rparr>, pcs := (pcs s)(t := Take_Handle head)\<rparr>) order ys"
proof -
  let ?k = "length order"
  have st: "stacks (shared s) (drop ?k xs0) ys" and "0 \<notin> set xs0" and dist: "distinct xs0"
    and out: "t \<notin> set order" using w pc by (simp_all add: takers_def)
  have ok: "taker_ok (nodes (shared s)) (drop ?k xs0) xs0 (Take_Cas head nxt)" using w pc unfolding takers_def by metis
  then have "head \<noteq> 0" using \<open>0 \<notin> set xs0\<close> by auto
  then obtain n as where xs: "drop ?k xs0 = head # as" "nodes (shared s) head = Some n" "chain (nodes (shared s)) (n_next n) as"
    using st cas by (auto simp: stacks_def elim: chain_headE)
  then have k: "?k < length xs0" by (metis drop_all linorder_not_less list.distinct(1))
  with xs(1) have hd: "xs0 ! ?k = head" "drop (Suc ?k) xs0 = as" by (simp_all add: Cons_nth_drop_Suc[symmetric])
  have nxt: "nxt = n_next n" using ok xs(1,2) by simp
  have "takers call xs0 hs free (s\<lparr>shared := (shared s)\<lparr>sched_head := nxt\<rparr>, pcs := (pcs s)(t := Take_Handle head)\<rparr>) (order @ [t]) ys"
  proof (rule takers_update[OF w t])
    show "stacks ((shared s)\<lparr>sched_head := nxt\<rparr>) (drop (length (order @ [t])) xs0) ys"
      using st xs nxt hd by (simp add: stacks_def)
    fix u p assume "u \<noteq> t" "node_of (pcs s u) = Some p"
    then show "nodes ((shared s)\<lparr>sched_head := nxt\<rparr>) p = nodes (shared s) p \<and> p \<notin> set ys"
      by (elim takers_own[OF w]) simp
  next
    fix i assume i: "i < length (order @ [t])" "(order @ [t]) ! i = t"
    with out have "i = ?k" by (metis in_set_conv_nth length_append_singleton less_antisym nth_append)
    with st xs(1) hd show "seat_ok xs0 hs (set (drop (length (order @ [t])) xs0 @ ys)) i (Take_Handle head)"
      by (auto simp: seat_ok_def stacks_def)
  next
    have "filter (\<lambda>u. finished (((pcs s)(t := Take_Handle head)) u)) order = filter (\<lambda>u. finished (pcs s u)) order"
      using out by (intro filter_cong) auto
    then show "unat (free_count ((shared s)\<lparr>sched_head := nxt\<rparr>)) =
        free + length (filter (\<lambda>u. finished (((pcs s)(t := Take_Handle head)) u)) (order @ [t]))"
      using w by (simp add: takers_def finished_def)
  qed (use pc k in simp_all)
  then show ?thesis by blast
qed

text \<open>Where a taker writes its own node, or hands it over to the freelist.\<close>

lemma takers_free:
  assumes w: "takers call xs0 hs free s order ys" and t: "call t \<noteq> Woken"
    and pc: "pcs s t = Free_Store h p head \<and> m = (shared s)\<lparr>nodes := (nodes (shared s))(p \<mapsto> n\<lparr>n_next := head\<rparr>)\<rparr> \<and>
        nodes (shared s) p = Some n \<and> pc' = Free_Cas h p head \<or>
      pcs s t = Free_Cas h p head \<and> free_head (shared s) = head \<and> m = (shared s)\<lparr>free_head := p\<rparr> \<and> pc' = Free_Add h"
  shows "\<exists>order ys. takers call xs0 hs free (s\<lparr>shared := m, pcs := (pcs s)(t := pc')\<rparr>) order ys"
proof -
  let ?xs = "drop (length order) xs0" and ?ys = "if pc' = Free_Add h then p # ys else ys"
  have st: "stacks (shared s) ?xs ys" using w by (simp add: takers_def)
  have node: "node_of (pcs s t) = Some p" using pc by auto
  obtain i where i: "i < length order" "order ! i = t" "i < length xs0" "p = xs0 ! i" "p \<notin> set (?xs @ ys)"
    by (rule takers_own[OF w node])
  have "p \<in> set xs0" using i by simp
  then have p: "p \<noteq> 0" using w by (auto simp: takers_def)
  have ok: "taker_ok (nodes (shared s)) ?xs xs0 (pcs s t)" using w by (simp add: takers_def)
  have "takers call xs0 hs free (s\<lparr>shared := m, pcs := (pcs s)(t := pc')\<rparr>) order ?ys"
  proof (rule takers_update[OF w t])
    show "stacks m ?xs ?ys"
      using pc
    proof (elim disjE conjE)
      assume "m = (shared s)\<lparr>nodes := (nodes (shared s))(p \<mapsto> n\<lparr>n_next := head\<rparr>)\<rparr>" "nodes (shared s) p = Some n" "pc' = Free_Cas h p head"
      then show ?thesis using stacks_store[OF st _ i(5)] by auto
    next
      assume "pcs s t = Free_Cas h p head" "free_head (shared s) = head" "m = (shared s)\<lparr>free_head := p\<rparr>" "pc' = Free_Add h"
      then show ?thesis using st i(5) p ok by (auto simp: stacks_def split: option.splits)
    qed
    fix u q assume u: "u \<noteq> t" "node_of (pcs s u) = Some q"
    then have "q \<noteq> p" using takers_apart[OF w node] by auto
    moreover have "q \<notin> set ys" using u(2) by (elim takers_own[OF w]) simp
    ultimately show "nodes m q = nodes (shared s) q \<and> q \<notin> set ?ys" using pc by auto
  next
    fix j assume j: "j < length order" "order ! j = t"
    show "seat_ok xs0 hs (set (?xs @ ?ys)) j pc'"
      using takers_seat_ok[OF w j] pc by (auto simp: seat_ok_def)
  next
    have "filter (\<lambda>u. finished (((pcs s)(t := pc')) u)) order = filter (\<lambda>u. finished (pcs s u)) order"
      using pc by (intro filter_cong) (auto simp: finished_def)
    then show "unat (free_count m) = free + length (filter (\<lambda>u. finished (((pcs s)(t := pc')) u)) order)"
      using w pc by (auto simp: takers_def)
  qed (use pc i w in \<open>auto simp: takers_def\<close>)
  then show ?thesis by blast
qed

lemma takers_count:
  assumes w: "takers call xs0 hs free s order ys" and t: "past_take (pcs s t)" "\<not> finished (pcs s t)"
  shows "unat (free_count (shared s)) < 256"
proof -
  have "t \<in> set order" using w t(1) by (simp add: takers_def)
  then have "length (filter (\<lambda>u. finished (pcs s u)) order) < length order"
    using t(2) by (rule length_filter_less)
  with w show ?thesis by (simp add: takers_def)
qed

lemma takers_done:
  assumes w: "takers call xs0 hs free s order ys" and t: "call t \<noteq> Woken" and pc: "pcs s t = Free_Add h"
  shows "\<exists>order ys. takers call xs0 hs free
    (s\<lparr>shared := (shared s)\<lparr>free_count := free_count (shared s) + 1\<rparr>, pcs := (pcs s)(t := Took (Some h))\<rparr>) order ys"
proof (intro exI, rule takers_update[OF w t])
  have lt: "unat (free_count (shared s)) < 256" by (rule takers_count[OF w, of t]) (simp_all add: pc finished_def)
  have "t \<in> set order" using w pc by (simp add: takers_def)
  then have "length (filter (\<lambda>u. finished (((pcs s)(t := Took (Some h))) u)) order) = Suc (length (filter (\<lambda>u. finished (pcs s u)) order))"
    using w by (intro filter_finished) (simp_all add: takers_def pc finished_def)
  with w lt show "unat (free_count ((shared s)\<lparr>free_count := free_count (shared s) + 1\<rparr>)) =
      free + length (filter (\<lambda>u. finished (((pcs s)(t := Took (Some h))) u)) order)"
    by (simp add: takers_def unat_word_ariths)
  show "stacks ((shared s)\<lparr>free_count := free_count (shared s) + 1\<rparr>) (drop (length order) xs0) ys"
    using w by (simp add: takers_def stacks_def)
  fix u q assume "u \<noteq> t" "node_of (pcs s u) = Some q"
  then show "nodes ((shared s)\<lparr>free_count := free_count (shared s) + 1\<rparr>) q = nodes (shared s) q \<and> q \<notin> set ys"
    by (elim takers_own[OF w]) simp
next
  fix i assume i: "i < length order" "order ! i = t"
  with takers_seat_ok[OF w i] pc show "seat_ok xs0 hs (set (drop (length order) xs0 @ ys)) i (Took (Some h))"
    by (simp add: seat_ok_def)
qed (use w pc in \<open>simp_all add: takers_def\<close>)

lemma takers_step:
  assumes w: "takers call xs0 hs free s order ys" and step: "thread_step K (pcs s t) (shared s) = Inr (pc', m)"
  shows "\<exists>order ys. takers call xs0 hs free (s\<lparr>shared := m, pcs := (pcs s)(t := pc')\<rparr>) order ys"
proof (cases "call t = Woken")
  case True
  then have "pcs s t = Woken" using w by (simp add: takers_def)
  moreover from this step have "m = shared s" "pc' = Woken" by simp_all
  ultimately have "s\<lparr>shared := m, pcs := (pcs s)(t := pc')\<rparr> = s" by (simp add: fun_upd_idem)
  with w show ?thesis by metis
next
  case False
  let ?xs = "drop (length order) xs0"
  have st: "stacks (shared s) ?xs ys" and ok: "taker_ok (nodes (shared s)) ?xs xs0 (pcs s t)"
    using w by (simp_all add: takers_def)
  have scheduled: "head \<in> set xs0 \<Longrightarrow> \<exists>n. nodes (shared s) head = Some n" for head
    using takers_handle(1)[OF w] by (auto simp: in_set_conv_nth)
  have own: "\<exists>n. nodes (shared s) p = Some n" if "node_of (pcs s t) = Some p" for p
    by (rule takers_own[OF w that]) (use scheduled in auto)
  note quiet = takers_quiet[OF w False]
  show ?thesis
  proof (cases "pcs s t")
    case Take
    have "sched_head (shared s) = 0 \<and> ?xs = [] \<or> sched_head (shared s) \<noteq> 0 \<and> sched_head (shared s) \<in> set xs0"
      using st in_set_dropD[of "sched_head (shared s)" "length order" xs0] by (cases ?xs) (auto simp: stacks_def)
    with Take step show ?thesis by (intro quiet) (auto simp: finished_def)
  next
    case (Take_Next head)
    with step ok scheduled[of head] show ?thesis by (intro quiet) (auto simp: finished_def)
  next
    case (Take_Cas head nxt)
    show ?thesis
    proof (cases "sched_head (shared s) = head")
      case True
      with step Take_Cas takers_take[OF w False Take_Cas True] show ?thesis by auto
    qed (use Take_Cas step ok in \<open>intro quiet; auto simp: finished_def\<close>)
  next
    case (Take_Handle p)
    with own[of p] step show ?thesis by (intro quiet) (auto simp: finished_def)
  next
    case (Free_Count h p)
    then have "free_count (shared s) < FREELIST_MAX"
      using takers_count[OF w, of t] by (simp add: finished_def word_less_nat_alt unat_FREELIST_MAX)
    with Free_Count step show ?thesis by (intro quiet) (auto simp: finished_def)
  next
    case (Free_Load h p)
    with step show ?thesis by (intro quiet) (auto simp: finished_def)
  next
    case (Free_Store h p head)
    with own[of p] obtain n where "nodes (shared s) p = Some n" by auto
    with Free_Store step show ?thesis by (intro takers_free[OF w False, of h p head _ n]) simp
  next
    case (Free_Cas h p head)
    show ?thesis
    proof (cases "free_head (shared s) = head")
      case True
      with step Free_Cas show ?thesis by (auto intro!: takers_free[OF w False])
    qed (use Free_Cas step ok in \<open>intro quiet; auto simp: finished_def\<close>)
  next
    case (Free_Add h)
    with step takers_done[OF w False Free_Add] show ?thesis by auto
  next
    case (Took r)
    with step ok show ?thesis by (intro quiet) auto
  next
    case Woken
    with step show ?thesis by (intro quiet) auto
  qed (use ok in simp_all)
qed

lemma takers_no_fault:
  assumes w: "takers call xs0 hs free s order ys"
  shows "thread_step K (pcs s t) (shared s) \<noteq> Inl e"
proof -
  let ?xs = "drop (length order) xs0"
  have ok: "taker_ok (nodes (shared s)) ?xs xs0 (pcs s t)" using w by (simp add: takers_def)
  have scheduled: "\<exists>n. nodes (shared s) head = Some n" if "head \<in> set xs0" for head
    using takers_handle(1)[OF w] that by (auto simp: in_set_conv_nth)
  have own: "\<exists>n. nodes (shared s) p = Some n" if "node_of (pcs s t) = Some p" for p
    by (rule takers_own[OF w that]) (use scheduled in auto)
  show ?thesis
  proof (cases "pcs s t")
    case (Take_Next head)
    with ok scheduled[of head] show ?thesis by auto
  next
    case (Take_Handle p)
    with own[of p] show ?thesis by auto
  next
    case (Free_Store h p head)
    with own[of p] show ?thesis by auto
  qed (use ok in simp_all)
qed

section \<open>Properties\<close>

interpretation takers: safe_system "\<lambda>s. s = \<lparr>shared = m, pcs = call\<rparr> \<and> sched_shape m xs0 ys0 \<and>
      map (handle_at (nodes m)) xs0 = hs \<and> length xs0 + length ys0 \<le> 256 \<and> (\<forall>t. call t = Woken \<or> call t = Take)"
    "threads_step K" "\<lambda>s. \<exists>order ys. takers call xs0 hs (length ys0) s order ys" for K m call xs0 ys0 hs
proof
  fix s assume s: "s = \<lparr>shared = m, pcs = call\<rparr> \<and> sched_shape m xs0 ys0 \<and> map (handle_at (nodes m)) xs0 = hs \<and>
    length xs0 + length ys0 \<le> 256 \<and> (\<forall>t. call t = Woken \<or> call t = Take)"
  then have ch: "chain (nodes m) (sched_head m) xs0" "distinct xs0" "0 \<notin> set xs0" "unat (free_count m) = length ys0"
    using chain_dom[of "nodes m" "sched_head m" xs0] by (simp_all add: sched_shape_def)
  have "map_option n_handle (nodes m p) = Some (handle_at (nodes m) p)" if "p \<in> set xs0" for p
    using chain_dom[OF ch(1)] that by (auto simp: handle_at_def)
  then have hs: "map (\<lambda>p. map_option n_handle (nodes m p)) xs0 = map Some hs" using s by auto
  have pcs: "past_take (call t) = False \<and> taker_ok (nodes m) xs0 xs0 (call t)" for t
    using s by (metis past_take.simps(19,20) taker_ok.simps(1,11))
  have "takers call xs0 hs (length ys0) s [] ys0"
    using s ch hs pcs sched_shape_stacks[of m xs0 ys0] by (simp add: takers_def)
  then show "\<exists>order ys. takers call xs0 hs (length ys0) s order ys" by blast
next
  fix s u assume "\<exists>order ys. takers call xs0 hs (length ys0) s order ys" "threads_step K s u"
  then show "\<exists>order ys. takers call xs0 hs (length ys0) u order ys"
    by (auto elim!: threads_stepE dest: takers_step)
qed

text \<open>
  C10: Concurrent takes never share a task. Any number of threads are inside
  \<open>take_scheduled_task\<close> at any point of any interleaving, none is waking, and scheduled handles and free
  nodes together are at most 256, so that every node goes back to the freelist: the
  threads whose compare-and-swap succeeded have an order, the \<open>i\<close>-th of them returns the
  \<open>i\<close>-th of the handles scheduled at the start, the others are still scheduled, a thread returns
  nothing only when nothing is left, and no thread can fail.
\<close>

theorem concurrent_takes_distinct:
  assumes "sched_rep m hs" and "length hs + unat (free_count m) \<le> 256" and "\<forall>t. call t = Woken \<or> call t = Take"
    and "interleaved K m call s"
  shows "\<exists>order. distinct order \<and> length order \<le> length hs \<and> on_schedule (shared s) (drop (length order) hs) \<and>
    (\<forall>t h. pcs s t = Took (Some h) \<longrightarrow> (\<exists>i < length order. order ! i = t \<and> hs ! i = h)) \<and>
    (\<forall>t. pcs s t = Took None \<longrightarrow> length order = length hs) \<and>
    (\<forall>t e. thread_step K (pcs s t) (shared s) \<noteq> Inl e)"
proof -
  from assms(1) obtain xs0 ys0 where sh: "sched_shape m xs0 ys0" "map (handle_at (nodes m)) xs0 = hs"
    by (auto simp: sched_rep_def)
  have "length xs0 + length ys0 \<le> 256" using assms(2) sh by (auto simp: sched_shape_def)
  then have "reachable (\<lambda>s. s = \<lparr>shared = m, pcs = call\<rparr> \<and> sched_shape m xs0 ys0 \<and>
      map (handle_at (nodes m)) xs0 = hs \<and> length xs0 + length ys0 \<le> 256 \<and> (\<forall>t. call t = Woken \<or> call t = Take)) (threads_step K) s"
    using assms sh by (intro reachable_from) simp_all
  from takers.reachable_inv[OF this] obtain order ys where w: "takers call xs0 hs (length ys0) s order ys" by blast
  let ?xs = "drop (length order) xs0"
  have st: "stacks (shared s) ?xs ys" and order: "distinct order" "length order \<le> length xs0"
    using w by (simp_all add: takers_def)
  have len: "length hs = length xs0" using sh(2) by auto
  have "handle_at (nodes (shared s)) (xs0 ! i) = hs ! i" if "i < length xs0" for i
    using takers_handle(1)[OF w that] by (auto simp: handle_at_def split: option.splits)
  then have "map (handle_at (nodes (shared s))) ?xs = drop (length order) hs"
    using len by (intro nth_equalityI) simp_all
  with st have sched: "on_schedule (shared s) (drop (length order) hs)" by (rule stacks_on_schedule)
  have took: "\<exists>i < length order. order ! i = t \<and> hs ! i = h" if t: "pcs s t = Took (Some h)" for t h
  proof -
    have "t \<in> set order" using w t by (simp add: takers_def)
    then obtain i where i: "i < length order" "order ! i = t" by (auto simp: in_set_conv_nth)
    with takers_seat_ok[OF w i] t show ?thesis by (auto simp: seat_ok_def)
  qed
  have none: "length order = length hs" if t: "pcs s t = Took None" for t
  proof -
    have "taker_ok (nodes (shared s)) ?xs xs0 (pcs s t)" using w by (simp add: takers_def)
    with t order(2) len show ?thesis by simp
  qed
  show ?thesis using order len sched took none takers_no_fault[OF w] by (intro exI[of _ order]) simp
qed

text \<open>Two threads take at once; the second compare-and-swap fails and is repeated.\<close>

definition two_takers :: "nat \<Rightarrow> pc" where
  "two_takers t = (if t < 2 then Take else Woken)"

theorem concurrent_takes_distinct_witness:
  "\<exists>s order. interleaved (one_map_kernel 0x10000) three_scheduled two_takers s \<and>
     pcs s 0 = Took (Some 1) \<and> pcs s 1 = Took (Some 2) \<and> distinct order \<and> length order \<le> 3 \<and>
     on_schedule (shared s) (drop (length order) [1, 2, 9]) \<and> (\<exists>i < length order. order ! i = (1 :: nat) \<and> [1, 2, 9] ! i = (2 :: usize))"
proof -
  let ?K = "one_map_kernel 0x10000" and ?ts = "[0, 1, 0, 1, 0, 1, 1, 1, 1] @ replicate 6 0 @ replicate 6 1"
  have "\<exists>s. run_order ?K ?ts \<lparr>shared = three_scheduled, pcs = two_takers\<rparr> = Some s \<and>
      pcs s 0 = Took (Some 1) \<and> pcs s 1 = Took (Some 2)"
    by (simp add: replicate_numeral two_takers_def three_scheduled_def fresh_sched_def load_node_def store_node_def FREELIST_MAX_def bind_p_def)
  then obtain s where s: "run_order ?K ?ts \<lparr>shared = three_scheduled, pcs = two_takers\<rparr> = Some s"
    "pcs s 0 = Took (Some 1)" "pcs s 1 = Took (Some 2)" by blast
  have run: "interleaved ?K three_scheduled two_takers s"
    by (rule run_order_interleaved[OF reachable.start s(1)]) (rule refl)
  have "length [1, 2, 9 :: usize] + unat (free_count three_scheduled) \<le> 256" "\<forall>t. two_takers t = Woken \<or> two_takers t = Take"
    by (simp_all add: three_scheduled_def fresh_sched_def two_takers_def)
  from concurrent_takes_distinct[OF three_scheduled_rep this run] obtain order where
    o: "distinct order" "length order \<le> length [1, 2, 9 :: usize]" "on_schedule (shared s) (drop (length order) [1, 2, 9])"
      "\<forall>t h. pcs s t = Took (Some h) \<longrightarrow> (\<exists>i < length order. order ! i = t \<and> [1, 2, 9] ! i = h)" by blast
  have "length order \<le> 3" using o(2) by simp
  moreover have "\<exists>i < length order. order ! i = 1 \<and> [1, 2, 9] ! i = (2 :: usize)" using o(4) s(3) by blast
  ultimately show ?thesis using o(1,3) run s(2,3) by blast
qed

end
