(* ===== verification/Spec2Isabelle.thy ===== *)
theory Spec2Isabelle
  imports Server Wake_Phase Take_Phase
begin

text \<open>
  Verification of async_nostd, an asynchronous HTTP and WebSocket server for Linux without a
  standard library: raw system calls, a bump allocator, a scheduler with tasks and wakers, a
  readiness loop over \<open>ppoll\<close>, socket futures, HTTP and WebSocket connection tasks.

  \<^bold>\<open>The program and the theories.\<close> Paths are below src/crates unless they start with src/src.

  \<^item> Prelude: machine integers as words, bytes, panics as values, the state-and-panic combinators
    \<open>bind_p\<close>, \<open>get_p\<close>, \<open>modify_p\<close>, \<open>raise_p\<close>, three contracts on programs
    (\<open>quiet\<close>: returns and keeps an observation; \<open>keeps\<close>: keeps it on every way out;
    \<open>upholds\<close>: keeps an invariant and a relation to the start, failing only with given faults),
    each with a collection of introduction rules, and the interface \<open>safe_system\<close> of a
    transition system with an invariant.
  \<^item> Syscall, Format (syscall/lib.rs): every wrapper as a call of the kernel parameter \<open>K\<close>, which maps a
    call number, its arguments and the world to a result, what is written back and a new world; the
    machine records the calls made. Number formatting with its digit loops over fixed arrays.
  \<^item> Allocator (runtime/allocator.rs): \<open>bump\<close>, lazy heap creation, \<open>alloc\<close>, and the
    compare-and-swap loop as a step relation of any number of threads.
  \<^item> IoRegistry (runtime/io_registry.rs): the registry vector and the event descriptor; interface
    \<open>fd_registry\<close>, interpreted on the vector.
  \<^item> Treiber (runtime/scheduler.rs): nodes in an explicit store, schedule, freelist, wakers, run without
    interference; interface \<open>lifo_schedule\<close>. Concurrency, Wake_Phase, Take_Phase: the same
    functions cut into their accesses to shared memory, interleaved; \<open>solo_wake\<close> and
    \<open>solo_take\<close> show that both models agree on a thread alone.
  \<^item> Tasks (runtime/scheduler.rs): slot table, \<open>spawn\<close>, \<open>poll_task_safe\<close>; interface
    \<open>task_arena\<close>. A future is a value of a type parameter, its poll function a parameter.
  \<^item> Net (net/lib.rs): the leaf futures; interface \<open>leaf_future\<close>, interpreted four times.
  \<^item> Runtime (runtime/lib.rs): \<open>ppoll_and_schedule\<close>, argument parsing, start-up.
  \<^item> Sha1, Base64, Codec, Parsing (utils): digest, encoding, header search, frame codec; interface
    \<open>stream_codec\<close>, interpreted on the frame parser.
  \<^item> Websocket, Session, Conversation (websocket/lib.rs): the connection task as a state machine of its
    await points, what it delivers, and its specification as a conversation: a list of utterances (handshake
    response, data frames, pings and pongs) that is a function of the request's key and the client's frames.
  \<^item> Http, Descriptors, Contracts (http/lib.rs): the HTTP task, which of its own calls close a descriptor, and that every
    step of a connection touches nothing but the registry and the kernel.
  \<^item> Executor (executor/lib.rs), Server (src/src/main.rs): worker iterations, the accept loop, \<open>main\<close>.

  \<^bold>\<open>State.\<close> The statics of the program are the fields of one machine, built up by record extension
  along the imports: \<open>machine\<close> (kernel world, calls, memory), \<open>heap_machine\<close>,
  \<open>io_machine\<close>, \<open>sched_machine\<close>, \<open>task_machine\<close>, \<open>exec_machine\<close>.
  A function that works on a prefix of it is polymorphic in the rest. An \<open>async fn\<close> is a datatype
  of its await points with a step function; a leaf future is a record with a poll function, as in the source.

  \<^bold>\<open>What is shown.\<close>
  \<^item> Protocol: the frame parser decodes every encoding of a frame, is stable under further input, and
    panics exactly on lengths that wrap; a WebSocket connection whose client sends well-formed frames
    says its specified conversation in order and nothing else, from the handshake on, over any stream
    socket that behaves as documented (\<open>stream_socket\<close>), however bytes are split, writes are cut, deferred
    or refused and other tasks interleave; an utterance is complete or the log of system calls shows the send that cut it;
    one poll of it returns. The handshake computes the accept key with a digest equal to the standard's;
    requests are routed by prefix, on every branch of the HTTP task.
  \<^item> Memory: allocated blocks are aligned, inside the heap and disjoint under every interleaving.
  \<^item> Scheduling: the schedule is a stack, spawning fills one free slot of 1024, polling runs exactly the task
    of a handle, a round of the readiness loop neither loses nor duplicates a waker, a worker polls the
    handle woken last. Concurrent wakes lose nothing, concurrent takes of at most 256 nodes share nothing, and a
    mixture of both can lose a task.
  \<^item> Resources: a connection closes its descriptor once, with its last call, on every path, and nothing else; the
    listening socket is set up by the exact calls of the source and closed when it cannot be set up.
  \<^item> Composition: from the initial statics every run of the main thread only stops in the listed ways and
    otherwise keeps schedule, registry and slot table well formed.
  \<^item> Where the code does not do what it means to, a theorem says what it does: worn generations, futures
    pending with no waker, stale handles counted down, responses cut at a short write, upgrade requests
    whose key is in a later segment, header values that lose their last byte.

  \<^bold>\<open>Bounds.\<close> Loops that end are recursive functions with a termination proof. The others take a bound:
  \<open>reap\<close> (children reaped in one round), \<open>poll_ws\<close>, \<open>poll_http\<close> and \<open>accept_loop\<close>
  (awaits in one poll), \<open>worker_loop\<close> (iterations of an endless loop), \<open>wait_all\<close>;
  running out is the fault \<open>Out_Of_Fuel\<close>. \<open>poll_ws_returns\<close> gives a sufficient bound for
  a poll of a connection and \<open>reap_returns\<close> one for reaping; the safety theorems hold for every bound.

  \<^bold>\<open>Assumptions.\<close> The release profile: arithmetic wraps, indices and slices are checked. The kernel may answer
  anything; \<open>mmap_ok\<close> says that \<open>mmap\<close> returns a failure or 16 MiB of usable addresses, other
  hypotheses on it are stated where they are used and satisfied by a concrete kernel in the witness.
  Allocations by \<open>Vec\<close> and \<open>Box\<close> other than scheduler nodes succeed. A spin lock's critical section
  is one step.

  \<^bold>\<open>Not modelled.\<close> The inline assembly of the system calls and \<open>_start\<close> (the call of \<open>K\<close>
  stands for the former; \<open>main_trampoline\<close> is modelled); memory orderings weaker than sequential
  consistency; the threads created by \<open>spawn_thread\<close> running at the same time as the main thread,
  except for the allocator and the schedule, whose interleavings are modelled; the stub pty/lib.rs, which
  nothing calls; build files, tests and the page, which is a constant of theory Http.
\<close>

end
